(* ===== verification/Curry_Prelude.thy ===== *)
theory Curry_Prelude
  imports Main "HOL-Library.Word"
begin

text \<open>
  What the components of the development share: the outcome of a C function that may raise a
  Scheme error or never return (\<open>res\<close>), its sequencing (\<open>rbind\<close>), the machine types of the
  source (\<open>val_t\<close> is a 64-bit word, \<open>uint32_t\<close> a 32-bit one), and the generic lemmas on
  power-of-two masks, counting slots of an array and sequencing that the component theories use.
\<close>

section \<open>Machine types and outcomes\<close>

type_synonym val = "64 word"
type_synonym u8 = "8 word"
type_synonym u16 = "16 word"
type_synonym u32 = "32 word"
type_synonym u64 = "64 word"

text \<open>
  \<open>Raise\<close> is \<open>scm_raise\<close> with its message, \<open>Raise_Code\<close> is \<open>scm_raise_code\<close> with the name of the
  error code and the message, \<open>Raise_Val\<close> is \<open>scm_raise_val\<close> with the raised object; all leave the C
  function by \<open>longjmp\<close>. \<open>Diverges\<close> is the outcome of a loop that never leaves: the models of the
  source's unbounded loops give it exactly when the C loop would run for ever. \<open>Undefined\<close> is the
  outcome of an operation on which C puts no requirement, such as reading outside an array.
\<close>

datatype scm_error =
    Raise string
  | Raise_Code string string
  | Raise_Val val
  | Diverges
  | Undefined

type_synonym 'a res = "scm_error + 'a"

fun rbind :: "'a res \<Rightarrow> ('a \<Rightarrow> 'b res) \<Rightarrow> 'b res" where
  "rbind (Inl e) f = Inl e"
| "rbind (Inr x) f = f x"

lemma rbind_cong [fundef_cong]:
  "m = m' \<Longrightarrow> (\<And>x. m' = Inr x \<Longrightarrow> f x = g x) \<Longrightarrow> rbind m f = rbind m' g"
  by (cases m') auto

lemma rbind_Inr_iff: "rbind m f = Inr y \<longleftrightarrow> (\<exists>x. m = Inr x \<and> f x = Inr y)"
  by (cases m) auto

lemma rbind_Inl_iff: "rbind m f = Inl e \<longleftrightarrow> m = Inl e \<or> (\<exists>x. m = Inr x \<and> f x = Inl e)"
  by (cases m) auto

lemma rbind_assoc: "rbind (rbind m f) g = rbind m (\<lambda>x. rbind (f x) g)"
  by (cases m) auto

section \<open>Power-of-two masks\<close>

unbundle bit_operations_syntax

lemma and_mask_nat: "(n::nat) AND (2 ^ k - 1) = n mod 2 ^ k"
  by (metis mask_eq_exp_minus_1 take_bit_eq_mask take_bit_eq_mod)

section \<open>Counting the slots of an array\<close>

lemma length_filter_update:
  "i < length b \<Longrightarrow>
    length (filter P (b[i := x])) + (if P (b ! i) then 1 else 0)
      = length (filter P b) + (if P x then 1 else (0::nat))"
proof (induction b arbitrary: i)
  case (Cons a b)
  then show ?case by (cases i) auto
qed simp

lemma filter_short_ex:
  "length (filter P b) < length b \<Longrightarrow> \<exists>i < length b. \<not> P (b ! i)"
  by (metis filter_True in_set_conv_nth order_less_irrefl)

lemma ex_least_below:
  fixes P :: "nat \<Rightarrow> bool"
  assumes "P p" obtains m where "m \<le> p" "P m" "\<And>q. q < m \<Longrightarrow> \<not> P q"
  using assms by (metis LeastI Least_le not_less_Least)

text \<open>Arithmetic on \<open>uint32_t\<close>.\<close>

definition wrap32 :: "nat \<Rightarrow> nat" where
  "wrap32 n = n mod 2 ^ 32"

end
