(* ===== verification/Curry_Value.thy ===== *)
theory Curry_Value
  imports Curry_Prelude
begin

text \<open>
  The tagged 64-bit value representation of \<open>src/src/value.h\<close>: the two tag bits, the immediate
  constants, fixnums (62-bit signed, shifted left by two), characters (shifted left by eight) and
  heap pointers (tag 00, not null). The lemmas show that the four classes are disjoint and cover
  every word but the null pointer, and that fixnums and characters survive encoding.
\<close>

section \<open>Tags and immediates\<close>

definition VTAG_MASK :: val where "VTAG_MASK = 0x3"
definition VTAG_PTR :: val where "VTAG_PTR = 0x0"
definition VTAG_FIX :: val where "VTAG_FIX = 0x1"
definition VTAG_CHR :: val where "VTAG_CHR = 0x2"
definition VTAG_IMM :: val where "VTAG_IMM = 0x3"

definition V_FALSE :: val where "V_FALSE = 0x03"
definition V_TRUE :: val where "V_TRUE = 0x07"
definition V_NIL :: val where "V_NIL = 0x0B"
definition V_VOID :: val where "V_VOID = 0x0F"
definition V_EOF :: val where "V_EOF = 0x13"
definition V_UNDEF :: val where "V_UNDEF = 0x17"

lemmas tag_defs = VTAG_MASK_def VTAG_PTR_def VTAG_FIX_def VTAG_CHR_def VTAG_IMM_def
lemmas imm_defs = V_FALSE_def V_TRUE_def V_NIL_def V_VOID_def V_EOF_def V_UNDEF_def

definition vtag :: "val \<Rightarrow> val" where "vtag v = v AND VTAG_MASK"
definition vis_ptr :: "val \<Rightarrow> bool" where "vis_ptr v \<longleftrightarrow> vtag v = VTAG_PTR \<and> v \<noteq> 0"
definition vis_fixnum :: "val \<Rightarrow> bool" where "vis_fixnum v \<longleftrightarrow> vtag v = VTAG_FIX"
definition vis_char :: "val \<Rightarrow> bool" where "vis_char v \<longleftrightarrow> vtag v = VTAG_CHR"
definition vis_imm :: "val \<Rightarrow> bool" where "vis_imm v \<longleftrightarrow> vtag v = VTAG_IMM"

definition vis_false :: "val \<Rightarrow> bool" where "vis_false v \<longleftrightarrow> v = V_FALSE"
definition vis_true :: "val \<Rightarrow> bool" where "vis_true v \<longleftrightarrow> v \<noteq> V_FALSE"
definition vbool :: "bool \<Rightarrow> val" where "vbool b = (if b then V_TRUE else V_FALSE)"

section \<open>Fixnums and characters\<close>

definition vfix :: "int \<Rightarrow> val" where
  "vfix n = push_bit 2 (word_of_int n) OR VTAG_FIX"

text \<open>\<open>(intptr_t)(v) >> 2\<close> is an arithmetic shift of the signed reading of the word.\<close>

definition vunfix :: "val \<Rightarrow> int" where
  "vunfix v = drop_bit 2 (sint v)"

definition FIXNUM_MAX :: int where "FIXNUM_MAX = uint (drop_bit 3 (- 1 :: u64))"
definition FIXNUM_MIN :: int where "FIXNUM_MIN = - FIXNUM_MAX - 1"

definition in_fixnum_range :: "int \<Rightarrow> bool" where
  "in_fixnum_range n \<longleftrightarrow> FIXNUM_MIN \<le> n \<and> n \<le> FIXNUM_MAX"

definition vchr :: "u32 \<Rightarrow> val" where
  "vchr c = push_bit 8 (ucast c) OR VTAG_CHR"

definition vunchr :: "val \<Rightarrow> u32" where
  "vunchr v = ucast (drop_bit 8 v)"

section \<open>The representation is unambiguous\<close>

lemma vtag_eq_take_bit: "vtag v = take_bit 2 v"
proof -
  have "VTAG_MASK = mask 2" by (simp add: VTAG_MASK_def mask_eq_exp_minus_1)
  then show ?thesis by (simp add: vtag_def take_bit_eq_mask)
qed

lemma uint_vtag: "uint (vtag v) = uint v mod 4"
  unfolding vtag_eq_take_bit unsigned_take_bit_eq by (simp add: take_bit_eq_mod)

lemma vtag_cases: "vtag v = 0 \<or> vtag v = 1 \<or> vtag v = 2 \<or> vtag v = 3"
proof -
  have "uint v mod 4 = 0 \<or> uint v mod 4 = 1 \<or> uint v mod 4 = 2 \<or> uint v mod 4 = 3" by presburger
  then show ?thesis by (simp add: word_uint_eq_iff uint_vtag)
qed

lemma vis_defs_disjoint:
  "\<not> (vis_ptr v \<and> vis_fixnum v)" "\<not> (vis_ptr v \<and> vis_char v)" "\<not> (vis_ptr v \<and> vis_imm v)"
  "\<not> (vis_fixnum v \<and> vis_char v)" "\<not> (vis_fixnum v \<and> vis_imm v)" "\<not> (vis_char v \<and> vis_imm v)"
  by (auto simp: vis_ptr_def vis_fixnum_def vis_char_def vis_imm_def tag_defs)

lemma FIXNUM_MAX_eq: "FIXNUM_MAX = 2 ^ 61 - 1"
  by (simp add: FIXNUM_MAX_def unsigned_drop_bit_eq mask_eq_exp_minus_1)

lemma FIXNUM_MIN_eq: "FIXNUM_MIN = - (2 ^ 61)"
  by (simp add: FIXNUM_MIN_def FIXNUM_MAX_eq)

lemma vfix_eq_arith: "vfix n = word_of_int (4 * n + 1)"
proof -
  have disj: "push_bit 2 (word_of_int n :: val) AND 1 = 0"
    by (rule bit_word_eqI) (auto simp: bit_simps)
  have "vfix n = push_bit 2 (word_of_int n) + 1"
    unfolding vfix_def VTAG_FIX_def using disj by (simp add: disjunctive_add_eq_or)
  also have "\<dots> = word_of_int (4 * n + 1)" by (simp add: push_bit_eq_mult)
  finally show ?thesis .
qed

lemma vtag_vfix [simp]: "vtag (vfix n) = VTAG_FIX"
proof -
  have "uint (vfix n) = (4 * n + 1) mod 2 ^ 64"
    unfolding vfix_eq_arith by (subst uint_word_of_int) simp
  then have "uint (vfix n) mod 4 = (4 * n + 1) mod 4" by (simp add: mod_mod_cancel)
  then have "uint (vfix n) mod 4 = 1" by presburger
  then show ?thesis by (simp add: word_uint_eq_iff uint_vtag VTAG_FIX_def)
qed

lemma sint_vfix: "in_fixnum_range n \<Longrightarrow> sint (vfix n) = 4 * n + 1"
  unfolding in_fixnum_range_def FIXNUM_MAX_eq FIXNUM_MIN_eq vfix_eq_arith
  by (subst signed_of_int) (simp add: signed_take_bit_int_eq_self)

lemma vunfix_vfix: "in_fixnum_range n \<Longrightarrow> vunfix (vfix n) = n"
  by (simp add: vunfix_def sint_vfix drop_bit_eq_div)

lemma vunfix_in_range: "in_fixnum_range (vunfix v)"
proof -
  have "- (2 ^ 63) \<le> sint v" "sint v < 2 ^ 63"
    using sint_greater_eq [of v] sint_less [of v] by simp_all
  then have "- (2 ^ 61) \<le> sint v div 4 \<and> sint v div 4 \<le> 2 ^ 61 - 1"
    using zdiv_mono1 [of "- (2 ^ 63)" "sint v" 4] zdiv_mono1 [of "sint v" "2 ^ 63 - 1" 4] by simp
  then show ?thesis
    by (simp add: in_fixnum_range_def FIXNUM_MAX_eq FIXNUM_MIN_eq vunfix_def drop_bit_eq_div)
qed


lemma vchr_parts: "take_bit 2 (vchr c) = VTAG_CHR" "drop_bit 8 (vchr c) = ucast c"
proof -
  show "take_bit 2 (vchr c) = VTAG_CHR"
    by (rule bit_word_eqI) (auto simp: vchr_def VTAG_CHR_def bit_simps less_Suc_eq numeral_2_eq_2)
  show "drop_bit 8 (vchr c) = (ucast c :: val)"
  proof -
    have "drop_bit 8 (VTAG_CHR) = 0" by (simp add: VTAG_CHR_def)
    moreover have "drop_bit 8 (push_bit 8 (ucast c :: val)) = ucast c"
      by (rule bit_word_eqI) (auto simp: bit_simps dest: bit_imp_le_length)
    ultimately show ?thesis by (simp add: vchr_def drop_bit_or)
  qed
qed

section \<open>Properties\<close>

text \<open>
  C22: Exactly the integers of the fixnum range survive \<open>vfix\<close> and \<open>vunfix\<close>, the result is tagged as a
  fixnum, and a fixnum always decodes into the range, which is the full signed 62-bit range
  \<open>FIXNUM_MIN\<close> to \<open>FIXNUM_MAX\<close> the comment in the header documents.
\<close>

theorem fixnum_roundtrip:
  "(vunfix (vfix n) = n \<longleftrightarrow> in_fixnum_range n) \<and> vis_fixnum (vfix n) \<and> in_fixnum_range (vunfix v) \<and>
    FIXNUM_MAX = 2 ^ 61 - 1 \<and> FIXNUM_MIN = - (2 ^ 61)"
proof -
  have "vunfix (vfix n) = n \<Longrightarrow> in_fixnum_range n" using vunfix_in_range [of "vfix n"] by simp
  then show ?thesis
    using vunfix_vfix vunfix_in_range FIXNUM_MAX_eq FIXNUM_MIN_eq by (auto simp: vis_fixnum_def)
qed

text \<open>
  Every word but the null pointer is exactly one of pointer, fixnum, character and immediate, and a
  character code survives \<open>vchr\<close> and \<open>vunchr\<close> in a word tagged as a character.
\<close>

theorem value_classes:
  "length (filter (\<lambda>p. p v) [vis_ptr, vis_fixnum, vis_char, vis_imm]) = (if v = 0 then 0 else 1) \<and>
    vunchr (vchr c) = c \<and> vis_char (vchr c)"
proof -
  have "vunchr (vchr c) = c"
    by (rule bit_word_eqI) (simp add: vunchr_def vchr_parts(2) bit_simps)
  moreover have "vis_char (vchr c)" by (simp add: vis_char_def vtag_eq_take_bit vchr_parts(1))
  moreover have "length (filter (\<lambda>p. p v) [vis_ptr, vis_fixnum, vis_char, vis_imm]) = (if v = 0 then 0 else 1)"
    using vtag_cases [of v]
    by (auto simp: vis_ptr_def vis_fixnum_def vis_char_def vis_imm_def tag_defs vtag_def)
  ultimately show ?thesis by blast
qed

end
