(* ===== verification/Heap.thy ===== *)
theory Heap
  imports Curry_Value
begin

text \<open>
  Heap objects of \<open>src/src/object.h\<close> and the runtime state the equality and hashing code of
  \<open>src/src/set.c\<close> reads. A heap maps the address of a live object to its contents; the collector
  never moves an object, so the address is the object's identity (\<open>eq?\<close>). Objects whose contents
  no modelled operation reads are \<open>OOther\<close> with their type tag. \<open>OBcClosure\<close> is a compiled closure: its
  chunk and its upvalues, named by their index in the store of upvalues of the virtual machine.
\<close>

section \<open>Objects\<close>

datatype obj =
    OPair val val
  | OVector "val list"
  | OString "u8 list"
  | OSymbol "u8 list" u32
  | OFlonum u64
  | OBignum int
  | ORational int int
  | OComplex val val
  | OQuaternion u64 u64 u64 u64
  | OBytevector "u8 list"
  | OTuple bool "val list"
  | OF64Vec "u64 list"
  | OSynObj val val
  | OSymbolic u32
  | OValues "val list"
  | OBcClosure val "nat list"
  | OOther u32

text \<open>
  \<open>stack_left\<close> counts the C frames that \<open>check_c_stack_depth\<close> still lets the current thread push
  before it raises. \<open>sx_equal\<close> is the comparison of symbolic expressions (\<open>symbolic.c\<close>) and
  \<open>mpz_hex\<close> is GMP's \<open>mpz_get_str(NULL, 16, z)\<close>; both are arguments of the model.
\<close>

record rt =
  heap :: "val \<Rightarrow> obj option"
  stack_left :: nat
  sx_equal :: "val \<Rightarrow> val \<Rightarrow> bool"
  mpz_hex :: "int \<Rightarrow> u8 list"

text \<open>\<open>vis_type\<close> reads an object only through a heap pointer.\<close>

definition obj_at :: "rt \<Rightarrow> val \<Rightarrow> obj option" where
  "obj_at r v = (if vis_ptr v then heap r v else None)"

fun obj_type :: "obj \<Rightarrow> u32" where
  "obj_type (OPair _ _) = 1"
| "obj_type (OVector _) = 2"
| "obj_type (OString _) = 3"
| "obj_type (OSymbol _ _) = 4"
| "obj_type (OFlonum _) = 5"
| "obj_type (OBignum _) = 6"
| "obj_type (ORational _ _) = 7"
| "obj_type (OComplex _ _) = 8"
| "obj_type (OQuaternion _ _ _ _) = 9"
| "obj_type (OBytevector _) = 11"
| "obj_type (OTuple up _) = (if up then 39 else 40)"
| "obj_type (OF64Vec _) = 37"
| "obj_type (OSynObj _ _) = 58"
| "obj_type (OSymbolic t) = t"
| "obj_type (OValues _) = 24"
| "obj_type (OBcClosure _ _) = 41"
| "obj_type (OOther t) = t"

definition check_c_stack_depth :: "nat \<Rightarrow> string \<Rightarrow> unit res" where
  "check_c_stack_depth n ctx =
     (if n = 0 then Inl (Raise_Code ''stack-overflow'' (ctx @ '': call stack overflow'')) else Inr ())"

lemma obj_at_not_ptr [simp]:
  "vis_fixnum v \<Longrightarrow> obj_at r v = None" "vis_char v \<Longrightarrow> obj_at r v = None" "vis_imm v \<Longrightarrow> obj_at r v = None"
  using vis_defs_disjoint by (auto simp: obj_at_def)

end
