(* ===== verification/Open_Addressing.thy ===== *)
theory Open_Addressing
  imports Curry_Prelude
begin

text \<open>
  Linear probing over a power-of-two array of slots, as the symbol table (\<open>src/src/symbol.c\<close>), the
  hash sets and the hash tables (\<open>src/src/set.c\<close>) do it. \<open>probe\<close> is their common loop
  \<open>while (...) idx = (idx + 1) & mask\<close>; the lemmas say what it finds, and which invariant on the
  array (\<open>chained\<close>: no empty slot between an entry's home slot and the slot it is in) makes a search
  that stops at the first empty slot complete. The locale \<open>key_hashing\<close> is the contract the tables
  need of a hash function and a comparison.
\<close>

section \<open>The probe loop\<close>

text \<open>
  \<open>f i\<close> is the body of the loop at slot \<open>i\<close>: leave with a result, raise, or go on. \<open>n\<close> bounds the
  slots visited; the tables use \<open>n\<close> = capacity, and a loop that has visited every slot without
  leaving has come back to its first state, so it never leaves.
\<close>

fun probe :: "nat \<Rightarrow> (nat \<Rightarrow> 'r option res) \<Rightarrow> nat \<Rightarrow> nat \<Rightarrow> 'r res" where
  "probe msk f 0 i = Inl Diverges"
| "probe msk f (Suc n) i =
     rbind (f i) (\<lambda>r. case r of Some x \<Rightarrow> Inr x | None \<Rightarrow> probe msk f n ((i + 1) AND msk))"

lemma probe_finds:
  assumes "i < 2 ^ k" and "p < n"
    and "\<And>q. q < p \<Longrightarrow> f ((i + q) mod 2 ^ k) = Inr None" and "f ((i + p) mod 2 ^ k) = Inr (Some r)"
  shows "probe (2 ^ k - 1) f n i = Inr r"
  using assms
proof (induction p arbitrary: i n)
  case 0
  then show ?case by (cases n) auto
next
  case (Suc p)
  from Suc.prems(2) obtain m where n: "n = Suc m" "p < m" by (cases n) auto
  let ?i = "(i + 1) mod 2 ^ k"
  have shift: "(?i + q) mod 2 ^ k = (i + Suc q) mod 2 ^ k" for q
    by (simp add: mod_add_left_eq)
  have "probe (2 ^ k - 1) f m ?i = Inr r"
    by (rule Suc.IH) (use Suc.prems n in \<open>simp_all only: shift Suc_less_eq, simp_all\<close>)
  moreover have "f i = Inr None" using Suc.prems(1) Suc.prems(3) [of 0] by simp
  ultimately show ?case by (simp add: n and_mask_nat [simplified])
qed


lemma probe_first:
  assumes "i < 2 ^ k" and "p < n" and "f ((i + p) mod 2 ^ k) \<noteq> Inr None"
    and "\<And>q e. q < n \<Longrightarrow> f ((i + q) mod 2 ^ k) \<noteq> Inl e"
  obtains m r where "m \<le> p" "\<And>q. q < m \<Longrightarrow> f ((i + q) mod 2 ^ k) = Inr None"
    "f ((i + m) mod 2 ^ k) = Inr (Some r)" "probe (2 ^ k - 1) f n i = Inr r"
proof -
  obtain m where m: "m \<le> p" "f ((i + m) mod 2 ^ k) \<noteq> Inr None"
    "\<And>q. q < m \<Longrightarrow> f ((i + q) mod 2 ^ k) = Inr None"
    using ex_least_below [of "\<lambda>q. f ((i + q) mod 2 ^ k) \<noteq> Inr None" p] assms(3) by metis
  with assms(2) assms(4) [of m] obtain r where r: "f ((i + m) mod 2 ^ k) = Inr (Some r)"
    by (cases "f ((i + m) mod 2 ^ k)") auto
  with m assms(1,2) have "probe (2 ^ k - 1) f n i = Inr r" by (intro probe_finds [of i k m]) auto
  with m(1,3) r show thesis by (intro that)
qed

lemma probe_diverges:
  "i < 2 ^ k \<Longrightarrow> (\<And>q. q < n \<Longrightarrow> f ((i + q) mod 2 ^ k) = Inr None) \<Longrightarrow>
    probe (2 ^ k - 1) f n i = Inl Diverges"
proof (induction n arbitrary: i)
  case (Suc n)
  let ?i = "(i + 1) mod 2 ^ k"
  have shift: "(?i + q) mod 2 ^ k = (i + Suc q) mod 2 ^ k" for q
    by (simp add: mod_add_left_eq)
  have "probe (2 ^ k - 1) f n ?i = Inl Diverges"
    by (rule Suc.IH) (use Suc.prems in \<open>simp_all only: shift Suc_less_eq, simp_all\<close>)
  moreover have "f i = Inr None" using Suc.prems(1) Suc.prems(2) [of 0] by simp
  ultimately show ?case by (simp add: and_mask_nat [simplified])
qed simp

section \<open>Slots of a probe sequence\<close>

lemma slot_inj:
  assumes "p < 2 ^ k" "q < 2 ^ k" "(a + p) mod 2 ^ k = (a + q) mod (2 ^ k :: nat)"
  shows "p = q"
proof -
  have le: "x = y" if "x \<le> y" "y < 2 ^ k" "(a + x) mod 2 ^ k = (a + y) mod 2 ^ k" for x y :: nat
  proof -
    have "2 ^ k dvd (a + y) - (a + x)" using that by (metis add_le_cancel_left mod_eq_dvd_iff_nat)
    then have "2 ^ k dvd y - x" by simp
    moreover have "y - x < 2 ^ k" using that by simp
    ultimately have "y - x = 0" by (metis dvd_imp_le not_less zero_less_iff_neq_zero)
    with that show ?thesis by simp
  qed
  from assms le [of p q] le [of q p] show ?thesis by (cases "p \<le> q") auto
qed

lemma slot_reach:
  assumes "i < (2 ^ k :: nat)" obtains p where "p < 2 ^ k" "(a + p) mod 2 ^ k = i"
proof
  let ?p = "(i + (2 ^ k - a mod 2 ^ k)) mod 2 ^ k"
  have le: "a mod 2 ^ k \<le> 2 ^ k" by (simp add: less_imp_le)
  have "(a + ?p) mod 2 ^ k = (a mod 2 ^ k + (i + (2 ^ k - a mod 2 ^ k))) mod 2 ^ k"
    by (simp add: mod_add_right_eq mod_add_left_eq)
  also have "a mod 2 ^ k + (i + (2 ^ k - a mod 2 ^ k)) = i + 2 ^ k" using le by linarith
  finally show "(a + ?p) mod 2 ^ k = i" using assms by simp
  show "?p < 2 ^ k" by simp
qed

section \<open>Reachability of entries\<close>

text \<open>Every entry is reached from its home slot before an empty slot.\<close>

definition chained :: "'a \<Rightarrow> ('a \<Rightarrow> bool) \<Rightarrow> ('a \<Rightarrow> nat) \<Rightarrow> nat \<Rightarrow> 'a list \<Rightarrow> bool" where
  "chained E live h k b \<longleftrightarrow>
     (\<forall>x p q. live x \<longrightarrow> p < 2 ^ k \<longrightarrow> b ! ((h x + p) mod 2 ^ k) = x \<longrightarrow> q < p \<longrightarrow>
        b ! ((h x + q) mod 2 ^ k) \<noteq> E)"

lemma chainedD:
  "chained E live h k b \<Longrightarrow> live x \<Longrightarrow> p < 2 ^ k \<Longrightarrow> b ! ((h x + p) mod 2 ^ k) = x \<Longrightarrow> q < p \<Longrightarrow>
    b ! ((h x + q) mod 2 ^ k) \<noteq> E"
  by (auto simp: chained_def)

lemma chained_empty: "\<not> live E \<Longrightarrow> chained E live h k (replicate (2 ^ k) E)"
  by (auto simp: chained_def)

lemma chained_place:
  assumes ch: "chained E live h k b" and len: "length b = 2 ^ k" and p: "p < 2 ^ k"
    and free: "\<And>q. q < p \<Longrightarrow> b ! ((h x + q) mod 2 ^ k) \<noteq> E" and x: "x \<noteq> E" "x \<notin> set b"
  shows "chained E live h k (b[(h x + p) mod 2 ^ k := x])"
  unfolding chained_def
proof (intro allI impI)
  fix y p' q
  let ?i = "(h x + p) mod 2 ^ k" and ?j = "(h y + p') mod 2 ^ k" and ?s = "(h y + q) mod 2 ^ k"
  assume y: "live y" "p' < 2 ^ k" "b[?i := x] ! ?j = y" "q < p'"
  have in_range: "?i < length b" "?j < length b" "?s < length b" by (simp_all add: len)
  show "b[?i := x] ! ?s \<noteq> E"
  proof (cases "y = x")
    case True
    then have "?j = ?i" using y(3) x(2) in_range by (metis nth_list_update_neq nth_mem)
    with True p y(2) have "p' = p" by (intro slot_inj [of p' k p "h x"]) auto
    with True y(4) free show ?thesis using in_range x(1) by (auto simp: nth_list_update)
  next
    case False
    then have "b ! ?j = y" using y(3) in_range by (metis nth_list_update)
    with ch y have "b ! ?s \<noteq> E" by (intro chainedD [of E live h k b y p' q])
    with x(1) in_range show ?thesis by (auto simp: nth_list_update)
  qed
qed

lemma chained_kill:
  assumes ch: "chained E live h k b" and "length b = 2 ^ k" "i < 2 ^ k" and D: "D \<noteq> E" "\<not> live D"
  shows "chained E live h k (b[i := D])"
  unfolding chained_def
proof (intro allI impI)
  fix y p q
  let ?j = "(h y + p) mod 2 ^ k" and ?s = "(h y + q) mod 2 ^ k"
  assume y: "live y" "p < 2 ^ k" "b[i := D] ! ?j = y" "q < p"
  have in_range: "i < length b" "?j < length b" "?s < length b" by (simp_all add: assms(2,3))
  have "b ! ?j = y" using y(1,3) D(2) in_range by (metis nth_list_update)
  with ch y have "b ! ?s \<noteq> E" by (intro chainedD [of E live h k b y p q])
  with D(1) in_range show "b[i := D] ! ?s \<noteq> E" by (auto simp: nth_list_update)
qed


section \<open>What a table needs of its hash function and comparison\<close>

text \<open>
  \<open>hash\<close> and \<open>matches\<close> are the operations the table calls; on the values of \<open>carrier\<close> both return,
  \<open>matches\<close> decides equality of the values' \<open>key\<close>s and values with equal keys have equal hashes.
\<close>

locale key_hashing =
  fixes hash :: "'v \<Rightarrow> u32 res"
    and matches :: "'v \<Rightarrow> 'v \<Rightarrow> bool res"
    and carrier :: "'v \<Rightarrow> bool"
    and key :: "'v \<Rightarrow> 'k"
  assumes hash_ret: "carrier v \<Longrightarrow> \<exists>h. hash v = Inr h"
    and hash_key: "carrier v \<Longrightarrow> carrier w \<Longrightarrow> key v = key w \<Longrightarrow> hash v = hash w"
    and matches_key: "carrier v \<Longrightarrow> carrier w \<Longrightarrow> matches v w = Inr (key v = key w)"

text \<open>The home slot, as a number before masking.\<close>

definition home :: "('v \<Rightarrow> u32 res) \<Rightarrow> 'v \<Rightarrow> nat" where
  "home hash v = (case hash v of Inr h \<Rightarrow> unat h | Inl _ \<Rightarrow> 0)"

text \<open>
  A slot array without its counters: a power-of-two capacity, every entry (a slot that is neither
  empty \<open>E\<close> nor a tombstone \<open>D\<close>) in the carrier and reachable, no two entries with the same key.
\<close>

definition entry :: "'v \<Rightarrow> 'v \<Rightarrow> 'v \<Rightarrow> bool" where
  "entry E D x \<longleftrightarrow> x \<noteq> E \<and> x \<noteq> D"

definition slots_ok ::
  "'v \<Rightarrow> 'v \<Rightarrow> ('v \<Rightarrow> u32 res) \<Rightarrow> ('v \<Rightarrow> bool) \<Rightarrow> ('v \<Rightarrow> 'k) \<Rightarrow> nat \<Rightarrow> 'v list \<Rightarrow> bool" where
  "slots_ok E D hash carrier key k b \<longleftrightarrow>
     length b = 2 ^ k \<and> chained E (entry E D) (home hash) k b \<and>
     (\<forall>x \<in> set b. entry E D x \<longrightarrow> carrier x) \<and>
     (\<forall>i j. i < 2 ^ k \<longrightarrow> j < 2 ^ k \<longrightarrow> entry E D (b ! i) \<longrightarrow> entry E D (b ! j) \<longrightarrow>
        key (b ! i) = key (b ! j) \<longrightarrow> i = j)"

definition slot_keys :: "'v \<Rightarrow> 'v \<Rightarrow> ('v \<Rightarrow> 'k) \<Rightarrow> 'v list \<Rightarrow> 'k set" where
  "slot_keys E D key b = key ` {x \<in> set b. entry E D x}"

text \<open>The body of a search loop: stop at an empty slot, skip tombstones, stop at a match.\<close>

definition find_step :: "'v \<Rightarrow> 'v \<Rightarrow> ('v \<Rightarrow> bool res) \<Rightarrow> 'v list \<Rightarrow> nat \<Rightarrow> nat option option res" where
  "find_step E D m b i =
     (if b ! i = E then Inr (Some None)
      else if b ! i \<noteq> D then rbind (m (b ! i)) (\<lambda>e. Inr (if e then Some (Some i) else None))
      else Inr None)"

text \<open>The bodies of the insertion loops: the first slot that is empty, or empty or a tombstone.\<close>

definition free_step :: "('v \<Rightarrow> bool) \<Rightarrow> 'v list \<Rightarrow> nat \<Rightarrow> nat option res" where
  "free_step stop b i = Inr (if stop (b ! i) then Some i else None)"

lemma slot_keys_nth:
  "slot_keys E D key b = {key (b ! i) | i. i < length b \<and> entry E D (b ! i)}"
  by (auto simp: slot_keys_def in_set_conv_nth)

context key_hashing
begin

lemma home_cong: "carrier v \<Longrightarrow> carrier w \<Longrightarrow> key v = key w \<Longrightarrow> home hash v = home hash w"
  by (simp add: home_def hash_key [of v w])

lemma find_absent:
  assumes ok: "slots_ok E D hash carrier key k b" and c: "carrier x" and e: "E \<in> set b"
    and absent: "key x \<notin> slot_keys E D key b" and i: "i < 2 ^ k"
  shows "probe (2 ^ k - 1) (find_step E D (\<lambda>y. matches y x) b) (2 ^ k) i = Inr None"
proof -
  let ?f = "find_step E D (\<lambda>y. matches y x) b"
  have len: "length b = 2 ^ k" and car: "\<And>y. y \<in> set b \<Longrightarrow> entry E D y \<Longrightarrow> carrier y"
    using ok by (auto simp: slots_ok_def)
  have step: "?f j = (if b ! j = E then Inr (Some None) else Inr None)" if "j < 2 ^ k" for j
    using that len car [of "b ! j"] c absent
    by (auto simp: find_step_def matches_key entry_def slot_keys_nth)
  obtain j where j: "j < 2 ^ k" "b ! j = E" using e len by (auto simp: in_set_conv_nth)
  obtain p where p: "p < 2 ^ k" "(i + p) mod 2 ^ k = j" using j(1) by (rule slot_reach)
  obtain m r where "?f ((i + m) mod 2 ^ k) = Inr (Some r)" "probe (2 ^ k - 1) ?f (2 ^ k) i = Inr r"
    by (rule probe_first [of i k p "2 ^ k" ?f]) (use p j i in \<open>auto simp: step\<close>)
  then show ?thesis by (auto simp: step split: if_splits)
qed

text \<open>The way from the home slot of a key to the entry that holds it.\<close>

lemma chain_present:
  assumes ok: "slots_ok E D hash carrier key k b" and c: "carrier x"
    and i: "i < 2 ^ k" "entry E D (b ! i)" "key (b ! i) = key x"
  obtains p where "p < 2 ^ k" "(home hash x + p) mod 2 ^ k = i"
    "\<And>q. q < p \<Longrightarrow> b ! ((home hash x + q) mod 2 ^ k) \<noteq> E"
    "\<And>q. q < p \<Longrightarrow> entry E D (b ! ((home hash x + q) mod 2 ^ k)) \<Longrightarrow>
       matches (b ! ((home hash x + q) mod 2 ^ k)) x = Inr False"
proof -
  let ?s = "\<lambda>q. (home hash x + q) mod 2 ^ k"
  have len: "length b = 2 ^ k" and car: "\<And>y. y \<in> set b \<Longrightarrow> entry E D y \<Longrightarrow> carrier y"
    and ch: "chained E (entry E D) (home hash) k b"
    and uniq: "\<And>j. j < 2 ^ k \<Longrightarrow> entry E D (b ! j) \<Longrightarrow> key (b ! j) = key x \<Longrightarrow> j = i"
    using ok i by (auto simp: slots_ok_def)
  have h: "home hash (b ! i) = home hash x" using car c i len by (intro home_cong) auto
  obtain p where p: "p < 2 ^ k" "?s p = i" using i(1) by (rule slot_reach)
  show thesis
  proof (rule that [OF p])
    show "b ! ?s q \<noteq> E" if "q < p" for q using chainedD [OF ch i(2), of p q] p that h by simp
    show "matches (b ! ?s q) x = Inr False" if q: "q < p" "entry E D (b ! ?s q)" for q
    proof -
      have "?s q \<noteq> i" using q p slot_inj [of q k p "home hash x"] by auto
      then have "key (b ! ?s q) \<noteq> key x" using uniq [of "?s q"] q(2) by auto
      then show ?thesis using matches_key [OF car c, of "b ! ?s q"] q(2) len by simp
    qed
  qed
qed

lemma entry_matches:
  assumes "slots_ok E D hash carrier key k b" "carrier x" "i < 2 ^ k" "entry E D (b ! i)"
  shows "matches (b ! i) x = Inr (key (b ! i) = key x)"
  using assms by (intro matches_key) (auto simp: slots_ok_def)

lemma find_present:
  assumes ok: "slots_ok E D hash carrier key k b" and c: "carrier x"
    and i: "i < 2 ^ k" "entry E D (b ! i)" "key (b ! i) = key x"
  shows "probe (2 ^ k - 1) (find_step E D (\<lambda>y. matches y x) b) (2 ^ k) (home hash x mod 2 ^ k) = Inr (Some i)"
proof -
  obtain p where p: "p < 2 ^ k" "(home hash x + p) mod 2 ^ k = i"
    "\<And>q. q < p \<Longrightarrow> b ! ((home hash x + q) mod 2 ^ k) \<noteq> E"
    "\<And>q. q < p \<Longrightarrow> entry E D (b ! ((home hash x + q) mod 2 ^ k)) \<Longrightarrow>
       matches (b ! ((home hash x + q) mod 2 ^ k)) x = Inr False"
    using chain_present [OF assms] by blast
  have slot: "(home hash x mod 2 ^ k + q) mod 2 ^ k = (home hash x + q) mod 2 ^ k" for q
    by (simp add: mod_add_left_eq)
  show ?thesis
    by (rule probe_finds [of _ k p])
       (use p i entry_matches [OF ok c i(1,2)] in \<open>auto simp: slot find_step_def entry_def\<close>)
qed

end

lemma slots_ok_empty: "slots_ok E D hash carrier key k (replicate (2 ^ k) E)"
  by (auto simp: slots_ok_def entry_def intro: chained_empty)

text \<open>Only the entries of the array matter to its invariant.\<close>

lemma slots_ok_cong:
  assumes ok: "slots_ok E D hash carrier key k b"
    and same: "\<And>x. x \<in> set b \<Longrightarrow> entry E D x \<Longrightarrow> hash' x = hash x \<and> key' x = key x \<and> carrier' x"
  shows "slots_ok E D hash' carrier' key' k b"
proof -
  have len: "length b = 2 ^ k" using ok by (simp add: slots_ok_def)
  have home: "home hash' x = home hash x" if "x \<in> set b" "entry E D x" for x
    using same [OF that] by (simp add: home_def)
  have "chained E (entry E D) (home hash') k b"
    unfolding chained_def
  proof (intro allI impI)
    fix x p q
    assume x: "entry E D x" "p < 2 ^ k" "b ! ((home hash' x + p) mod 2 ^ k) = x" "q < p"
    have "x \<in> set b" using x(3) len nth_mem [of "(home hash' x + p) mod 2 ^ k" b] by simp
    then have h: "home hash' x = home hash x" using x(1) by (rule home)
    show "b ! ((home hash' x + q) mod 2 ^ k) \<noteq> E"
      using ok x unfolding h slots_ok_def chained_def by blast
  qed
  moreover have "\<forall>x \<in> set b. entry E D x \<longrightarrow> carrier' x" using same by blast
  moreover have "i = j" if "i < 2 ^ k" "j < 2 ^ k" "entry E D (b ! i)" "entry E D (b ! j)" "key' (b ! i) = key' (b ! j)" for i j
  proof -
    have "key (b ! i) = key (b ! j)" using same [of "b ! i"] same [of "b ! j"] that len by simp
    then show ?thesis using ok that unfolding slots_ok_def by blast
  qed
  ultimately show ?thesis using len unfolding slots_ok_def by blast
qed

lemma slots_ok_kill:
  assumes "slots_ok E D hash carrier key k b" "i < 2 ^ k" "D \<noteq> E"
  shows "slots_ok E D hash carrier key k (b[i := D])"
proof -
  have "chained E (entry E D) (home hash) k (b[i := D])"
    using assms by (intro chained_kill) (auto simp: slots_ok_def entry_def)
  moreover have "b[i := D] ! j = b ! j \<or> \<not> entry E D (b[i := D] ! j)" for j
    by (cases "i = j"; cases "j < length b") (auto simp: entry_def list_update_beyond)
  ultimately show ?thesis
    using assms set_update_subset_insert [of b i D]
    unfolding slots_ok_def by (auto simp: entry_def) metis+
qed

lemma slots_ok_place:
  assumes ok: "slots_ok E D hash carrier key k b" and x: "entry E D x" "carrier x"
    and new: "key x \<notin> slot_keys E D key b" and p: "p < 2 ^ k"
    and free: "\<And>q. q < p \<Longrightarrow> b ! ((home hash x + q) mod 2 ^ k) \<noteq> E"
  shows "slots_ok E D hash carrier key k (b[(home hash x + p) mod 2 ^ k := x])"
proof -
  let ?i = "(home hash x + p) mod 2 ^ k"
  have len: "length b = 2 ^ k" and i: "?i < length b" using ok by (auto simp: slots_ok_def)
  have "x \<notin> set b" using new x by (auto simp: slot_keys_def)
  then have "chained E (entry E D) (home hash) k (b[?i := x])"
    using ok x free p by (intro chained_place) (auto simp: slots_ok_def entry_def)
  moreover have fresh: "key (b ! j) \<noteq> key x" if "j < 2 ^ k" "entry E D (b ! j)" for j
    using new that len by (auto simp: slot_keys_nth)
  moreover have uniq: "\<And>j j'. j < 2 ^ k \<Longrightarrow> j' < 2 ^ k \<Longrightarrow> entry E D (b ! j) \<Longrightarrow> entry E D (b ! j') \<Longrightarrow>
      key (b ! j) = key (b ! j') \<Longrightarrow> j = j'"
    using ok by (auto simp: slots_ok_def)
  have "\<forall>j j'. j < 2 ^ k \<longrightarrow> j' < 2 ^ k \<longrightarrow> entry E D (b[?i := x] ! j) \<longrightarrow> entry E D (b[?i := x] ! j') \<longrightarrow>
      key (b[?i := x] ! j) = key (b[?i := x] ! j') \<longrightarrow> j = j'"
  proof (intro allI impI)
    fix j j'
    assume j: "j < 2 ^ k" "j' < 2 ^ k" "entry E D (b[?i := x] ! j)" "entry E D (b[?i := x] ! j')"
      "key (b[?i := x] ! j) = key (b[?i := x] ! j')"
    have upd: "b[?i := x] ! l = (if l = ?i then x else b ! l)" if "l < 2 ^ k" for l
      using that i len by (auto simp: nth_list_update)
    show "j = j'"
    proof (cases "j = ?i \<or> j' = ?i")
      case True
      with j(3-5) fresh [OF j(1)] fresh [OF j(2)] show ?thesis
        unfolding upd [OF j(1)] upd [OF j(2)] by (auto split: if_splits)
    next
      case False
      with j(3-5) uniq [OF j(1,2)] show ?thesis unfolding upd [OF j(1)] upd [OF j(2)] by simp
    qed
  qed
  moreover have "\<forall>y \<in> set (b[?i := x]). entry E D y \<longrightarrow> carrier y"
    using ok x set_update_subset_insert [of b ?i x] by (auto simp: slots_ok_def)
  ultimately show ?thesis using len by (simp only: slots_ok_def length_list_update simp_thms)
qed

lemma slot_keys_place:
  assumes "i < length b" "entry E D x" "\<not> entry E D (b ! i)"
  shows "slot_keys E D key (b[i := x]) = insert (key x) (slot_keys E D key b)"
  using assms by (auto simp: slot_keys_nth nth_list_update)

lemma slot_keys_kill:
  assumes "slots_ok E D hash carrier key k b" "i < 2 ^ k" "entry E D (b ! i)"
  shows "slot_keys E D key (b[i := D]) = slot_keys E D key b - {key (b ! i)}"
  using assms unfolding slots_ok_def
  by (auto simp: slot_keys_nth nth_list_update entry_def)


lemma entries_distinct:
  assumes "\<And>i j. i < length b \<Longrightarrow> j < length b \<Longrightarrow> P (b ! i) \<Longrightarrow> P (b ! j) \<Longrightarrow> key (b ! i) = key (b ! j) \<Longrightarrow> i = j"
  shows "distinct (map key (filter P b))"
  using assms
proof (induction b)
  case (Cons a b)
  have "distinct (map key (filter P b))"
    by (rule Cons.IH) (use Cons.prems [of "Suc _" "Suc _"] in auto)
  moreover have "key a \<noteq> key y" if "P a" "y \<in> set b" "P y" for y
  proof -
    from that(2) obtain j where "j < length b" "b ! j = y" by (auto simp: in_set_conv_nth)
    then show ?thesis using Cons.prems [of 0 "Suc j"] that by auto
  qed
  ultimately show ?case by auto
qed simp

lemma slots_ok_distinct:
  "slots_ok E D hash carrier key k b \<Longrightarrow> distinct (map key (filter (entry E D) b))"
  by (rule entries_distinct) (auto simp: slots_ok_def)

lemma card_slot_keys:
  assumes "slots_ok E D hash carrier key k b"
  shows "card (slot_keys E D key b) = length (filter (entry E D) b)"
proof -
  have "slot_keys E D key b = set (map key (filter (entry E D) b))" by (auto simp: slot_keys_def)
  then show ?thesis using slots_ok_distinct [OF assms] by (simp only: distinct_card length_map)
qed

text \<open>The first empty slot of a probe sequence.\<close>

lemma chain_stop:
  assumes "length b = 2 ^ k" "y \<in> set b" "stop y"
  obtains p where "p < 2 ^ k" "\<And>q. q < p \<Longrightarrow> \<not> stop (b ! ((i + q) mod 2 ^ k))"
    "stop (b ! ((i + p) mod 2 ^ k))"
proof -
  obtain j where j: "j < 2 ^ k" "b ! j = y" using assms by (auto simp: in_set_conv_nth)
  obtain p where p: "p < 2 ^ k" "(i + p) mod 2 ^ k = j" using j(1) by (rule slot_reach)
  then obtain m where "m \<le> p" "stop (b ! ((i + m) mod 2 ^ k))" "\<And>q. q < m \<Longrightarrow> \<not> stop (b ! ((i + q) mod 2 ^ k))"
    using ex_least_below [of "\<lambda>q. stop (b ! ((i + q) mod 2 ^ k))" p] j assms(3) by metis
  with p(1) show thesis by (intro that [of m]) auto
qed

lemma free_probe:
  assumes "length b = 2 ^ k" "y \<in> set b" "stop y"
  obtains p where "p < 2 ^ k" "\<And>q. q < p \<Longrightarrow> \<not> stop (b ! ((i + q) mod 2 ^ k))"
    "stop (b ! ((i + p) mod 2 ^ k))"
    "probe (2 ^ k - 1) (free_step stop b) (2 ^ k) (i mod 2 ^ k) = Inr ((i + p) mod 2 ^ k)"
proof -
  obtain p where p: "p < 2 ^ k" "\<And>q. q < p \<Longrightarrow> \<not> stop (b ! ((i + q) mod 2 ^ k))" "stop (b ! ((i + p) mod 2 ^ k))"
    using chain_stop [where i = i and stop = stop, OF assms] by blast
  have slot: "(i mod 2 ^ k + q) mod 2 ^ k = (i + q) mod 2 ^ k" for q by (simp add: mod_add_left_eq)
  have "probe (2 ^ k - 1) (free_step stop b) (2 ^ k) (i mod 2 ^ k) = Inr ((i + p) mod 2 ^ k)"
    by (rule probe_finds [of _ k p]) (use p in \<open>auto simp: free_step_def slot\<close>)
  with p show thesis by (intro that [of p])
qed

end
