(* ===== verification/Equality.thy ===== *)
theory Equality
  imports Heap Open_Addressing
begin

text \<open>
  The equality predicates and the hash function of \<open>src/src/set.c\<close>: \<open>eq?\<close>, \<open>eqv?\<close>, \<open>equal?\<close> and
  \<open>val_hash\<close>, with the C-stack check that makes the two recursive ones raise instead of
  overflowing. The abstract contents of a value (\<open>vkey\<close>) specify what each predicate compares:
  two values are equal exactly when their contents are, so the predicates are equivalence
  relations, and values with equal contents have equal hashes.
\<close>

section \<open>Comparators\<close>

datatype set_cmp = SET_CMP_EQ | SET_CMP_EQV | SET_CMP_EQUAL

definition scm_eq :: "val \<Rightarrow> val \<Rightarrow> bool" where
  "scm_eq a b \<longleftrightarrow> a = b"

text \<open>\<open>memcmp\<close> of two doubles compares their bits; a flonum is kept as its bits.\<close>

definition same_double :: "u64 \<Rightarrow> u64 \<Rightarrow> bool" where
  "same_double x y \<longleftrightarrow> x = y"

text \<open>
  \<open>scm_eqv\<close> recurses into the parts of a complex number without a stack check. The first argument
  bounds the nesting; a chain of complex numbers longer than that is the unbounded recursion.
\<close>

fun scm_eqv_at :: "nat \<Rightarrow> rt \<Rightarrow> val \<Rightarrow> val \<Rightarrow> bool res" where
  "scm_eqv_at 0 r a b = Inl Diverges"
| "scm_eqv_at (Suc n) r a b =
     (if a = b then Inr True
      else if vis_fixnum a \<and> vis_fixnum b then Inr (vunfix a = vunfix b)
      else case (obj_at r a, obj_at r b) of
        (Some (OFlonum x), Some (OFlonum y)) \<Rightarrow> Inr (same_double x y)
      | (Some (OBignum x), Some (OBignum y)) \<Rightarrow> Inr (x = y)
      | (Some (ORational p q), Some (ORational p' q')) \<Rightarrow> Inr (p = p' \<and> q = q')
      | (Some (OComplex re im), Some (OComplex re' im')) \<Rightarrow>
          rbind (scm_eqv_at n r re re') (\<lambda>e. if e then scm_eqv_at n r im im' else Inr False)
      | (Some (OQuaternion w x y z), Some (OQuaternion w' x' y' z')) \<Rightarrow>
          Inr (same_double w w' \<and> same_double x x' \<and> same_double y y' \<and> same_double z z')
      | _ \<Rightarrow> Inr (vis_char a \<and> vis_char b \<and> vunchr a = vunchr b))"

text \<open>The element loop of \<open>scm_equal\<close> on vectors and tuples: it stops at the first difference.\<close>

fun all2_res :: "('a \<Rightarrow> 'a \<Rightarrow> bool res) \<Rightarrow> 'a list \<Rightarrow> 'a list \<Rightarrow> bool res" where
  "all2_res f (x # xs) (y # ys) = rbind (f x y) (\<lambda>e. if e then all2_res f xs ys else Inr False)"
| "all2_res f _ _ = Inr True"

fun scm_equal_at :: "nat \<Rightarrow> rt \<Rightarrow> val \<Rightarrow> val \<Rightarrow> bool res" where
  "scm_equal_at 0 r a b = rbind (check_c_stack_depth 0 ''equal?'') (\<lambda>_. Inr False)"
| "scm_equal_at (Suc n) r a b =
     rbind (scm_eqv_at (Suc n) r a b) (\<lambda>e.
       if e then Inr True
       else case (obj_at r a, obj_at r b) of
         (Some (OPair x y), Some (OPair x' y')) \<Rightarrow>
           rbind (scm_equal_at n r x x') (\<lambda>e. if e then scm_equal_at n r y y' else Inr False)
       | (Some (OString s), Some (OString t)) \<Rightarrow> Inr (length s = length t \<and> s = t)
       | (Some (OVector xs), Some (OVector ys)) \<Rightarrow>
           if length xs \<noteq> length ys then Inr False else all2_res (scm_equal_at n r) xs ys
       | (Some (OBytevector s), Some (OBytevector t)) \<Rightarrow> Inr (length s = length t \<and> s = t)
       | (Some (OSynObj s m), Some (OSynObj s' m')) \<Rightarrow> Inr (s = s' \<and> m = m')
       | (Some (OSymbolic _), Some (OSymbolic _)) \<Rightarrow> Inr (sx_equal r a b)
       | (Some (OTuple up xs), Some (OTuple up' ys)) \<Rightarrow>
           if up \<noteq> up' \<or> length xs \<noteq> length ys then Inr False else all2_res (scm_equal_at n r) xs ys
       | (Some (OF64Vec xs), Some (OF64Vec ys)) \<Rightarrow> Inr (length xs = length ys \<and> xs = ys)
       | _ \<Rightarrow> Inr False)"

definition scm_eqv :: "rt \<Rightarrow> val \<Rightarrow> val \<Rightarrow> bool res" where
  "scm_eqv r a b = scm_eqv_at (stack_left r) r a b"

definition scm_equal :: "rt \<Rightarrow> val \<Rightarrow> val \<Rightarrow> bool res" where
  "scm_equal r a b = scm_equal_at (stack_left r) r a b"

section \<open>Hashing\<close>

definition hash_u64 :: "u64 \<Rightarrow> u32" where
  "hash_u64 x =
     (let x1 = (x XOR drop_bit 30 x) * 0xbf58476d1ce4e5b9;
          x2 = (x1 XOR drop_bit 27 x1) * 0x94d049bb133111eb
      in ucast (x2 XOR drop_bit 31 x2))"

definition hash_combine :: "u32 \<Rightarrow> u32 \<Rightarrow> u32" where
  "hash_combine a b = hash_u64 (push_bit 32 (ucast a) OR ucast b)"

definition hash_bytes :: "u8 list \<Rightarrow> u32" where
  "hash_bytes bs = fold (\<lambda>p h. (h XOR ucast p) * 16777619) bs 2166136261"

definition hash_mpz :: "rt \<Rightarrow> int \<Rightarrow> u32" where
  "hash_mpz r z = hash_bytes (mpz_hex r z)"

text \<open>The bytes of a double as they lie in memory on the little-endian hosts the source targets.\<close>

definition u64_bytes :: "u64 \<Rightarrow> u8 list" where
  "u64_bytes x = map (\<lambda>i. ucast (drop_bit (8 * i) x)) [0..<8]"

fun hash_elems :: "('a \<Rightarrow> u32 res) \<Rightarrow> u32 \<Rightarrow> 'a list \<Rightarrow> u32 res" where
  "hash_elems f h [] = Inr h"
| "hash_elems f h (x # xs) = rbind (f x) (\<lambda>e. hash_elems f (hash_combine h e) xs)"

definition sym_hash :: "rt \<Rightarrow> val \<Rightarrow> u32" where
  "sym_hash r v = (case obj_at r v of Some (OSymbol _ h) \<Rightarrow> h | _ \<Rightarrow> 0)"

fun val_hash_at :: "nat \<Rightarrow> rt \<Rightarrow> val \<Rightarrow> set_cmp \<Rightarrow> u32 res" where
  "val_hash_at 0 r v c = rbind (check_c_stack_depth 0 ''equal?'') (\<lambda>_. Inr 0)"
| "val_hash_at (Suc n) r v c =
     (if c = SET_CMP_EQ \<or> vis_imm v \<or> vis_fixnum v \<or> vis_char v then Inr (hash_u64 v)
      else case obj_at r v of
        Some (OFlonum bits) \<Rightarrow> Inr (hash_u64 bits)
      | Some (OString s) \<Rightarrow> Inr (hash_bytes s)
      | Some (OSymbol _ h) \<Rightarrow> Inr h
      | Some (OSynObj name mk) \<Rightarrow> Inr (hash_combine (sym_hash r name) (hash_u64 mk))
      | Some (OBignum z) \<Rightarrow> Inr (hash_mpz r z)
      | Some (ORational p q) \<Rightarrow> Inr (hash_combine (hash_mpz r p) (hash_mpz r q))
      | Some (OComplex re im) \<Rightarrow>
          rbind (val_hash_at n r re c) (\<lambda>x. rbind (val_hash_at n r im c) (\<lambda>y. Inr (hash_combine x y)))
      | Some (OQuaternion w x y z) \<Rightarrow>
          Inr (fold (\<lambda>b h. hash_combine h (hash_u64 b)) [x, y, z] (hash_u64 w))
      | ob \<Rightarrow>
          if c \<noteq> SET_CMP_EQUAL then Inr (hash_u64 v)
          else case ob of
            Some (OPair x y) \<Rightarrow>
              rbind (val_hash_at n r x c) (\<lambda>h. rbind (val_hash_at n r y c) (\<lambda>k. Inr (hash_combine h k)))
          | Some (OVector xs) \<Rightarrow> hash_elems (\<lambda>x. val_hash_at n r x c) 2166136261 xs
          | Some (OBytevector s) \<Rightarrow> Inr (hash_bytes s)
          | Some (OTuple up xs) \<Rightarrow>
              hash_elems (\<lambda>x. val_hash_at n r x c) (hash_u64 (ucast (obj_type (OTuple up xs)))) xs
          | Some (OF64Vec xs) \<Rightarrow> Inr (hash_bytes (concat (map u64_bytes xs)))
          | _ \<Rightarrow> Inr (hash_u64 v))"

definition val_hash :: "rt \<Rightarrow> val \<Rightarrow> set_cmp \<Rightarrow> u32 res" where
  "val_hash r v c = val_hash_at (stack_left r) r v c"

definition slot_matches :: "rt \<Rightarrow> val \<Rightarrow> val \<Rightarrow> set_cmp \<Rightarrow> bool res" where
  "slot_matches r a b c =
     (if c = SET_CMP_EQ then Inr (scm_eq a b)
      else if c = SET_CMP_EQV then scm_eqv r a b
      else scm_equal r a b)"


section \<open>The contents an equality predicate compares\<close>

text \<open>
  \<open>vkey n r c v\<close> is what the comparator \<open>c\<close> sees of the value \<open>v\<close>: the word itself where the
  predicate compares identities, the contents where it compares contents. It is undefined on what the
  theorems below leave out: structures nested deeper than the \<open>n\<close> stack frames, characters not built
  by \<open>vchr\<close>, complex numbers whose parts are not real numbers of the exact tower or flonums, and, under
  \<open>equal?\<close>, symbolic expressions (the source's comment on \<open>val_hash\<close> names that gap).
\<close>

datatype skey =
    KWord val
  | KFlo u64
  | KBig int
  | KRat int int
  | KCpx skey skey
  | KQuat u64 u64 u64 u64
  | KPair skey skey
  | KStr "u8 list"
  | KVec "skey list"
  | KBytes "u8 list"
  | KSyn val val
  | KTup bool "skey list"
  | KF64 "u64 list"

definition real_part_ok :: "rt \<Rightarrow> val \<Rightarrow> bool" where
  "real_part_ok r v \<longleftrightarrow> vis_fixnum v \<or>
     (case obj_at r v of Some (OFlonum _) \<Rightarrow> True | Some (OBignum _) \<Rightarrow> True
      | Some (ORational _ _) \<Rightarrow> True | _ \<Rightarrow> False)"

definition opt_map2 :: "('a \<Rightarrow> 'b \<Rightarrow> 'c) \<Rightarrow> 'a option \<Rightarrow> 'b option \<Rightarrow> 'c option" where
  "opt_map2 f x y = Option.bind x (\<lambda>a. map_option (f a) y)"

text \<open>The contents of an object, given those of its parts.\<close>

fun okey :: "rt \<Rightarrow> set_cmp \<Rightarrow> (val \<Rightarrow> skey option) \<Rightarrow> val \<Rightarrow> obj \<Rightarrow> skey option" where
  "okey r c f v (OFlonum x) = Some (KFlo x)"
| "okey r c f v (OBignum x) = Some (KBig x)"
| "okey r c f v (ORational p q) = Some (KRat p q)"
| "okey r c f v (OQuaternion w x y z) = Some (KQuat w x y z)"
| "okey r c f v (OComplex x y) = (if real_part_ok r x \<and> real_part_ok r y then opt_map2 KCpx (f x) (f y) else None)"
| "okey r c f v (OSymbol _ _) = Some (KWord v)"
| "okey r c f v (OValues _) = Some (KWord v)"
| "okey r c f v (OBcClosure _ _) = Some (KWord v)"
| "okey r c f v (OOther _) = Some (KWord v)"
| "okey r c f v (OPair x y) = (if c = SET_CMP_EQV then Some (KWord v) else opt_map2 KPair (f x) (f y))"
| "okey r c f v (OString s) = (if c = SET_CMP_EQV then Some (KWord v) else Some (KStr s))"
| "okey r c f v (OVector xs) = (if c = SET_CMP_EQV then Some (KWord v) else map_option KVec (those (map f xs)))"
| "okey r c f v (OBytevector s) = (if c = SET_CMP_EQV then Some (KWord v) else Some (KBytes s))"
| "okey r c f v (OSynObj s m) = (if c = SET_CMP_EQV then Some (KWord v) else Some (KSyn s m))"
| "okey r c f v (OTuple up xs) = (if c = SET_CMP_EQV then Some (KWord v) else map_option (KTup up) (those (map f xs)))"
| "okey r c f v (OF64Vec xs) = (if c = SET_CMP_EQV then Some (KWord v) else Some (KF64 xs))"
| "okey r c f v (OSymbolic _) = (if c = SET_CMP_EQV then Some (KWord v) else None)"

fun vkey :: "nat \<Rightarrow> rt \<Rightarrow> set_cmp \<Rightarrow> val \<Rightarrow> skey option" where
  "vkey 0 r c v = None"
| "vkey (Suc n) r c v =
     (if c = SET_CMP_EQ \<or> vis_imm v \<or> vis_fixnum v then Some (KWord v)
      else if vis_char v then (if vchr (vunchr v) = v then Some (KWord v) else None)
      else case obj_at r v of None \<Rightarrow> Some (KWord v) | Some ob \<Rightarrow> okey r c (vkey n r c) v ob)"

definition hashable :: "rt \<Rightarrow> set_cmp \<Rightarrow> val \<Rightarrow> bool" where
  "hashable r c v \<longleftrightarrow> vkey (stack_left r) r c v \<noteq> None"

lemma opt_map2_Some [simp]:
  "opt_map2 f x y = Some z \<longleftrightarrow> (\<exists>a b. x = Some a \<and> y = Some b \<and> z = f a b)"
  by (cases x; cases y) (auto simp: opt_map2_def)

lemma those_Some: "those xs = Some ys \<longleftrightarrow> xs = map Some ys"
  by (induction xs arbitrary: ys) (auto split: option.splits)

fun structural :: "skey \<Rightarrow> bool" where
  "structural (KPair _ _) = True"
| "structural (KStr _) = True"
| "structural (KVec _) = True"
| "structural (KBytes _) = True"
| "structural (KSyn _ _) = True"
| "structural (KTup _ _) = True"
| "structural (KF64 _) = True"
| "structural _ = False"

lemma vkey_real_part:
  "real_part_ok r v \<Longrightarrow> c \<noteq> SET_CMP_EQ \<Longrightarrow> c' \<noteq> SET_CMP_EQ \<Longrightarrow> vkey n r c v = vkey n r c' v"
  by (cases n; cases "obj_at r v"; cases "the (obj_at r v)") (simp_all add: real_part_ok_def)

lemma okey_Word_self: "okey r c f v ob = Some (KWord w) \<Longrightarrow> w = v"
  by (cases ob) (auto split: if_splits)

lemma vkey_Word_self: "vkey n r c v = Some (KWord w) \<Longrightarrow> w = v"
  by (cases n) (auto split: if_splits option.splits dest: okey_Word_self)

lemma vkey_eqv_of_equal:
  assumes "vkey n r SET_CMP_EQUAL v = Some k"
  shows "vkey n r SET_CMP_EQV v = Some (if structural k then KWord v else k)"
proof (cases n)
  case 0
  with assms show ?thesis by simp
next
  case (Suc m)
  have parts: "real_part_ok r x \<Longrightarrow> vkey m r SET_CMP_EQV x = vkey m r SET_CMP_EQUAL x" for x
    by (rule vkey_real_part) auto
  have "okey r SET_CMP_EQUAL (vkey m r SET_CMP_EQUAL) v ob = Some k \<Longrightarrow>
      okey r SET_CMP_EQV (vkey m r SET_CMP_EQV) v ob = Some (if structural k then KWord v else k)" for ob
    by (cases ob) (auto simp: parts split: if_splits)
  then show ?thesis using assms unfolding Suc by (auto split: if_splits option.splits)
qed


lemma fixnum_word_eq:
  assumes "vis_fixnum a" "vis_fixnum b" shows "vunfix a = vunfix b \<longleftrightarrow> a = b"
proof
  have m: "sint v mod 4 = 1" if "vis_fixnum v" for v :: val
  proof -
    have "uint v mod 4 = 1" using that uint_vtag [of v] by (simp add: vis_fixnum_def VTAG_FIX_def)
    moreover have "uint v = sint v mod 2 ^ 64"
      using uint_sint [of v] by (simp add: take_bit_eq_mod)
    ultimately show ?thesis by (simp add: mod_mod_cancel)
  qed
  assume "vunfix a = vunfix b"
  then have "sint a = sint b"
    using m [OF assms(1)] m [OF assms(2)] div_mult_mod_eq [of "sint a" 4] div_mult_mod_eq [of "sint b" 4]
    by (simp add: vunfix_def drop_bit_eq_div)
  then show "a = b" by (rule signed_word_eqI)
qed simp

lemma char_word_eq:
  "vchr (vunchr a) = a \<Longrightarrow> vchr (vunchr b) = b \<Longrightarrow> vunchr a = vunchr b \<longleftrightarrow> a = b"
  by metis

text \<open>Values that are no heap objects, or no object of the heap.\<close>

lemma vkey_plain:
  "obj_at r v = None \<Longrightarrow> vkey n r c v = Some k \<Longrightarrow>
    k = KWord v \<and> (c = SET_CMP_EQ \<or> \<not> vis_char v \<or> vchr (vunchr v) = v)"
  using vis_defs_disjoint [of v] by (cases n) (auto split: if_splits)

lemma scm_eqv_objects:
  assumes IH: "\<And>x y kx ky. vkey n r SET_CMP_EQV x = Some kx \<Longrightarrow> vkey n r SET_CMP_EQV y = Some ky \<Longrightarrow> scm_eqv_at n r x y = Inr (kx = ky)"
    and keys: "okey r SET_CMP_EQV (vkey n r SET_CMP_EQV) a oa = Some ka" "okey r SET_CMP_EQV (vkey n r SET_CMP_EQV) b ob = Some kb"
    and ab: "a \<noteq> b" "obj_at r a = Some oa" "obj_at r b = Some ob" "\<not> vis_fixnum a" "\<not> vis_char a"
  shows "scm_eqv_at (Suc n) r a b = Inr (ka = kb)"
  unfolding scm_eqv_at.simps ab(2,3) using keys ab(1,4,5)
  by (cases oa; cases ob) (auto simp: same_double_def IH split: if_splits)

lemma scm_eqv_at_key:
  assumes "vkey n r SET_CMP_EQV a = Some ka" "vkey n r SET_CMP_EQV b = Some kb"
  shows "scm_eqv_at n r a b = Inr (ka = kb)"
  using assms
proof (induction n arbitrary: a b ka kb)
  case 0
  then show ?case by simp
next
  case (Suc n)
  show ?case
  proof (cases "a = b")
    case True
    with Suc.prems show ?thesis by simp
  next
    case ne: False
    show ?thesis
    proof (cases "obj_at r a")
      case None
      with Suc.prems(1) have "ka = KWord a" and "\<not> vis_char a \<or> vchr (vunchr a) = a"
        using vkey_plain by (metis set_cmp.distinct(1))+
      moreover have "kb \<noteq> KWord a" using Suc.prems(2) ne vkey_Word_self by blast
      moreover have "vis_char b \<Longrightarrow> vchr (vunchr b) = b"
        using Suc.prems(2) vis_defs_disjoint [of b] by (auto split: if_splits)
      ultimately show ?thesis using None ne by (auto simp: fixnum_word_eq char_word_eq)
    next
      case a: (Some oa)
      have na: "\<not> vis_fixnum a" "\<not> vis_char a" "\<not> vis_imm a" using a by auto
      show ?thesis
      proof (cases "obj_at r b")
        case None
        then have "kb = KWord b" using Suc.prems(2) vkey_plain by blast
        moreover have "ka \<noteq> KWord b" using Suc.prems(1) ne vkey_Word_self by blast
        ultimately show ?thesis using a na None ne by (cases oa) auto
      next
        case b: (Some ob)
        have nb: "\<not> vis_fixnum b" "\<not> vis_char b" "\<not> vis_imm b" using b by auto
        show ?thesis
          using Suc.prems a b na nb by (intro scm_eqv_objects [OF Suc.IH _ _ ne a b na(1,2)]) auto
      qed
    qed
  qed
qed


lemma all2_res_keys:
  assumes "\<And>x y k k'. key x = Some k \<Longrightarrow> key y = Some k' \<Longrightarrow> f x y = Inr (k = k')"
    and "map key xs = map Some ks" "map key ys = map Some ks'" "length xs = length ys"
  shows "all2_res f xs ys = Inr (ks = ks')"
  using assms(2-4)
proof (induction xs arbitrary: ys ks ks')
  case Nil
  then show ?case by simp
next
  case (Cons x xs)
  then obtain y ys' k ks1 k' ks2 where "ys = y # ys'" "ks = k # ks1" "ks' = k' # ks2"
    by (cases ys; cases ks; cases ks') auto
  with Cons show ?case by (simp add: assms(1))
qed

lemma keys_length: "map f xs = map Some ks \<Longrightarrow> length ks = length xs"
  by (metis length_map)

lemma keys_same_length: "map f xs = map Some ks \<Longrightarrow> map f ys = map Some ks \<Longrightarrow> length xs = length ys"
  by (metis length_map)

lemma scm_equal_objects:
  assumes IH: "\<And>x y kx ky. vkey n r SET_CMP_EQUAL x = Some kx \<Longrightarrow> vkey n r SET_CMP_EQUAL y = Some ky \<Longrightarrow> scm_equal_at n r x y = Inr (kx = ky)"
    and keys: "okey r SET_CMP_EQUAL (vkey n r SET_CMP_EQUAL) a oa = Some ka" "okey r SET_CMP_EQUAL (vkey n r SET_CMP_EQUAL) b ob = Some kb"
    and eqv: "scm_eqv_at (Suc n) r a b = Inr ((if structural ka then KWord a else ka) = (if structural kb then KWord b else kb))"
      "(if structural ka then KWord a else ka) \<noteq> (if structural kb then KWord b else kb)"
    and ab: "obj_at r a = Some oa" "obj_at r b = Some ob"
  shows "scm_equal_at (Suc n) r a b = Inr (ka = kb)"
proof -
  note all2 = all2_res_keys [where key = "vkey n r SET_CMP_EQUAL" and f = "scm_equal_at n r"]
  have "scm_eqv_at (Suc n) r a b = Inr False" using eqv by simp
  then show ?thesis unfolding scm_equal_at.simps ab using keys eqv(2)
    by (cases oa; cases ob) (auto simp del: scm_eqv_at.simps simp: those_Some IH all2 dest: keys_same_length split: if_splits)
qed

lemma scm_equal_at_key:
  assumes "vkey n r SET_CMP_EQUAL a = Some ka" "vkey n r SET_CMP_EQUAL b = Some kb"
  shows "scm_equal_at n r a b = Inr (ka = kb)"
  using assms
proof (induction n arbitrary: a b ka kb)
  case 0
  then show ?case by simp
next
  case (Suc n)
  define e where "e \<longleftrightarrow> (if structural ka then KWord a else ka) = (if structural kb then KWord b else kb)"
  have eqv: "scm_eqv_at (Suc n) r a b = Inr e"
    unfolding e_def by (rule scm_eqv_at_key; rule vkey_eqv_of_equal; fact)
  show ?case
  proof (cases e)
    case True
    moreover have "ka = KWord w \<Longrightarrow> w = a" "kb = KWord w \<Longrightarrow> w = b" for w
      using Suc.prems vkey_Word_self by blast+
    ultimately have "ka = kb"
      using Suc.prems unfolding e_def by (auto split: if_splits)
    with True eqv show ?thesis by simp
  next
    case ne: False
    show ?thesis
    proof (cases "obj_at r a")
      case None
      then have "ka = KWord a" using Suc.prems(1) vkey_plain by blast
      then have "ka \<noteq> kb" using ne by (auto simp: e_def split: if_splits)
      with None eqv ne show ?thesis by simp
    next
      case a: (Some oa)
      show ?thesis
      proof (cases "obj_at r b")
        case None
        then have "kb = KWord b" using Suc.prems(2) vkey_plain by blast
        then have "ka \<noteq> kb" using ne by (auto simp: e_def split: if_splits)
        with None a eqv ne show ?thesis by (cases oa) auto
      next
        case b: (Some ob)
        have n: "\<not> vis_fixnum a" "\<not> vis_char a" "\<not> vis_imm a" "\<not> vis_fixnum b" "\<not> vis_char b" "\<not> vis_imm b"
          using a b by auto
        show ?thesis
          using Suc.prems a b n eqv ne by (intro scm_equal_objects [OF Suc.IH _ _ _ _ a b]) (auto simp: e_def simp del: scm_eqv_at.simps)
      qed
    qed
  qed
qed


text \<open>The hash of the contents; identity-compared values keep the hash of their word.\<close>

fun khash :: "rt \<Rightarrow> set_cmp \<Rightarrow> skey \<Rightarrow> u32" where
  "khash r c (KWord w) = (case val_hash_at 1 r w c of Inr h \<Rightarrow> h | Inl _ \<Rightarrow> 0)"
| "khash r c (KFlo x) = hash_u64 x"
| "khash r c (KBig z) = hash_mpz r z"
| "khash r c (KRat p q) = hash_combine (hash_mpz r p) (hash_mpz r q)"
| "khash r c (KCpx x y) = hash_combine (khash r c x) (khash r c y)"
| "khash r c (KQuat w x y z) = fold (\<lambda>b h. hash_combine h (hash_u64 b)) [x, y, z] (hash_u64 w)"
| "khash r c (KPair x y) = hash_combine (khash r c x) (khash r c y)"
| "khash r c (KStr s) = hash_bytes s"
| "khash r c (KVec ks) = fold (\<lambda>k h. hash_combine h (khash r c k)) ks 2166136261"
| "khash r c (KBytes s) = hash_bytes s"
| "khash r c (KSyn s m) = hash_combine (sym_hash r s) (hash_u64 m)"
| "khash r c (KTup up ks) = fold (\<lambda>k h. hash_combine h (khash r c k)) ks (hash_u64 (if up then 39 else 40))"
| "khash r c (KF64 xs) = hash_bytes (concat (map u64_bytes xs))"

lemma hash_elems_khash:
  assumes "\<And>x k. key x = Some k \<Longrightarrow> f x = Inr (g k)" and "map key xs = map Some ks"
  shows "hash_elems f h xs = Inr (fold (\<lambda>k h. hash_combine h (g k)) ks h)"
  using assms(2)
proof (induction xs arbitrary: ks h)
  case Nil
  then show ?case by simp
next
  case (Cons x xs)
  then obtain k ks' where "ks = k # ks'" "key x = Some k" "map key xs = map Some ks'" by (cases ks) auto
  then show ?case by (simp add: assms(1) Cons.IH)
qed

lemma val_hash_at_khash:
  "vkey n r c v = Some k \<Longrightarrow> val_hash_at n r v c = Inr (khash r c k)"
proof (induction n arbitrary: c v k)
  case 0
  then show ?case by simp
next
  case (Suc n)
  have elems: "hash_elems (\<lambda>x. val_hash_at n r x c') h xs =
      Inr (fold (\<lambda>k h. hash_combine h (khash r c' k)) ks h)"
    if "map (vkey n r c') xs = map Some ks" for c' h xs ks
    by (rule hash_elems_khash [OF Suc.IH that])
  show ?case
  proof (cases "obj_at r v")
    case None
    with Suc.prems vkey_plain have "k = KWord v" by blast
    with None show ?thesis by simp
  next
    case (Some ob)
    then have "\<not> vis_fixnum v" "\<not> vis_char v" "\<not> vis_imm v" by auto
    with Suc.prems Some show ?thesis
      by (cases c; cases ob) (auto simp: those_Some Suc.IH elems split: if_splits)
  qed
qed


section \<open>The contract of the hash tables\<close>

definition content :: "rt \<Rightarrow> set_cmp \<Rightarrow> val \<Rightarrow> skey" where
  "content r c v = the (vkey (stack_left r) r c v)"

lemma slot_matches_content:
  assumes "hashable r c a" "hashable r c b"
  shows "slot_matches r a b c = Inr (content r c a = content r c b)"
proof -
  obtain ka kb where k: "vkey (stack_left r) r c a = Some ka" "vkey (stack_left r) r c b = Some kb"
    using assms by (auto simp: hashable_def)
  have "c = SET_CMP_EQ \<Longrightarrow> ka = KWord a \<and> kb = KWord b"
    using k by (cases "stack_left r") auto
  then show ?thesis
    using k scm_eqv_at_key scm_equal_at_key
    by (cases c) (auto simp: slot_matches_def scm_eq_def scm_eqv_def scm_equal_def content_def)
qed

lemma val_hash_content:
  "hashable r c v \<Longrightarrow> val_hash r v c = Inr (khash r c (content r c v))"
  by (auto simp: hashable_def val_hash_def content_def dest: val_hash_at_khash)

interpretation val_hashing: key_hashing
  "\<lambda>v. val_hash r v c" "\<lambda>a b. slot_matches r a b c" "hashable r c" "content r c" for r c
  by unfold_locales (auto simp: val_hash_content slot_matches_content)


section \<open>Properties\<close>

text \<open>
  C19: On values whose nesting fits the stack, \<open>eqv?\<close> and \<open>equal?\<close> as the tables call them return, and
  are equivalence relations: they decide equality of the values' contents.
\<close>

theorem equality_equivalence:
  assumes "hashable r c x" "hashable r c y" "hashable r c z"
  shows "slot_matches r x x c = Inr True \<and> slot_matches r x y c = slot_matches r y x c \<and>
    (slot_matches r x y c = Inr True \<longrightarrow> slot_matches r y z c = Inr True \<longrightarrow> slot_matches r x z c = Inr True)"
  using assms by (auto simp: slot_matches_content)

theorem equality_equivalence_witness:
  "slot_matches \<lparr>heap = (\<lambda>_. None)(16 \<mapsto> OFlonum 7, 32 \<mapsto> OFlonum 7), stack_left = 9, sx_equal = (\<lambda>_ _. False), mpz_hex = (\<lambda>_. [])\<rparr>
     16 32 SET_CMP_EQV =
   slot_matches \<lparr>heap = (\<lambda>_. None)(16 \<mapsto> OFlonum 7, 32 \<mapsto> OFlonum 7), stack_left = 9, sx_equal = (\<lambda>_ _. False), mpz_hex = (\<lambda>_. [])\<rparr>
     32 16 SET_CMP_EQV"
proof -
  let ?r = "\<lparr>heap = (\<lambda>_. None)(16 \<mapsto> OFlonum 7, 32 \<mapsto> OFlonum 7), stack_left = 9, sx_equal = (\<lambda>_ _. False), mpz_hex = (\<lambda>_. [])\<rparr> :: rt"
  have "hashable ?r SET_CMP_EQV 16" "hashable ?r SET_CMP_EQV 32" by code_simp+
  then show ?thesis using equality_equivalence [of ?r SET_CMP_EQV 16 32 16] by blast
qed



text \<open>
  \<open>equal?\<close> on two different circular lists of the same elements raises a stack-overflow error,
  whatever the depth of the stack, instead of running off the C stack.
\<close>

theorem equal_circular_raises:
  assumes "obj_at r a = Some (OPair x a)" "obj_at r b = Some (OPair x b)" "a \<noteq> b" "vis_fixnum x"
  shows "scm_equal r a b = Inl (Raise_Code ''stack-overflow'' ''equal?: call stack overflow'')"
proof -
  have na: "\<not> vis_fixnum a" "\<not> vis_char a" using assms(1) by auto
  have "scm_equal_at n r a b = Inl (Raise_Code ''stack-overflow'' ''equal?: call stack overflow'')" for n
  proof (induction n)
    case 0
    show ?case by (simp add: check_c_stack_depth_def)
  next
    case (Suc n)
    have "scm_equal_at n r x x = Inl (Raise_Code ''stack-overflow'' ''equal?: call stack overflow'') \<or>
      scm_equal_at n r x x = Inr True"
      by (cases n) (auto simp: check_c_stack_depth_def)
    with Suc show ?case using assms na by auto
  qed
  then show ?thesis by (simp add: scm_equal_def)
qed

theorem equal_circular_raises_witness:
  "scm_equal \<lparr>heap = (\<lambda>_. None)(16 \<mapsto> OPair 5 16, 32 \<mapsto> OPair 5 32), stack_left = 1000, sx_equal = (\<lambda>_ _. False), mpz_hex = (\<lambda>_. [])\<rparr>
     16 32 = Inl (Raise_Code ''stack-overflow'' ''equal?: call stack overflow'')"
  by (rule equal_circular_raises [where x = 5]) (simp_all add: obj_at_def vis_ptr_def vis_fixnum_def vtag_def tag_defs)

end
