(* ===== verification/Containers.thy ===== *)
theory Containers
  imports Curry_Prelude
begin

text \<open>
  The contracts the mutable containers promise their callers, as locales: a bounded set and a bounded
  map, whose operations may raise. What follows from the contract alone, in particular the result of
  any sequence of updates, is proved here once and used through the interpretations on the hash sets
  and hash tables.
\<close>

section \<open>Sequences of updates\<close>

datatype 'x set_op = Add 'x | Delete 'x

fun run_set :: "('s \<Rightarrow> 'x \<Rightarrow> 's res) \<Rightarrow> ('s \<Rightarrow> 'x \<Rightarrow> 's res) \<Rightarrow> 's \<Rightarrow> 'x set_op list \<Rightarrow> 's res" where
  "run_set add del s [] = Inr s"
| "run_set add del s (Add x # ops) = rbind (add s x) (\<lambda>s'. run_set add del s' ops)"
| "run_set add del s (Delete x # ops) = rbind (del s x) (\<lambda>s'. run_set add del s' ops)"

fun set_spec :: "('x \<Rightarrow> 'k) \<Rightarrow> 'k set \<Rightarrow> 'x set_op list \<Rightarrow> 'k set" where
  "set_spec key A [] = A"
| "set_spec key A (Add x # ops) = set_spec key (insert (key x) A) ops"
| "set_spec key A (Delete x # ops) = set_spec key (A - {key x}) ops"

fun set_op_arg :: "'x set_op \<Rightarrow> 'x" where
  "set_op_arg (Add x) = x"
| "set_op_arg (Delete x) = x"

datatype ('x, 'v) map_op = Put 'x 'v | Remove 'x

fun run_map :: "('s \<Rightarrow> 'x \<Rightarrow> 'v \<Rightarrow> 's res) \<Rightarrow> ('s \<Rightarrow> 'x \<Rightarrow> 's res) \<Rightarrow> 's \<Rightarrow> ('x, 'v) map_op list \<Rightarrow> 's res" where
  "run_map put del s [] = Inr s"
| "run_map put del s (Put x v # ops) = rbind (put s x v) (\<lambda>s'. run_map put del s' ops)"
| "run_map put del s (Remove x # ops) = rbind (del s x) (\<lambda>s'. run_map put del s' ops)"

fun map_spec :: "('x \<Rightarrow> 'k) \<Rightarrow> ('k \<rightharpoonup> 'v) \<Rightarrow> ('x, 'v) map_op list \<Rightarrow> 'k \<rightharpoonup> 'v" where
  "map_spec key m [] = m"
| "map_spec key m (Put x v # ops) = map_spec key (m(key x \<mapsto> v)) ops"
| "map_spec key m (Remove x # ops) = map_spec key (m(key x := None)) ops"

fun map_op_arg :: "('x, 'v) map_op \<Rightarrow> 'x" where
  "map_op_arg (Put x v) = x"
| "map_op_arg (Remove x) = x"

section \<open>Contracts\<close>

locale bounded_set =
  fixes ok :: "'s \<Rightarrow> bool"
    and elems :: "'s \<Rightarrow> 'k set"
    and key :: "'x \<Rightarrow> 'k"
    and storable :: "'x \<Rightarrow> bool"
    and add :: "'s \<Rightarrow> 'x \<Rightarrow> 's res"
    and del :: "'s \<Rightarrow> 'x \<Rightarrow> 's res"
    and member :: "'s \<Rightarrow> 'x \<Rightarrow> bool res"
    and limit :: nat
  assumes elems_finite: "ok s \<Longrightarrow> finite (elems s)"
    and add_law: "ok s \<Longrightarrow> card (elems s) < limit \<Longrightarrow> storable x \<Longrightarrow>
      \<exists>s'. add s x = Inr s' \<and> ok s' \<and> elems s' = insert (key x) (elems s)"
    and del_law: "ok s \<Longrightarrow> storable x \<Longrightarrow> \<exists>s'. del s x = Inr s' \<and> ok s' \<and> elems s' = elems s - {key x}"
    and member_law: "ok s \<Longrightarrow> storable x \<Longrightarrow> member s x = Inr (key x \<in> elems s)"
begin

lemma run_set_refines:
  assumes "ok s" "card (elems s) + length ops \<le> limit" "\<forall>op \<in> set ops. storable (set_op_arg op)"
  shows "\<exists>s'. run_set add del s ops = Inr s' \<and> ok s' \<and> elems s' = set_spec key (elems s) ops"
  using assms
proof (induction ops arbitrary: s)
  case Nil
  then show ?case by simp
next
  case (Cons op ops)
  note fin = elems_finite [OF Cons.prems(1)]
  show ?case
  proof (cases op)
    case (Add x)
    with Cons.prems obtain t where t: "add s x = Inr t" "ok t" "elems t = insert (key x) (elems s)"
      using add_law [of s x] by auto
    then have "card (elems t) \<le> Suc (card (elems s))" using fin by (simp add: card_insert_if)
    with Cons.prems Cons.IH [OF t(2)] t show ?thesis by (simp add: Add)
  next
    case (Delete x)
    with Cons.prems obtain t where t: "del s x = Inr t" "ok t" "elems t = elems s - {key x}"
      using del_law [of s x] by auto
    then have "card (elems t) \<le> card (elems s)" using fin by (simp add: card_mono)
    with Cons.prems Cons.IH [OF t(2)] t show ?thesis by (simp add: Delete)
  qed
qed

lemma member_after_run:
  assumes "ok s" "card (elems s) + length ops \<le> limit" "\<forall>op \<in> set ops. storable (set_op_arg op)" "storable x"
  shows "\<exists>s'. run_set add del s ops = Inr s' \<and> ok s' \<and> member s' x = Inr (key x \<in> set_spec key (elems s) ops)"
  using run_set_refines [OF assms(1-3)] member_law assms(4) by fastforce

end

locale bounded_map =
  fixes ok :: "'s \<Rightarrow> bool"
    and mapping :: "'s \<Rightarrow> 'k \<rightharpoonup> 'v"
    and key :: "'x \<Rightarrow> 'k"
    and storable :: "'x \<Rightarrow> bool"
    and put :: "'s \<Rightarrow> 'x \<Rightarrow> 'v \<Rightarrow> 's res"
    and del :: "'s \<Rightarrow> 'x \<Rightarrow> 's res"
    and lookup :: "'s \<Rightarrow> 'x \<Rightarrow> 'v \<Rightarrow> 'v res"
    and limit :: nat
  assumes dom_finite: "ok s \<Longrightarrow> finite (dom (mapping s))"
    and put_law: "ok s \<Longrightarrow> card (dom (mapping s)) < limit \<Longrightarrow> storable x \<Longrightarrow>
      \<exists>s'. put s x v = Inr s' \<and> ok s' \<and> mapping s' = (mapping s)(key x \<mapsto> v)"
    and remove_law: "ok s \<Longrightarrow> storable x \<Longrightarrow>
      \<exists>s'. del s x = Inr s' \<and> ok s' \<and> mapping s' = (mapping s)(key x := None)"
    and lookup_law: "ok s \<Longrightarrow> storable x \<Longrightarrow>
      lookup s x d = Inr (case mapping s (key x) of None \<Rightarrow> d | Some v \<Rightarrow> v)"
begin

lemma run_map_refines:
  assumes "ok s" "card (dom (mapping s)) + length ops \<le> limit" "\<forall>op \<in> set ops. storable (map_op_arg op)"
  shows "\<exists>s'. run_map put del s ops = Inr s' \<and> ok s' \<and> mapping s' = map_spec key (mapping s) ops"
  using assms
proof (induction ops arbitrary: s)
  case Nil
  then show ?case by simp
next
  case (Cons op ops)
  note fin = dom_finite [OF Cons.prems(1)]
  show ?case
  proof (cases op)
    case (Put x v)
    with Cons.prems obtain t where t: "put s x v = Inr t" "ok t" "mapping t = (mapping s)(key x \<mapsto> v)"
      using put_law [of s x v] by auto
    then have "card (dom (mapping t)) \<le> Suc (card (dom (mapping s)))" using fin by (simp add: card_insert_if)
    with Cons.prems have "\<exists>s'. run_map put del t ops = Inr s' \<and> ok s' \<and> mapping s' = map_spec key (mapping t) ops"
      by (intro Cons.IH [OF t(2)]) auto
    with t show ?thesis by (simp only: Put run_map.simps map_spec.simps rbind.simps)
  next
    case (Remove x)
    with Cons.prems obtain t where t: "del s x = Inr t" "ok t" "mapping t = (mapping s)(key x := None)"
      using remove_law [of s x] by auto
    then have "card (dom (mapping t)) \<le> card (dom (mapping s))" using fin by (simp add: card_mono)
    with Cons.prems have "\<exists>s'. run_map put del t ops = Inr s' \<and> ok s' \<and> mapping s' = map_spec key (mapping t) ops"
      by (intro Cons.IH [OF t(2)]) auto
    with t show ?thesis by (simp only: Remove run_map.simps map_spec.simps rbind.simps)
  qed
qed

lemma lookup_after_run:
  assumes "ok s" "card (dom (mapping s)) + length ops \<le> limit" "\<forall>op \<in> set ops. storable (map_op_arg op)" "storable x"
  shows "\<exists>s'. run_map put del s ops = Inr s' \<and> ok s' \<and>
    lookup s' x d = Inr (case map_spec key (mapping s) ops (key x) of None \<Rightarrow> d | Some v \<Rightarrow> v)"
  using run_map_refines [OF assms(1-3)] lookup_law assms(4) by fastforce

end

end
