(* ===== verification/Hash_Set.thy ===== *)
theory Hash_Set
  imports Equality Containers
begin

text \<open>
  The mutable hash sets of \<open>src/src/set.c\<close>: open addressing with tombstones, rehashing when three
  quarters of the slots are used, and the set algebra built from them. A set operation takes the
  Scheme argument (\<open>None\<close> for a value that is not a set, which every entry point rejects) and gives
  the set as it is afterwards. The lemmas show that a set represents the set of its elements'
  contents and that every operation computes the operation on sets it is named after.
\<close>

section \<open>Representation\<close>

record scm_set =
  s_size :: nat
  s_used :: nat
  s_cap :: nat
  s_buckets :: "val list"
  s_cmp :: set_cmp

definition EMPTY_SLOT :: val where "EMPTY_SLOT = V_UNDEF"
definition DEAD_SLOT :: val where "DEAD_SLOT = V_EOF"
definition LOAD_NUM :: nat where "LOAD_NUM = 3"
definition LOAD_DEN :: nat where "LOAD_DEN = 4"

definition live_slot :: "val \<Rightarrow> bool" where
  "live_slot e \<longleftrightarrow> e \<noteq> EMPTY_SLOT \<and> e \<noteq> DEAD_SLOT"

definition rehash_cap :: "nat \<Rightarrow> nat \<Rightarrow> nat" where
  "rehash_cap cap live =
     (if cap = 0 then 16 else if wrap32 (live * 2) \<ge> cap then wrap32 (cap * 2) else cap)"

section \<open>Operations\<close>

definition checked_set :: "scm_set option \<Rightarrow> string \<Rightarrow> scm_set res" where
  "checked_set v who =
     (case v of Some s \<Rightarrow> Inr s
      | None \<Rightarrow> Inl (Raise_Code ''wrong-type-argument'' (who @ '': not a set'')))"

text \<open>The insertion loops of \<open>set_rehash\<close>: every live element into the first empty slot of its chain.\<close>

fun rehash_into :: "rt \<Rightarrow> set_cmp \<Rightarrow> nat \<Rightarrow> val list \<Rightarrow> val list \<Rightarrow> val list res" where
  "rehash_into r c new_cap [] new_bkt = Inr new_bkt"
| "rehash_into r c new_cap (e # es) new_bkt =
     (if e = EMPTY_SLOT \<or> e = DEAD_SLOT then rehash_into r c new_cap es new_bkt
      else rbind (val_hash r e c) (\<lambda>h.
           rbind (probe (new_cap - 1) (free_step (\<lambda>x. x = EMPTY_SLOT) new_bkt) new_cap
                    (unat h AND (new_cap - 1))) (\<lambda>idx.
           rehash_into r c new_cap es (new_bkt[idx := e]))))"

definition set_rehash :: "rt \<Rightarrow> scm_set \<Rightarrow> scm_set res" where
  "set_rehash r s =
     (let new_cap = rehash_cap (s_cap s) (s_size s)
      in rbind (rehash_into r (s_cmp s) new_cap (s_buckets s) (replicate new_cap EMPTY_SLOT)) (\<lambda>b.
         Inr (s\<lparr>s_buckets := b, s_cap := new_cap, s_used := s_size s\<rparr>)))"

definition set_make :: "rt \<Rightarrow> set_cmp \<Rightarrow> scm_set res" where
  "set_make r c = set_rehash r \<lparr>s_size = 0, s_used = 0, s_cap = 0, s_buckets = [], s_cmp = c\<rparr>"

text \<open>
  The search loop of \<open>set_member\<close> and \<open>set_delete_mut\<close>: the slot of the element, \<open>None\<close> at an empty slot.
\<close>

definition set_find :: "rt \<Rightarrow> scm_set \<Rightarrow> val \<Rightarrow> nat option res" where
  "set_find r s elem =
     rbind (val_hash r elem (s_cmp s)) (\<lambda>h.
       probe (s_cap s - 1)
         (find_step EMPTY_SLOT DEAD_SLOT (\<lambda>e. slot_matches r e elem (s_cmp s)) (s_buckets s))
         (s_cap s) (unat h AND (s_cap s - 1)))"

definition set_member :: "rt \<Rightarrow> scm_set option \<Rightarrow> val \<Rightarrow> bool res" where
  "set_member r sv elem =
     rbind (checked_set sv ''set-member?'') (\<lambda>s. rbind (set_find r s elem) (\<lambda>f. Inr (f \<noteq> None)))"

definition set_add_mut :: "rt \<Rightarrow> scm_set option \<Rightarrow> val \<Rightarrow> scm_set res" where
  "set_add_mut r sv elem =
     rbind (checked_set sv ''set-add!'') (\<lambda>s.
     rbind (set_member r sv elem) (\<lambda>found.
       if found then Inr s
       else
         rbind (if wrap32 (s_used s * LOAD_DEN) \<ge> wrap32 (s_cap s * LOAD_NUM) then set_rehash r s else Inr s) (\<lambda>s.
         rbind (val_hash r elem (s_cmp s)) (\<lambda>h.
         rbind (probe (s_cap s - 1) (free_step (\<lambda>x. x = EMPTY_SLOT \<or> x = DEAD_SLOT) (s_buckets s))
                  (s_cap s) (unat h AND (s_cap s - 1))) (\<lambda>idx.
         Inr (s\<lparr>s_used := (if s_buckets s ! idx = EMPTY_SLOT then s_used s + 1 else s_used s),
                s_buckets := (s_buckets s)[idx := elem],
                s_size := s_size s + 1\<rparr>))))))"

definition set_delete_mut :: "rt \<Rightarrow> scm_set option \<Rightarrow> val \<Rightarrow> scm_set res" where
  "set_delete_mut r sv elem =
     rbind (checked_set sv ''set-delete!'') (\<lambda>s.
     rbind (set_find r s elem) (\<lambda>f.
       Inr (case f of None \<Rightarrow> s
            | Some idx \<Rightarrow> s\<lparr>s_buckets := (s_buckets s)[idx := DEAD_SLOT], s_size := s_size s - 1\<rparr>)))"

text \<open>Scheme lists are Isabelle lists; \<open>set_to_list\<close> conses the buckets up in index order.\<close>

fun set_add_each :: "rt \<Rightarrow> scm_set \<Rightarrow> val list \<Rightarrow> scm_set res" where
  "set_add_each r s [] = Inr s"
| "set_add_each r s (e # es) = rbind (set_add_mut r (Some s) e) (\<lambda>s'. set_add_each r s' es)"

definition set_add :: "rt \<Rightarrow> scm_set option \<Rightarrow> val \<Rightarrow> scm_set res" where
  "set_add r sv elem =
     rbind (checked_set sv ''set-add'') (\<lambda>old.
     rbind (set_make r (s_cmp old)) (\<lambda>nv.
     rbind (set_add_each r nv (filter live_slot (s_buckets old))) (\<lambda>nv.
     set_add_mut r (Some nv) elem)))"

definition set_to_list :: "scm_set option \<Rightarrow> val list res" where
  "set_to_list sv =
     rbind (checked_set sv ''set->list'') (\<lambda>s. Inr (rev (filter live_slot (s_buckets s))))"

definition list_to_set :: "rt \<Rightarrow> val list \<Rightarrow> set_cmp \<Rightarrow> scm_set res" where
  "list_to_set r lst c = rbind (set_make r c) (\<lambda>s. set_add_each r s lst)"

definition set_size :: "scm_set option \<Rightarrow> nat res" where
  "set_size sv = rbind (checked_set sv ''set-size'') (\<lambda>s. Inr (s_size s))"

definition set_union :: "rt \<Rightarrow> scm_set option \<Rightarrow> scm_set option \<Rightarrow> scm_set res" where
  "set_union r a b =
     rbind (checked_set a ''set-union'') (\<lambda>sa.
     rbind (set_make r (s_cmp sa)) (\<lambda>u.
     rbind (set_to_list a) (\<lambda>la.
     rbind (set_to_list b) (\<lambda>lb.
     rbind (set_add_each r u la) (\<lambda>u. set_add_each r u lb)))))"

text \<open>The loops of \<open>set_intersection\<close> (\<open>keep\<close> is \<open>True\<close>) and \<open>set_difference\<close> (\<open>False\<close>).\<close>

fun set_add_if :: "rt \<Rightarrow> bool \<Rightarrow> scm_set option \<Rightarrow> scm_set \<Rightarrow> val list \<Rightarrow> scm_set res" where
  "set_add_if r keep b s [] = Inr s"
| "set_add_if r keep b s (e # es) =
     rbind (set_member r b e) (\<lambda>m.
     rbind (if m = keep then set_add_mut r (Some s) e else Inr s) (\<lambda>s'. set_add_if r keep b s' es))"

definition set_intersection :: "rt \<Rightarrow> scm_set option \<Rightarrow> scm_set option \<Rightarrow> scm_set res" where
  "set_intersection r a b =
     rbind (checked_set a ''set-intersection'') (\<lambda>sa.
     rbind (set_make r (s_cmp sa)) (\<lambda>u.
     rbind (checked_set b ''set-intersection'') (\<lambda>_.
     rbind (set_to_list a) (\<lambda>la. set_add_if r True b u la))))"

definition set_difference :: "rt \<Rightarrow> scm_set option \<Rightarrow> scm_set option \<Rightarrow> scm_set res" where
  "set_difference r a b =
     rbind (checked_set a ''set-difference'') (\<lambda>sa.
     rbind (set_make r (s_cmp sa)) (\<lambda>u.
     rbind (checked_set b ''set-difference'') (\<lambda>_.
     rbind (set_to_list a) (\<lambda>la. set_add_if r False b u la))))"

fun all_members :: "rt \<Rightarrow> scm_set option \<Rightarrow> val list \<Rightarrow> bool res" where
  "all_members r b [] = Inr True"
| "all_members r b (e # es) = rbind (set_member r b e) (\<lambda>m. if \<not> m then Inr False else all_members r b es)"

definition set_subset :: "rt \<Rightarrow> scm_set option \<Rightarrow> scm_set option \<Rightarrow> bool res" where
  "set_subset r a b =
     rbind (checked_set a ''set-subset?'') (\<lambda>_.
     rbind (checked_set b ''set-subset?'') (\<lambda>_.
     rbind (set_to_list a) (\<lambda>la. all_members r b la)))"

definition set_equal :: "rt \<Rightarrow> scm_set option \<Rightarrow> scm_set option \<Rightarrow> bool res" where
  "set_equal r a b =
     rbind (checked_set a ''set=?'') (\<lambda>sa.
     rbind (checked_set b ''set=?'') (\<lambda>sb.
       if s_size sa = s_size sb then set_subset r a b else Inr False))"

definition set_copy :: "rt \<Rightarrow> scm_set option \<Rightarrow> scm_set res" where
  "set_copy r sv =
     rbind (set_to_list sv) (\<lambda>l.
     rbind (checked_set sv ''set-copy'') (\<lambda>s. list_to_set r l (s_cmp s)))"

definition set_sym_diff :: "rt \<Rightarrow> scm_set option \<Rightarrow> scm_set option \<Rightarrow> scm_set res" where
  "set_sym_diff r a b =
     rbind (set_difference r a b) (\<lambda>x.
     rbind (set_difference r b a) (\<lambda>y. set_union r (Some x) (Some y)))"


section \<open>Invariant and abstraction\<close>

abbreviation buckets_ok :: "rt \<Rightarrow> set_cmp \<Rightarrow> nat \<Rightarrow> val list \<Rightarrow> bool" where
  "buckets_ok r c \<equiv> slots_ok EMPTY_SLOT DEAD_SLOT (\<lambda>v. val_hash r v c) (hashable r c) (content r c)"

abbreviation bucket_keys :: "rt \<Rightarrow> set_cmp \<Rightarrow> val list \<Rightarrow> skey set" where
  "bucket_keys r c \<equiv> slot_keys EMPTY_SLOT DEAD_SLOT (content r c)"

abbreviation count_live :: "val list \<Rightarrow> nat" where
  "count_live b \<equiv> length (filter live_slot b)"

abbreviation count_used :: "val list \<Rightarrow> nat" where
  "count_used b \<equiv> length (filter (\<lambda>e. e \<noteq> EMPTY_SLOT) b)"

text \<open>
  The counters count what they claim to, at most three quarters of the slots are in use, and the
  capacity stays below the sizes whose \<open>uint32_t\<close> products wrap around.
\<close>

definition set_ok :: "rt \<Rightarrow> scm_set \<Rightarrow> bool" where
  "set_ok r s \<longleftrightarrow>
     (\<exists>k. 4 \<le> k \<and> k \<le> 30 \<and> s_cap s = 2 ^ k \<and> buckets_ok r (s_cmp s) k (s_buckets s)) \<and>
     s_size s = count_live (s_buckets s) \<and> s_used s = count_used (s_buckets s) \<and>
     s_used s * 4 \<le> s_cap s * 3"

definition set_abs :: "rt \<Rightarrow> scm_set \<Rightarrow> skey set" where
  "set_abs r s = bucket_keys r (s_cmp s) (s_buckets s)"

lemma slots_distinct [simp]: "DEAD_SLOT \<noteq> EMPTY_SLOT" "EMPTY_SLOT \<noteq> DEAD_SLOT"
  by (simp_all add: EMPTY_SLOT_def DEAD_SLOT_def imm_defs)

lemma live_slot_entry: "live_slot = entry EMPTY_SLOT DEAD_SLOT"
  by (simp add: live_slot_def entry_def fun_eq_iff)

lemma live_slot_iff [simp]: "\<not> live_slot EMPTY_SLOT" "\<not> live_slot DEAD_SLOT"
  by (simp_all add: live_slot_def)

lemma home_val_hash: "val_hash r v c = Inr h \<Longrightarrow> home (\<lambda>v. val_hash r v c) v = unat h"
  by (simp add: home_def)

lemma count_live_le_used: "count_live b \<le> count_used b"
  by (induction b) (auto simp: live_slot_def)

lemma set_ok_empty_slot:
  assumes "s_used s * 4 \<le> s_cap s * 3" "s_used s = count_used (s_buckets s)"
    "length (s_buckets s) = s_cap s" "0 < s_cap s"
  shows "EMPTY_SLOT \<in> set (s_buckets s)"
proof -
  have "count_used (s_buckets s) < length (s_buckets s)" using assms by simp
  then obtain i where "i < length (s_buckets s)" "s_buckets s ! i = EMPTY_SLOT"
    using filter_short_ex [of "\<lambda>e. e \<noteq> EMPTY_SLOT"] by metis
  then show ?thesis by (metis nth_mem)
qed

lemma set_okE:
  assumes "set_ok r s"
  obtains k where "4 \<le> k" "k \<le> 30" "s_cap s = 2 ^ k" "buckets_ok r (s_cmp s) k (s_buckets s)"
    "length (s_buckets s) = 2 ^ k" "EMPTY_SLOT \<in> set (s_buckets s)"
    "s_size s = count_live (s_buckets s)" "s_used s = count_used (s_buckets s)" "s_used s * 4 \<le> s_cap s * 3"
proof -
  from assms obtain k where k: "4 \<le> k" "k \<le> 30" "s_cap s = 2 ^ k" "buckets_ok r (s_cmp s) k (s_buckets s)"
    and c: "s_size s = count_live (s_buckets s)" "s_used s = count_used (s_buckets s)" "s_used s * 4 \<le> s_cap s * 3"
    by (auto simp: set_ok_def)
  then have len: "length (s_buckets s) = 2 ^ k" by (simp add: slots_ok_def)
  with k c have "EMPTY_SLOT \<in> set (s_buckets s)" by (intro set_ok_empty_slot) auto
  with k len c show thesis by (intro that [of k])
qed

section \<open>Searching\<close>

lemma set_find_none:
  assumes "s_cap s = 2 ^ k" "buckets_ok r (s_cmp s) k (s_buckets s)" "EMPTY_SLOT \<in> set (s_buckets s)"
    and "hashable r (s_cmp s) x" "content r (s_cmp s) x \<notin> set_abs r s"
  shows "set_find r s x = Inr None"
proof -
  obtain h where h: "val_hash r x (s_cmp s) = Inr h" using assms(4) val_hashing.hash_ret by blast
  have "unat h mod 2 ^ k < 2 ^ k" by simp
  from val_hashing.find_absent [OF assms(2,4,3) _ this] assms(5) show ?thesis
    by (simp add: set_find_def h assms(1) and_mask_nat [simplified] set_abs_def)
qed

lemma set_find_absent:
  assumes "set_ok r s" "hashable r (s_cmp s) x" "content r (s_cmp s) x \<notin> set_abs r s"
  shows "set_find r s x = Inr None"
  using assms(1) by (rule set_okE) (rule set_find_none [OF _ _ _ assms(2,3)])

lemma set_find_present:
  assumes "set_ok r s" "hashable r (s_cmp s) x" "content r (s_cmp s) x \<in> set_abs r s"
  obtains i where "set_find r s x = Inr (Some i)" "i < length (s_buckets s)" "live_slot (s_buckets s ! i)"
    "content r (s_cmp s) (s_buckets s ! i) = content r (s_cmp s) x"
proof -
  obtain k where k: "s_cap s = 2 ^ k" "buckets_ok r (s_cmp s) k (s_buckets s)" "length (s_buckets s) = 2 ^ k"
    using assms(1) by (rule set_okE)
  obtain h where h: "val_hash r x (s_cmp s) = Inr h" using assms(2) val_hashing.hash_ret by blast
  obtain i where i: "i < 2 ^ k" "entry EMPTY_SLOT DEAD_SLOT (s_buckets s ! i)"
    "content r (s_cmp s) (s_buckets s ! i) = content r (s_cmp s) x"
    using assms(3) k(3) by (auto simp: set_abs_def slot_keys_nth)
  have "set_find r s x = Inr (Some i)"
    using val_hashing.find_present [OF k(2) assms(2) i]
    by (simp add: set_find_def h k(1) and_mask_nat [simplified] home_val_hash [OF h])
  with i k(3) show thesis by (intro that) (auto simp: live_slot_entry)
qed

lemma set_find_cases:
  assumes "set_ok r s" "hashable r (s_cmp s) x"
  shows "set_find r s x = Inr None \<and> content r (s_cmp s) x \<notin> set_abs r s \<or>
    (\<exists>i. set_find r s x = Inr (Some i) \<and> content r (s_cmp s) x \<in> set_abs r s)"
  using set_find_absent [OF assms] set_find_present [OF assms] by blast

lemma set_member_spec:
  assumes "set_ok r s" "hashable r (s_cmp s) x"
  shows "set_member r (Some s) x = Inr (content r (s_cmp s) x \<in> set_abs r s)"
  using set_find_cases [OF assms] by (auto simp: set_member_def checked_set_def)

section \<open>Rehashing\<close>

text \<open>One turn of a rehashing loop, for an element that is not in the new array yet.\<close>

lemma rehash_slot:
  assumes ok: "buckets_ok r c k nb" and e: "hashable r c e" "live_slot e"
    and new: "content r c e \<notin> bucket_keys r c nb" and room: "count_used nb < 2 ^ k"
  obtains h i where "val_hash r e c = Inr h"
    "probe (2 ^ k - 1) (free_step (\<lambda>x. x = EMPTY_SLOT) nb) (2 ^ k) (unat h AND (2 ^ k - 1)) = Inr i"
    "i < length nb" "nb ! i = EMPTY_SLOT" "buckets_ok r c k (nb[i := e])"
    "bucket_keys r c (nb[i := e]) = insert (content r c e) (bucket_keys r c nb)"
    "count_used (nb[i := e]) = count_used nb + 1"
proof -
  have xe: "entry EMPTY_SLOT DEAD_SLOT e" "e \<noteq> EMPTY_SLOT" using e(2) by (auto simp: live_slot_entry entry_def)
  obtain h where h: "val_hash r e c = Inr h" using e(1) val_hashing.hash_ret by blast
  have len: "length nb = 2 ^ k" using ok by (simp add: slots_ok_def)
  then have "EMPTY_SLOT \<in> set nb"
    using room filter_short_ex [of "\<lambda>e. e \<noteq> EMPTY_SLOT" nb] by (metis nth_mem)
  then obtain p where
    p: "p < 2 ^ k" "\<And>q. q < p \<Longrightarrow> nb ! ((unat h + q) mod 2 ^ k) \<noteq> EMPTY_SLOT"
      "nb ! ((unat h + p) mod 2 ^ k) = EMPTY_SLOT"
      "probe (2 ^ k - 1) (free_step (\<lambda>x. x = EMPTY_SLOT) nb) (2 ^ k) (unat h mod 2 ^ k) = Inr ((unat h + p) mod 2 ^ k)"
    by (rule free_probe [where stop = "\<lambda>x. x = EMPTY_SLOT" and i = "unat h", OF len]) auto
  let ?i = "(unat h + p) mod 2 ^ k"
  have i: "?i < length nb" by (simp add: len)
  show thesis
  proof (rule that [OF h _ i p(3)])
    show "buckets_ok r c k (nb[?i := e])"
      using slots_ok_place [OF ok xe(1) e(1) new p(1)] p(2) by (simp add: home_val_hash [OF h])
    show "bucket_keys r c (nb[?i := e]) = insert (content r c e) (bucket_keys r c nb)"
      using i xe(1) p(3) by (intro slot_keys_place) (auto simp: entry_def)
    show "count_used (nb[?i := e]) = count_used nb + 1"
      using length_filter_update [OF i, of "\<lambda>e. e \<noteq> EMPTY_SLOT" e] p(3) xe(2) by simp
  qed (use p(4) in \<open>simp add: and_mask_nat [simplified]\<close>)
qed

lemma rehash_into_spec:
  assumes "buckets_ok r c k nb" "DEAD_SLOT \<notin> set nb"
    and "\<forall>e \<in> set es. live_slot e \<longrightarrow> hashable r c e"
    and "distinct (map (content r c) (filter live_slot es))"
    and "content r c ` set (filter live_slot es) \<inter> bucket_keys r c nb = {}"
    and "count_used nb + count_live es < 2 ^ k"
  shows "\<exists>nb'. rehash_into r c (2 ^ k) es nb = Inr nb' \<and> buckets_ok r c k nb' \<and> DEAD_SLOT \<notin> set nb' \<and>
    bucket_keys r c nb' = bucket_keys r c nb \<union> content r c ` set (filter live_slot es) \<and>
    count_used nb' = count_used nb + count_live es"
  using assms
proof (induction es arbitrary: nb)
  case Nil
  then show ?case by simp
next
  case (Cons e es)
  show ?case
  proof (cases "live_slot e")
    case False
    then have "e = EMPTY_SLOT \<or> e = DEAD_SLOT" by (auto simp: live_slot_def)
    with False Cons show ?thesis by simp
  next
    case True
    then have e: "hashable r c e" "e \<noteq> EMPTY_SLOT" "e \<noteq> DEAD_SLOT"
      using Cons.prems(3) by (auto simp: live_slot_def)
    have new: "content r c e \<notin> bucket_keys r c nb" using Cons.prems(5) True by auto
    have room: "count_used nb < 2 ^ k" using Cons.prems(6) by simp
    obtain h i where s: "val_hash r e c = Inr h"
      "probe (2 ^ k - 1) (free_step (\<lambda>x. x = EMPTY_SLOT) nb) (2 ^ k) (unat h AND (2 ^ k - 1)) = Inr i"
      "i < length nb" "buckets_ok r c k (nb[i := e])"
      "bucket_keys r c (nb[i := e]) = insert (content r c e) (bucket_keys r c nb)"
      "count_used (nb[i := e]) = count_used nb + 1"
      by (rule rehash_slot [OF Cons.prems(1) e(1) True new room])
    have "DEAD_SLOT \<notin> set (nb[i := e])" using Cons.prems(2) e(3) set_update_subset_insert [of nb i e] by auto
    then have "\<exists>nb'. rehash_into r c (2 ^ k) es (nb[i := e]) = Inr nb' \<and> buckets_ok r c k nb' \<and> DEAD_SLOT \<notin> set nb' \<and>
      bucket_keys r c nb' = bucket_keys r c (nb[i := e]) \<union> content r c ` set (filter live_slot es) \<and>
      count_used nb' = count_used (nb[i := e]) + count_live es"
      using s(4-6) Cons.prems True by (intro Cons.IH) auto
    then show ?thesis
      using e True s by auto
  qed
qed

lemma rehash_cap_spec:
  assumes "4 \<le> k" "k \<le> 30" "n < 2 ^ 28" "n * 4 \<le> 2 ^ k * 3"
  obtains k' where "4 \<le> k'" "k' \<le> 30" "rehash_cap (2 ^ k) n = 2 ^ k'" "n * 4 < 2 ^ k' * (3::nat)"
proof (cases "2 ^ k \<le> n * 2")
  case True
  then have "(2::nat) ^ k < 2 ^ 29" using assms(3) by simp
  then have "k < 29" by (rule power_less_imp_less_exp [of 2, rotated]) simp
  moreover from this have "(2::nat) ^ Suc k \<le> 2 ^ 29" by (intro power_increasing) auto
  moreover have "0 < (2::nat) ^ k" by simp
  then have "n * 4 < 2 ^ Suc k * 3" using assms(4) unfolding power_Suc by linarith
  ultimately show ?thesis
    using True assms by (intro that [of "Suc k"]) (auto simp: rehash_cap_def wrap32_def)
next
  case False
  with assms show ?thesis by (intro that [of k]) (auto simp: rehash_cap_def wrap32_def)
qed

lemma buckets_fresh: "bucket_keys r c (replicate n EMPTY_SLOT) = {}"
  by (auto simp: slot_keys_def entry_def)

lemma count_live_no_dead: "DEAD_SLOT \<notin> set b \<Longrightarrow> count_live b = count_used b"
  by (induction b) (auto simp: live_slot_def)

lemma set_rehash_spec:
  assumes "set_ok r s" "s_size s < 2 ^ 28"
  shows "\<exists>s'. set_rehash r s = Inr s' \<and> set_ok r s' \<and> set_abs r s' = set_abs r s \<and> s_cmp s' = s_cmp s \<and>
    s_size s' = s_size s \<and> s_used s' * 4 < s_cap s' * 3"
proof -
  let ?b = "s_buckets s" and ?c = "s_cmp s"
  obtain k where k: "4 \<le> k" "k \<le> 30" "s_cap s = 2 ^ k" "buckets_ok r ?c k ?b"
    "s_size s = count_live ?b" "s_used s = count_used ?b" "s_used s * 4 \<le> s_cap s * 3"
    using assms(1) by (rule set_okE)
  have "s_size s * 4 \<le> 2 ^ k * 3" using k(3,5-7) count_live_le_used [of ?b] by linarith
  then obtain k' where k': "4 \<le> k'" "k' \<le> 30" "rehash_cap (2 ^ k) (s_size s) = 2 ^ k'" "s_size s * 4 < 2 ^ k' * 3"
    using k(1,2) assms(2) rehash_cap_spec by metis
  have dist: "distinct (map (content r ?c) (filter live_slot ?b))"
    using slots_ok_distinct [OF k(4)] by (simp add: live_slot_entry)
  obtain b' where b': "rehash_into r ?c (2 ^ k') ?b (replicate (2 ^ k') EMPTY_SLOT) = Inr b'"
    "buckets_ok r ?c k' b'" "DEAD_SLOT \<notin> set b'"
    "bucket_keys r ?c b' = content r ?c ` set (filter live_slot ?b)" "count_used b' = count_live ?b"
    using rehash_into_spec [OF slots_ok_empty _ _ dist, of k'] k(4,5) k'(4)
    by (auto simp: buckets_fresh slots_ok_def live_slot_entry)
  let ?s = "s\<lparr>s_buckets := b', s_cap := 2 ^ k', s_used := s_size s\<rparr>"
  have "set_ok r ?s" unfolding set_ok_def using k' k(5) b' count_live_no_dead [OF b'(3)] by auto
  moreover have "set_abs r ?s = set_abs r s"
    using b'(4) by (auto simp: set_abs_def slot_keys_def live_slot_entry)
  ultimately show ?thesis using b' k'(3,4) k(3) by (simp add: set_rehash_def)
qed

lemma set_make_spec:
  obtains s where "set_make r c = Inr s" "set_ok r s" "set_abs r s = {}" "s_cmp s = c" "s_size s = 0"
proof
  let ?s = "\<lparr>s_size = 0, s_used = 0, s_cap = 16, s_buckets = replicate 16 EMPTY_SLOT, s_cmp = c\<rparr>"
  show "set_make r c = Inr ?s" by (simp add: set_make_def set_rehash_def rehash_cap_def)
  show "set_ok r ?s"
    using slots_ok_empty [of EMPTY_SLOT DEAD_SLOT _ _ _ 4]
    by (auto simp: set_ok_def intro!: exI [of _ 4])
  show "set_abs r ?s = {}" by (simp only: set_abs_def scm_set.simps buckets_fresh)
qed simp_all

section \<open>Adding and deleting\<close>

text \<open>Storing an element that is not in the set, once the load is below three quarters.\<close>

lemma set_place_ok:
  assumes ok: "set_ok r s" and load: "s_used s * 4 < s_cap s * 3" and x: "hashable r (s_cmp s) x" "live_slot x"
    and new: "content r (s_cmp s) x \<notin> set_abs r s" and h: "val_hash r x (s_cmp s) = Inr h"
    and p: "p < s_cap s" "\<And>q. q < p \<Longrightarrow> s_buckets s ! ((unat h + q) mod s_cap s) \<noteq> EMPTY_SLOT"
    and i: "i = (unat h + p) mod s_cap s" "\<not> live_slot (s_buckets s ! i)"
  defines "s' \<equiv> s\<lparr>s_used := (if s_buckets s ! i = EMPTY_SLOT then s_used s + 1 else s_used s),
            s_buckets := (s_buckets s)[i := x], s_size := s_size s + 1\<rparr>"
  shows "set_ok r s'" "set_abs r s' = insert (content r (s_cmp s) x) (set_abs r s)"
proof -
  let ?b = "s_buckets s" and ?c = "s_cmp s"
  obtain k where k: "4 \<le> k" "k \<le> 30" "s_cap s = 2 ^ k" "buckets_ok r ?c k ?b" "length ?b = 2 ^ k"
    "s_size s = count_live ?b" "s_used s = count_used ?b" "s_used s * 4 \<le> s_cap s * 3"
    using ok by (rule set_okE)
  have len: "i < length ?b" by (simp add: i(1) k(3,5))
  have xe: "entry EMPTY_SLOT DEAD_SLOT x" "x \<noteq> EMPTY_SLOT" using x(2) by (auto simp: live_slot_entry entry_def)
  have b': "buckets_ok r ?c k (?b[i := x])"
    using slots_ok_place [OF k(4) xe(1) x(1), of p] p new by (simp add: home_val_hash [OF h] i(1) k(3) set_abs_def)
  have live': "count_live (?b[i := x]) = count_live ?b + 1"
    using length_filter_update [OF len, of live_slot x] i(2) x(2) by simp
  have used': "count_used (?b[i := x]) = (if ?b ! i = EMPTY_SLOT then count_used ?b + 1 else count_used ?b)"
    using length_filter_update [OF len, of "\<lambda>e. e \<noteq> EMPTY_SLOT" x] xe(2) by (auto split: if_splits)
  have "4 dvd (2 ^ k :: nat)" using k(1) le_imp_power_dvd [of 2 k "2::nat"] by simp
  then have "(s_used s + 1) * 4 \<le> s_cap s * 3" using load k(3) by (auto elim!: dvdE)
  then show "set_ok r s'"
    using k b' live' used' unfolding set_ok_def s'_def by (auto intro!: exI [of _ k])
  show "set_abs r s' = insert (content r ?c x) (set_abs r s)"
    using slot_keys_place [OF len xe(1)] i(2) by (simp add: set_abs_def live_slot_entry s'_def)
qed

lemma set_insert_slot:
  assumes ok: "set_ok r s" and load: "s_used s * 4 < s_cap s * 3" and x: "hashable r (s_cmp s) x" "live_slot x"
    and new: "content r (s_cmp s) x \<notin> set_abs r s"
  obtains h idx s' where "val_hash r x (s_cmp s) = Inr h"
    "probe (s_cap s - 1) (free_step (\<lambda>x. x = EMPTY_SLOT \<or> x = DEAD_SLOT) (s_buckets s)) (s_cap s)
       (unat h AND (s_cap s - 1)) = Inr idx"
    "s' = s\<lparr>s_used := (if s_buckets s ! idx = EMPTY_SLOT then s_used s + 1 else s_used s),
            s_buckets := (s_buckets s)[idx := x], s_size := s_size s + 1\<rparr>"
    "set_ok r s'" "set_abs r s' = insert (content r (s_cmp s) x) (set_abs r s)"
proof -
  let ?b = "s_buckets s"
  obtain k where k: "s_cap s = 2 ^ k" "length ?b = 2 ^ k" "EMPTY_SLOT \<in> set ?b" using ok by (rule set_okE)
  obtain h where h: "val_hash r x (s_cmp s) = Inr h" using x(1) val_hashing.hash_ret by blast
  obtain p where p: "p < 2 ^ k" "\<And>q. q < p \<Longrightarrow> live_slot (?b ! ((unat h + q) mod 2 ^ k))"
      "\<not> live_slot (?b ! ((unat h + p) mod 2 ^ k))"
      "probe (2 ^ k - 1) (free_step (\<lambda>x. x = EMPTY_SLOT \<or> x = DEAD_SLOT) ?b) (2 ^ k) (unat h mod 2 ^ k)
        = Inr ((unat h + p) mod 2 ^ k)"
    by (rule free_probe [where stop = "\<lambda>x. x = EMPTY_SLOT \<or> x = DEAD_SLOT" and i = "unat h", OF k(2,3)])
       (auto simp: live_slot_def)
  have "p < s_cap s" "\<And>q. q < p \<Longrightarrow> ?b ! ((unat h + q) mod s_cap s) \<noteq> EMPTY_SLOT"
    "\<not> live_slot (?b ! ((unat h + p) mod s_cap s))"
    using p(1-3) by (auto simp: k(1) live_slot_def)
  note placed = set_place_ok [OF ok load x new h this(1,2) refl this(3)]
  show thesis
    by (rule that [OF h _ refl placed]) (use p(4) in \<open>simp_all add: k(1) and_mask_nat [simplified]\<close>)
qed

lemma set_abs_card: "set_ok r s \<Longrightarrow> finite (set_abs r s) \<and> card (set_abs r s) = s_size s"
  by (elim set_okE) (auto simp: set_abs_def card_slot_keys live_slot_entry, simp add: slot_keys_def)

lemma set_add_mut_spec:
  assumes ok: "set_ok r s" and small: "s_size s < 2 ^ 28" and x: "hashable r (s_cmp s) x" "live_slot x"
  shows "\<exists>s'. set_add_mut r (Some s) x = Inr s' \<and> set_ok r s' \<and>
    set_abs r s' = insert (content r (s_cmp s) x) (set_abs r s) \<and> s_cmp s' = s_cmp s"
proof (cases "content r (s_cmp s) x \<in> set_abs r s")
  case True
  then show ?thesis
    using ok set_member_spec [OF ok x(1)] by (auto simp: set_add_mut_def checked_set_def)
next
  case False
  have "\<exists>t. (if wrap32 (s_used s * LOAD_DEN) \<ge> wrap32 (s_cap s * LOAD_NUM) then set_rehash r s else Inr s) = Inr t \<and>
    set_ok r t \<and> set_abs r t = set_abs r s \<and> s_cmp t = s_cmp s \<and> s_used t * 4 < s_cap t * 3"
  proof -
    obtain k where k: "k \<le> 30" "s_cap s = 2 ^ k" "s_used s * 4 \<le> s_cap s * 3"
      using ok by (rule set_okE)
    have "(2::nat) ^ k \<le> 2 ^ 30" using k(1) by (intro power_increasing) auto
    then have "wrap32 (s_used s * LOAD_DEN) = s_used s * 4" "wrap32 (s_cap s * LOAD_NUM) = s_cap s * 3"
      using k by (auto simp: wrap32_def LOAD_DEN_def LOAD_NUM_def)
    then show ?thesis using set_rehash_spec [OF ok small] ok by auto
  qed
  then obtain t where t: "set_ok r t" "set_abs r t = set_abs r s" "s_cmp t = s_cmp s" "s_used t * 4 < s_cap t * 3"
    "(if wrap32 (s_used s * LOAD_DEN) \<ge> wrap32 (s_cap s * LOAD_NUM) then set_rehash r s else Inr s) = Inr t"
    by blast
  obtain h idx s' where s': "val_hash r x (s_cmp t) = Inr h"
    "probe (s_cap t - 1) (free_step (\<lambda>x. x = EMPTY_SLOT \<or> x = DEAD_SLOT) (s_buckets t)) (s_cap t)
       (unat h AND (s_cap t - 1)) = Inr idx"
    "s' = t\<lparr>s_used := (if s_buckets t ! idx = EMPTY_SLOT then s_used t + 1 else s_used t),
            s_buckets := (s_buckets t)[idx := x], s_size := s_size t + 1\<rparr>"
    "set_ok r s'" "set_abs r s' = insert (content r (s_cmp t) x) (set_abs r t)"
    by (rule set_insert_slot [OF t(1,4), of x]) (use x False t(2,3) in auto)
  then show ?thesis
    using False t set_member_spec [OF ok x(1)] by (auto simp: set_add_mut_def checked_set_def)
qed

lemma set_delete_mut_spec:
  assumes ok: "set_ok r s" and x: "hashable r (s_cmp s) x"
  shows "\<exists>s'. set_delete_mut r (Some s) x = Inr s' \<and> set_ok r s' \<and>
    set_abs r s' = set_abs r s - {content r (s_cmp s) x} \<and> s_cmp s' = s_cmp s"
proof (cases "content r (s_cmp s) x \<in> set_abs r s")
  case False
  then show ?thesis
    using ok set_find_absent [OF ok x] by (auto simp: set_delete_mut_def checked_set_def)
next
  case True
  let ?b = "s_buckets s"
  obtain i where i: "set_find r s x = Inr (Some i)" "i < length ?b" "live_slot (?b ! i)"
    "content r (s_cmp s) (?b ! i) = content r (s_cmp s) x"
    using set_find_present [OF ok x True] by blast
  obtain k where k: "4 \<le> k" "k \<le> 30" "s_cap s = 2 ^ k" "buckets_ok r (s_cmp s) k ?b" "length ?b = 2 ^ k"
    "s_size s = count_live ?b" "s_used s = count_used ?b" "s_used s * 4 \<le> s_cap s * 3"
    using ok by (rule set_okE)
  let ?s = "s\<lparr>s_buckets := ?b[i := DEAD_SLOT], s_size := s_size s - 1\<rparr>"
  have "buckets_ok r (s_cmp s) k (?b[i := DEAD_SLOT])" using k i by (intro slots_ok_kill) auto
  moreover have "count_live (?b[i := DEAD_SLOT]) = s_size s - 1"
    using length_filter_update [OF i(2), of live_slot DEAD_SLOT] i(3) k(6) by simp
  moreover have "count_used (?b[i := DEAD_SLOT]) = s_used s"
    using length_filter_update [OF i(2), of "\<lambda>e. e \<noteq> EMPTY_SLOT" DEAD_SLOT] i(3) k(7) by (simp add: live_slot_def)
  ultimately have "set_ok r ?s" using k unfolding set_ok_def by auto
  moreover have "set_abs r ?s = set_abs r s - {content r (s_cmp s) x}"
    using slot_keys_kill [OF k(4), of i] i k(5) by (simp add: set_abs_def live_slot_entry)
  ultimately show ?thesis using i(1) by (auto simp: set_delete_mut_def checked_set_def)
qed


section \<open>Set algebra\<close>

lemma set_add_each_spec:
  assumes "set_ok r s" "s_size s + length es \<le> 2 ^ 28"
    and "\<forall>e \<in> set es. hashable r (s_cmp s) e \<and> live_slot e"
  shows "\<exists>s'. set_add_each r s es = Inr s' \<and> set_ok r s' \<and>
    set_abs r s' = set_abs r s \<union> content r (s_cmp s) ` set es \<and> s_cmp s' = s_cmp s"
  using assms
proof (induction es arbitrary: s)
  case Nil
  then show ?case by simp
next
  case (Cons e es)
  have small: "s_size s < 2 ^ 28" using Cons.prems(2) by simp
  have e: "hashable r (s_cmp s) e" "live_slot e" using Cons.prems(3) by simp_all
  obtain t where t: "set_add_mut r (Some s) e = Inr t" "set_ok r t"
    "set_abs r t = insert (content r (s_cmp s) e) (set_abs r s)" "s_cmp t = s_cmp s"
    using set_add_mut_spec [OF Cons.prems(1) small e] by blast
  have "card (set_abs r t) \<le> Suc (card (set_abs r s))"
    using t(3) set_abs_card [OF Cons.prems(1)] by (simp add: card_insert_if)
  then have "s_size t \<le> Suc (s_size s)" using set_abs_card t(2) Cons.prems(1) by metis
  then obtain s' where "set_add_each r t es = Inr s'" "set_ok r s'"
    "set_abs r s' = set_abs r t \<union> content r (s_cmp t) ` set es" "s_cmp s' = s_cmp t"
    using Cons.IH [OF t(2)] Cons.prems t(4) by auto
  with t show ?case by auto
qed

lemma live_elements:
  assumes "set_ok r s"
  shows "\<forall>e \<in> set (filter live_slot (s_buckets s)). hashable r (s_cmp s) e \<and> live_slot e"
    and "content r (s_cmp s) ` set (filter live_slot (s_buckets s)) = set_abs r s"
    and "length (filter live_slot (s_buckets s)) = s_size s"
  using assms by (auto elim!: set_okE simp: slots_ok_def set_abs_def slot_keys_def live_slot_entry)

lemma set_to_list_spec:
  assumes "set_ok r s"
  obtains l where "set_to_list (Some s) = Inr l" "\<forall>e \<in> set l. hashable r (s_cmp s) e \<and> live_slot e"
    "content r (s_cmp s) ` set l = set_abs r s" "length l = s_size s"
proof (rule that [of "rev (filter live_slot (s_buckets s))"])
qed (use live_elements [OF assms] in \<open>simp_all only: set_to_list_def checked_set_def option.case rbind.simps set_rev length_rev\<close>)

lemma set_union_spec:
  assumes "set_ok r a" "set_ok r b" "s_cmp b = s_cmp a" "s_size a + s_size b \<le> 2 ^ 28"
  shows "\<exists>u. set_union r (Some a) (Some b) = Inr u \<and> set_ok r u \<and> set_abs r u = set_abs r a \<union> set_abs r b \<and> s_cmp u = s_cmp a"
proof -
  obtain la where la: "set_to_list (Some a) = Inr la" "\<forall>e \<in> set la. hashable r (s_cmp a) e \<and> live_slot e"
    "content r (s_cmp a) ` set la = set_abs r a" "length la = s_size a" using assms(1) by (rule set_to_list_spec)
  obtain lb where lb: "set_to_list (Some b) = Inr lb" "\<forall>e \<in> set lb. hashable r (s_cmp b) e \<and> live_slot e"
    "content r (s_cmp b) ` set lb = set_abs r b" "length lb = s_size b" using assms(2) by (rule set_to_list_spec)
  obtain u0 where u0: "set_make r (s_cmp a) = Inr u0" "set_ok r u0" "set_abs r u0 = {}" "s_cmp u0 = s_cmp a" "s_size u0 = 0"
    by (rule set_make_spec)
  obtain u1 where u1: "set_add_each r u0 la = Inr u1" "set_ok r u1" "set_abs r u1 = set_abs r a" "s_cmp u1 = s_cmp a"
    using set_add_each_spec [OF u0(2), of la, unfolded u0(3-5)] la assms(4) by auto
  have "s_size u1 = s_size a" using u1(2,3) assms(1) set_abs_card by metis
  then show ?thesis
    using set_add_each_spec [OF u1(2), of lb] u1 lb la u0 assms
    by (auto simp: set_union_def checked_set_def)
qed

lemma set_add_if_spec:
  assumes "set_ok r b" "set_ok r s" "s_cmp b = s_cmp s" "s_size s + length es \<le> 2 ^ 28"
    and "\<forall>e \<in> set es. hashable r (s_cmp s) e \<and> live_slot e"
  shows "\<exists>s'. set_add_if r keep (Some b) s es = Inr s' \<and> set_ok r s' \<and> s_cmp s' = s_cmp s \<and>
    set_abs r s' = set_abs r s \<union> {k \<in> content r (s_cmp s) ` set es. (k \<in> set_abs r b) = keep}"
  using assms
proof (induction es arbitrary: s)
  case Nil
  then show ?case by simp
next
  case (Cons e es)
  let ?k = "content r (s_cmp s) e"
  have m: "set_member r (Some b) e = Inr (?k \<in> set_abs r b)"
    using set_member_spec [of r b e] Cons.prems by simp
  have add: "\<exists>s'. set_add_mut r (Some s) e = Inr s' \<and> set_ok r s' \<and> set_abs r s' = insert ?k (set_abs r s) \<and> s_cmp s' = s_cmp s"
    using Cons.prems by (intro set_add_mut_spec) auto
  obtain t where t: "(if (?k \<in> set_abs r b) = keep then set_add_mut r (Some s) e else Inr s) = Inr t"
    "set_ok r t" "s_cmp t = s_cmp s"
    "set_abs r t = (if (?k \<in> set_abs r b) = keep then insert ?k (set_abs r s) else set_abs r s)"
  proof (cases "(?k \<in> set_abs r b) = keep")
    case True
    with add that show thesis by auto
  next
    case False
    with that [of s] Cons.prems(2) show thesis by simp
  qed
  have "card (set_abs r t) \<le> Suc (card (set_abs r s))"
    using t(4) set_abs_card [OF Cons.prems(2)] by (auto simp: card_insert_if)
  then have "s_size t \<le> Suc (s_size s)" using set_abs_card t(2) Cons.prems(2) by metis
  then obtain s' where "set_add_if r keep (Some b) t es = Inr s'" "set_ok r s'" "s_cmp s' = s_cmp t"
    "set_abs r s' = set_abs r t \<union> {k \<in> content r (s_cmp t) ` set es. (k \<in> set_abs r b) = keep}"
    using Cons.IH [OF Cons.prems(1) t(2)] Cons.prems t(3) by auto
  with t m show ?case by auto
qed

lemma set_filter_spec:
  assumes "set_ok r a" "set_ok r b" "s_cmp b = s_cmp a" "s_size a \<le> 2 ^ 28"
  shows "\<exists>l u u0. set_make r (s_cmp a) = Inr u0 \<and> set_to_list (Some a) = Inr l \<and> set_add_if r keep (Some b) u0 l = Inr u \<and>
    set_ok r u \<and> set_abs r u = {k \<in> set_abs r a. (k \<in> set_abs r b) = keep} \<and> s_cmp u = s_cmp a"
proof -
  obtain la where la: "set_to_list (Some a) = Inr la" "\<forall>e \<in> set la. hashable r (s_cmp a) e \<and> live_slot e"
    "content r (s_cmp a) ` set la = set_abs r a" "length la = s_size a" using assms(1) by (rule set_to_list_spec)
  obtain u0 where u0: "set_make r (s_cmp a) = Inr u0" "set_ok r u0" "set_abs r u0 = {}" "s_cmp u0 = s_cmp a" "s_size u0 = 0"
    by (rule set_make_spec)
  show ?thesis
    using set_add_if_spec [OF assms(2) u0(2), of la keep] la u0 assms by auto
qed

lemma set_intersection_spec:
  assumes "set_ok r a" "set_ok r b" "s_cmp b = s_cmp a" "s_size a \<le> 2 ^ 28"
  shows "\<exists>u. set_intersection r (Some a) (Some b) = Inr u \<and> set_ok r u \<and>
    set_abs r u = set_abs r a \<inter> set_abs r b \<and> s_cmp u = s_cmp a"
  using set_filter_spec [OF assms, of True] by (auto simp: set_intersection_def checked_set_def)

lemma set_difference_spec:
  assumes "set_ok r a" "set_ok r b" "s_cmp b = s_cmp a" "s_size a \<le> 2 ^ 28"
  shows "\<exists>u. set_difference r (Some a) (Some b) = Inr u \<and> set_ok r u \<and>
    set_abs r u = set_abs r a - set_abs r b \<and> s_cmp u = s_cmp a"
  using set_filter_spec [OF assms, of False] by (auto simp: set_difference_def checked_set_def)

lemma set_sym_diff_spec:
  assumes "set_ok r a" "set_ok r b" "s_cmp b = s_cmp a" "s_size a + s_size b \<le> 2 ^ 28"
  shows "\<exists>u. set_sym_diff r (Some a) (Some b) = Inr u \<and> set_ok r u \<and>
    set_abs r u = (set_abs r a - set_abs r b) \<union> (set_abs r b - set_abs r a) \<and> s_cmp u = s_cmp a"
proof -
  obtain x where x: "set_difference r (Some a) (Some b) = Inr x" "set_ok r x"
    "set_abs r x = set_abs r a - set_abs r b" "s_cmp x = s_cmp a"
    using set_difference_spec [OF assms(1-3)] assms(4) by auto
  obtain y where y: "set_difference r (Some b) (Some a) = Inr y" "set_ok r y"
    "set_abs r y = set_abs r b - set_abs r a" "s_cmp y = s_cmp a"
    using set_difference_spec [OF assms(2,1)] assms(3,4) by auto
  have "card (set_abs r x) \<le> card (set_abs r a)" "card (set_abs r y) \<le> card (set_abs r b)"
    unfolding x(3) y(3) using set_abs_card [OF assms(1)] set_abs_card [OF assms(2)] by (meson Diff_subset card_mono)+
  then have "s_size x + s_size y \<le> 2 ^ 28"
    using x(2) y(2) assms(1,2,4) set_abs_card by (metis add_mono order_trans)
  then show ?thesis using set_union_spec [OF x(2) y(2)] x y by (auto simp: set_sym_diff_def)
qed

lemma all_members_spec:
  assumes "set_ok r b" "\<forall>e \<in> set es. hashable r (s_cmp b) e"
  shows "all_members r (Some b) es = Inr (content r (s_cmp b) ` set es \<subseteq> set_abs r b)"
  using assms(2) by (induction es) (auto simp: set_member_spec [OF assms(1)])

lemma set_subset_spec:
  assumes "set_ok r a" "set_ok r b" "s_cmp b = s_cmp a"
  shows "set_subset r (Some a) (Some b) = Inr (set_abs r a \<subseteq> set_abs r b)"
proof -
  obtain la where "set_to_list (Some a) = Inr la" "\<forall>e \<in> set la. hashable r (s_cmp a) e \<and> live_slot e"
    "content r (s_cmp a) ` set la = set_abs r a" using assms(1) by (rule set_to_list_spec)
  then show ?thesis
    using all_members_spec [OF assms(2), of la] assms(3) by (simp add: set_subset_def checked_set_def)
qed

lemma set_equal_spec:
  assumes "set_ok r a" "set_ok r b" "s_cmp b = s_cmp a"
  shows "set_equal r (Some a) (Some b) = Inr (set_abs r a = set_abs r b)"
proof -
  have "s_size a = s_size b \<Longrightarrow> set_abs r a \<subseteq> set_abs r b \<longleftrightarrow> set_abs r a = set_abs r b"
    using set_abs_card [OF assms(1)] set_abs_card [OF assms(2)] by (metis card_subset_eq order_refl)
  moreover have "set_abs r a = set_abs r b \<Longrightarrow> s_size a = s_size b"
    using set_abs_card [OF assms(1)] set_abs_card [OF assms(2)] by metis
  ultimately show ?thesis
    using set_subset_spec [OF assms] by (auto simp: set_equal_def checked_set_def)
qed

lemma list_to_set_spec:
  assumes "length l \<le> 2 ^ 28" "\<forall>e \<in> set l. hashable r c e \<and> live_slot e"
  shows "\<exists>s. list_to_set r l c = Inr s \<and> set_ok r s \<and> set_abs r s = content r c ` set l \<and> s_cmp s = c"
proof -
  obtain u where u: "set_make r c = Inr u" "set_ok r u" "set_abs r u = {}" "s_cmp u = c" "s_size u = 0"
    by (rule set_make_spec)
  then show ?thesis using set_add_each_spec [OF u(2), of l] assms by (auto simp: list_to_set_def)
qed

lemma set_copy_spec:
  assumes "set_ok r s" "s_size s \<le> 2 ^ 28"
  shows "\<exists>t. set_copy r (Some s) = Inr t \<and> set_ok r t \<and> set_abs r t = set_abs r s \<and> s_cmp t = s_cmp s"
proof -
  obtain l where "set_to_list (Some s) = Inr l" "\<forall>e \<in> set l. hashable r (s_cmp s) e \<and> live_slot e"
    "content r (s_cmp s) ` set l = set_abs r s" "length l = s_size s" using assms(1) by (rule set_to_list_spec)
  then show ?thesis using list_to_set_spec [of l r "s_cmp s"] assms(2) by (auto simp: set_copy_def checked_set_def)
qed

lemma set_add_spec:
  assumes "set_ok r s" "s_size s < 2 ^ 28" "hashable r (s_cmp s) x" "live_slot x"
  shows "\<exists>t. set_add r (Some s) x = Inr t \<and> set_ok r t \<and>
    set_abs r t = insert (content r (s_cmp s) x) (set_abs r s) \<and> s_cmp t = s_cmp s"
proof -
  obtain u where u: "set_make r (s_cmp s) = Inr u" "set_ok r u" "set_abs r u = {}" "s_cmp u = s_cmp s" "s_size u = 0"
    by (rule set_make_spec)
  obtain v where v: "set_add_each r u (filter live_slot (s_buckets s)) = Inr v" "set_ok r v"
    "set_abs r v = set_abs r s" "s_cmp v = s_cmp s"
  proof -
    have "s_size u + length (filter live_slot (s_buckets s)) \<le> 2 ^ 28"
      using live_elements(3) [OF assms(1)] u(5) assms(2) by simp
    from set_add_each_spec [OF u(2) this, unfolded u(3,4), OF live_elements(1) [OF assms(1)]]
    show thesis unfolding live_elements(2) [OF assms(1)] using that by auto
  qed
  have "s_size v = s_size s" using v assms(1) set_abs_card by metis
  then show ?thesis
    using set_add_mut_spec [OF v(2), of x] u v assms by (auto simp: set_add_def checked_set_def)
qed


section \<open>The contract\<close>

abbreviation element :: "rt \<Rightarrow> set_cmp \<Rightarrow> val \<Rightarrow> bool" where
  "element r c x \<equiv> hashable r c x \<and> live_slot x"

text \<open>A hash set with the comparator \<open>c\<close> promises the contract of a bounded set.\<close>

interpretation hset: bounded_set "\<lambda>s. set_ok r s \<and> s_cmp s = c" "set_abs r" "content r c" "element r c"
  "\<lambda>s. set_add_mut r (Some s)" "\<lambda>s. set_delete_mut r (Some s)" "\<lambda>s. set_member r (Some s)" "2 ^ 28"
  for r c
proof
  fix s x assume ok: "set_ok r s \<and> s_cmp s = c"
  then show "finite (set_abs r s)" using set_abs_card by blast
  assume x: "element r c x"
  show "set_member r (Some s) x = Inr (content r c x \<in> set_abs r s)"
    using set_member_spec [of r s x] ok x by simp
  show "\<exists>s'. set_delete_mut r (Some s) x = Inr s' \<and> (set_ok r s' \<and> s_cmp s' = c) \<and> set_abs r s' = set_abs r s - {content r c x}"
    using set_delete_mut_spec [of r s x] ok x by auto
  assume "card (set_abs r s) < 2 ^ 28"
  then have "s_size s < 2 ^ 28" using set_abs_card ok by metis
  then show "\<exists>s'. set_add_mut r (Some s) x = Inr s' \<and> (set_ok r s' \<and> s_cmp s' = c) \<and> set_abs r s' = insert (content r c x) (set_abs r s)"
    using set_add_mut_spec [of r s x] ok x by auto
qed

section \<open>Properties\<close>

text \<open>A small runtime for the concrete instances: an empty heap and room for 64 stack frames.\<close>

definition sample_rt :: rt where
  "sample_rt = \<lparr>heap = (\<lambda>_. None), stack_left = 64, sx_equal = (\<lambda>_ _. False), mpz_hex = (\<lambda>_. [])\<rparr>"

lemma fixnum_element: "vis_fixnum v \<Longrightarrow> element sample_rt c v"
  by (auto simp: hashable_def sample_rt_def live_slot_def EMPTY_SLOT_def DEAD_SLOT_def
      vis_fixnum_def VTAG_FIX_def VTAG_MASK_def vtag_def imm_defs eval_nat_numeral)



text \<open>
  C20: On well-formed sets of one comparator the operations of the set algebra return, and give the
  union, intersection, difference and symmetric difference of the sets their arguments represent, in a
  well-formed set.
\<close>

theorem set_algebra:
  assumes "set_ok r a" "set_ok r b" "s_cmp b = s_cmp a" "s_size a + s_size b \<le> 2 ^ 28"
    and "(f, g) \<in> {(set_union, (\<union>)), (set_intersection, (\<inter>)), (set_difference, (-)),
      (set_sym_diff, \<lambda>A B. (A - B) \<union> (B - A))}"
  shows "\<exists>u. f r (Some a) (Some b) = Inr u \<and> set_ok r u \<and> set_abs r u = g (set_abs r a) (set_abs r b) \<and> s_cmp u = s_cmp a"
proof -
  have a: "s_size a \<le> 2 ^ 28" using assms(4) by simp
  show ?thesis
    using assms(5) set_union_spec [OF assms(1-4)] set_sym_diff_spec [OF assms(1-4)]
      set_intersection_spec [OF assms(1-3) a] set_difference_spec [OF assms(1-3) a]
    by (elim insertE emptyE) simp_all
qed

theorem set_algebra_witness:
  "\<exists>a b u. list_to_set sample_rt [vfix 1, vfix 2] SET_CMP_EQV = Inr a \<and> list_to_set sample_rt [vfix 2, vfix 3] SET_CMP_EQV = Inr b \<and>
    set_intersection sample_rt (Some a) (Some b) = Inr u \<and> set_abs sample_rt u = set_abs sample_rt a \<inter> set_abs sample_rt b"
proof -
  have f: "vis_fixnum (vfix 1)" "vis_fixnum (vfix 2)" "vis_fixnum (vfix 3)" by code_simp+
  note e = fixnum_element [OF f(1)] fixnum_element [OF f(2)] fixnum_element [OF f(3)]
  obtain a where a: "list_to_set sample_rt [vfix 1, vfix 2] SET_CMP_EQV = Inr a" "set_ok sample_rt a" "s_cmp a = SET_CMP_EQV"
      "set_abs sample_rt a = content sample_rt SET_CMP_EQV ` set [vfix 1, vfix 2]"
    using list_to_set_spec [of "[vfix 1, vfix 2]" sample_rt SET_CMP_EQV] e by auto
  obtain b where b: "list_to_set sample_rt [vfix 2, vfix 3] SET_CMP_EQV = Inr b" "set_ok sample_rt b" "s_cmp b = SET_CMP_EQV"
      "set_abs sample_rt b = content sample_rt SET_CMP_EQV ` set [vfix 2, vfix 3]"
    using list_to_set_spec [of "[vfix 2, vfix 3]" sample_rt SET_CMP_EQV] e by auto
  have "s_size a \<le> 2" "s_size b \<le> 2"
    using set_abs_card [OF a(2)] set_abs_card [OF b(2)] a(4) b(4) by (simp_all add: card_insert_if split: if_splits)
  then show ?thesis
    using set_algebra [of sample_rt a b set_intersection "(\<inter>)"] a b by auto
qed

text \<open>
  \<open>set-subset?\<close> and \<open>set=?\<close> on well-formed sets of one comparator return and decide inclusion and
  equality of the sets represented.
\<close>

theorem set_comparisons:
  assumes "set_ok r a" "set_ok r b" "s_cmp b = s_cmp a"
  shows "set_subset r (Some a) (Some b) = Inr (set_abs r a \<subseteq> set_abs r b) \<and>
    set_equal r (Some a) (Some b) = Inr (set_abs r a = set_abs r b)"
  using set_subset_spec [OF assms] set_equal_spec [OF assms] by blast

theorem set_comparisons_witness:
  "\<exists>a. set_make sample_rt SET_CMP_EQV = Inr a \<and> set_equal sample_rt (Some a) (Some a) = Inr True"
proof -
  obtain a where "set_make sample_rt SET_CMP_EQV = Inr a" "set_ok sample_rt a" by (rule set_make_spec)
  then show ?thesis using set_comparisons [of sample_rt a a] by auto
qed

text \<open>
  C21: The tombstone is the value of the eof object, so the eof object cannot be an element:
  \<open>set-add!\<close> of it to a well-formed set returns and counts it, and \<open>set-member?\<close> still denies it.
\<close>

theorem set_add_eof:
  assumes "set_ok r s" "s_used s * 4 < s_cap s * 3" "0 < stack_left r"
  shows "\<exists>s'. set_add_mut r (Some s) V_EOF = Inr s' \<and> set_size (Some s') = Inr (s_size s + 1) \<and>
    set_member r (Some s') V_EOF = Inr False"
proof -
  let ?b = "s_buckets s" and ?c = "s_cmp s"
  have x: "hashable r ?c V_EOF" "content r ?c V_EOF = KWord V_EOF"
    using assms(3) by (auto simp: hashable_def content_def gr0_conv_Suc vis_imm_def vtag_def imm_defs VTAG_MASK_def VTAG_IMM_def)
  have free: "KWord V_EOF \<notin> bucket_keys r ?c b'" if "\<forall>e \<in> set b'. live_slot e \<longrightarrow> hashable r ?c e" for b'
    using that vkey_Word_self by (force simp: slot_keys_def live_slot_entry entry_def DEAD_SLOT_def content_def hashable_def)
  obtain k where k: "s_cap s = 2 ^ k" "buckets_ok r ?c k ?b" "length ?b = 2 ^ k" "EMPTY_SLOT \<in> set ?b" "k \<le> 30" "4 \<le> k"
    "s_used s = count_used ?b" using assms(1) by (rule set_okE)
  have new: "content r ?c V_EOF \<notin> set_abs r s"
    using free [of ?b] k(2) by (auto simp: x(2) set_abs_def slots_ok_def live_slot_entry)
  obtain h where h: "val_hash r V_EOF ?c = Inr h" using x(1) val_hashing.hash_ret by blast
  obtain p where p: "probe (2 ^ k - 1) (free_step (\<lambda>x. x = EMPTY_SLOT \<or> x = DEAD_SLOT) ?b) (2 ^ k) (unat h mod 2 ^ k)
      = Inr ((unat h + p) mod 2 ^ k)"
    by (rule free_probe [where stop = "\<lambda>x. x = EMPTY_SLOT \<or> x = DEAD_SLOT" and i = "unat h", OF k(3,4)]) auto
  define i where "i = (unat h + p) mod 2 ^ k"
  have i: "i < length ?b" "i < 2 ^ k" by (simp_all add: i_def k(3))
  define s' where "s' = s\<lparr>s_used := (if ?b ! i = EMPTY_SLOT then s_used s + 1 else s_used s),
    s_buckets := ?b[i := V_EOF], s_size := s_size s + 1\<rparr>"
  have "(2::nat) ^ k \<le> 2 ^ 30" using k(5) by (intro power_increasing) auto
  then have "\<not> wrap32 (s_used s * LOAD_DEN) \<ge> wrap32 (s_cap s * LOAD_NUM)"
    using assms(2) k(1) by (simp add: wrap32_def LOAD_DEN_def LOAD_NUM_def)
  then have add: "set_add_mut r (Some s) V_EOF = Inr s'"
    using set_member_spec [OF assms(1) x(1)] new h p
    by (simp add: set_add_mut_def checked_set_def k(1) and_mask_nat [simplified] s'_def i_def)
  have ok': "buckets_ok r ?c k (?b[i := V_EOF])"
    using slots_ok_kill [OF k(2) i(2)] by (simp add: DEAD_SLOT_def EMPTY_SLOT_def imm_defs)
  have "count_used (?b[i := V_EOF]) \<le> count_used ?b + 1"
    using length_filter_update [OF i(1), of "\<lambda>e. e \<noteq> EMPTY_SLOT" V_EOF] by (auto split: if_splits)
  moreover have "4 dvd (2 ^ k :: nat)" using k(6) le_imp_power_dvd [of 2 k "2::nat"] by simp
  then have "s_used s + 1 < 2 ^ k" using assms(2) k(1) by (auto elim!: dvdE)
  ultimately have "count_used (?b[i := V_EOF]) < length (?b[i := V_EOF])" using k(3,7) by simp
  then have "EMPTY_SLOT \<in> set (?b[i := V_EOF])"
    using filter_short_ex [of "\<lambda>e. e \<noteq> EMPTY_SLOT"] by (metis nth_mem)
  moreover have "content r ?c V_EOF \<notin> bucket_keys r ?c (?b[i := V_EOF])"
    using free [of "?b[i := V_EOF]"] ok' by (auto simp: x(2) slots_ok_def live_slot_entry)
  ultimately have "set_find r s' V_EOF = Inr None"
    using ok' x(1) k(1) by (intro set_find_none [where k = k]) (auto simp: s'_def set_abs_def)
  then show ?thesis using add by (simp add: set_member_def set_size_def checked_set_def s'_def)
qed

theorem set_add_eof_witness:
  "\<exists>s s'. set_make sample_rt SET_CMP_EQV = Inr s \<and> set_add_mut sample_rt (Some s) V_EOF = Inr s' \<and>
    set_size (Some s') = Inr 1 \<and> set_member sample_rt (Some s') V_EOF = Inr False"
proof -
  obtain s where s: "set_make sample_rt SET_CMP_EQV = Inr s" "set_ok sample_rt s" "s_size s = 0"
    by (rule set_make_spec)
  then have "s_used s = 0" "s_cap s = 16" by (auto simp: set_make_def set_rehash_def rehash_cap_def)
  then show ?thesis using set_add_eof [of sample_rt s] s by (auto simp: sample_rt_def)
qed

end
