(* ===== verification/Hash_Table.thy ===== *)
theory Hash_Table
  imports Hash_Set
begin

text \<open>
  The hash tables of \<open>src/src/set.c\<close>: parallel arrays of keys and values, probed like the sets. An
  insertion walks the whole chain to its empty slot before it may reuse the first tombstone it passed.
  The lemmas refine a table to a finite map from key contents to values.
\<close>

section \<open>Representation and operations\<close>

record hashtable =
  h_size :: nat
  h_used :: nat
  h_cap :: nat
  h_keys :: "val list"
  h_vals :: "val list"
  h_cmp :: set_cmp

fun rehash_pairs :: "rt \<Rightarrow> set_cmp \<Rightarrow> nat \<Rightarrow> (val \<times> val) list \<Rightarrow> val list \<Rightarrow> val list \<Rightarrow> (val list \<times> val list) res" where
  "rehash_pairs r c new_cap [] nk nv = Inr (nk, nv)"
| "rehash_pairs r c new_cap ((key, value) # kvs) nk nv =
     (if key = EMPTY_SLOT \<or> key = DEAD_SLOT then rehash_pairs r c new_cap kvs nk nv
      else rbind (val_hash r key c) (\<lambda>h.
           rbind (probe (new_cap - 1) (free_step (\<lambda>x. x = EMPTY_SLOT) nk) new_cap
                    (unat h AND (new_cap - 1))) (\<lambda>idx.
           rehash_pairs r c new_cap kvs (nk[idx := key]) (nv[idx := value]))))"

definition hash_rehash :: "rt \<Rightarrow> hashtable \<Rightarrow> hashtable res" where
  "hash_rehash r h =
     (let new_cap = rehash_cap (h_cap h) (h_size h)
      in rbind (rehash_pairs r (h_cmp h) new_cap (zip (h_keys h) (h_vals h))
                  (replicate new_cap EMPTY_SLOT) (replicate new_cap V_VOID)) (\<lambda>(nk, nv).
         Inr (h\<lparr>h_keys := nk, h_vals := nv, h_cap := new_cap, h_used := h_size h\<rparr>)))"

definition hash_make :: "rt \<Rightarrow> set_cmp \<Rightarrow> hashtable res" where
  "hash_make r c = hash_rehash r \<lparr>h_size = 0, h_used = 0, h_cap = 0, h_keys = [], h_vals = [], h_cmp = c\<rparr>"

text \<open>
  The chain walk of \<open>hash_set\<close>: \<open>Found\<close> the key's slot, or the slot to \<open>Place\<close> it in. \<open>dead\<close> is the
  first tombstone passed (\<open>have_dead\<close> and \<open>dead_idx\<close>); the flag says that the slot was empty.
\<close>

datatype walk = Found nat | Place nat bool

fun hash_walk :: "rt \<Rightarrow> set_cmp \<Rightarrow> nat \<Rightarrow> val list \<Rightarrow> val \<Rightarrow> nat \<Rightarrow> nat \<Rightarrow> nat option \<Rightarrow> walk res" where
  "hash_walk r c msk keys key 0 idx dead = Inl Diverges"
| "hash_walk r c msk keys key (Suc n) idx dead =
     (if keys ! idx = EMPTY_SLOT then
        Inr (case dead of Some d \<Rightarrow> Place d False | None \<Rightarrow> Place idx True)
      else if keys ! idx = DEAD_SLOT then
        hash_walk r c msk keys key n ((idx + 1) AND msk) (case dead of None \<Rightarrow> Some idx | Some d \<Rightarrow> Some d)
      else rbind (slot_matches r (keys ! idx) key c) (\<lambda>e.
        if e then Inr (Found idx) else hash_walk r c msk keys key n ((idx + 1) AND msk) dead))"

definition hash_set :: "rt \<Rightarrow> hashtable \<Rightarrow> val \<Rightarrow> val \<Rightarrow> hashtable res" where
  "hash_set r h key value =
     rbind (if wrap32 (h_used h * LOAD_DEN) \<ge> wrap32 (h_cap h * LOAD_NUM) then hash_rehash r h else Inr h) (\<lambda>h.
     rbind (val_hash r key (h_cmp h)) (\<lambda>hc.
     rbind (hash_walk r (h_cmp h) (h_cap h - 1) (h_keys h) key (h_cap h) (unat hc AND (h_cap h - 1)) None) (\<lambda>w.
     Inr (case w of
       Found idx \<Rightarrow> h\<lparr>h_vals := (h_vals h)[idx := value]\<rparr>
     | Place idx fresh \<Rightarrow>
         h\<lparr>h_used := (if fresh then h_used h + 1 else h_used h),
           h_keys := (h_keys h)[idx := key], h_vals := (h_vals h)[idx := value],
           h_size := h_size h + 1\<rparr>))))"

text \<open>The search loop of \<open>hash_ref\<close> and \<open>hash_delete\<close>.\<close>

definition hash_find :: "rt \<Rightarrow> hashtable \<Rightarrow> val \<Rightarrow> nat option res" where
  "hash_find r h key =
     rbind (val_hash r key (h_cmp h)) (\<lambda>hc.
       probe (h_cap h - 1)
         (find_step EMPTY_SLOT DEAD_SLOT (\<lambda>e. slot_matches r e key (h_cmp h)) (h_keys h))
         (h_cap h) (unat hc AND (h_cap h - 1)))"

definition hash_ref :: "rt \<Rightarrow> hashtable \<Rightarrow> val \<Rightarrow> val \<Rightarrow> val res" where
  "hash_ref r h key def =
     rbind (hash_find r h key) (\<lambda>f. Inr (case f of None \<Rightarrow> def | Some idx \<Rightarrow> h_vals h ! idx))"

definition hash_has :: "rt \<Rightarrow> hashtable \<Rightarrow> val \<Rightarrow> bool res" where
  "hash_has r h key = rbind (hash_ref r h key V_UNDEF) (\<lambda>v. Inr (v \<noteq> V_UNDEF))"

definition hash_delete :: "rt \<Rightarrow> hashtable \<Rightarrow> val \<Rightarrow> hashtable res" where
  "hash_delete r h key =
     rbind (hash_find r h key) (\<lambda>f.
       Inr (case f of None \<Rightarrow> h
            | Some idx \<Rightarrow> h\<lparr>h_keys := (h_keys h)[idx := DEAD_SLOT], h_size := h_size h - 1\<rparr>))"

definition hash_to_alist :: "hashtable \<Rightarrow> (val \<times> val) list" where
  "hash_to_alist h = rev (filter (\<lambda>(k, v). live_slot k) (zip (h_keys h) (h_vals h)))"

definition hash_keys :: "hashtable \<Rightarrow> val list" where
  "hash_keys h = rev (filter live_slot (h_keys h))"

definition hash_values :: "hashtable \<Rightarrow> val list" where
  "hash_values h = rev (map snd (filter (\<lambda>(k, v). live_slot k) (zip (h_keys h) (h_vals h))))"

definition hash_size :: "hashtable \<Rightarrow> nat" where
  "hash_size h = h_size h"

section \<open>Invariant and abstraction\<close>

text \<open>What the key array without its counters maps to: contents of keys to values.\<close>

definition pair_map :: "rt \<Rightarrow> set_cmp \<Rightarrow> val list \<Rightarrow> val list \<Rightarrow> skey \<rightharpoonup> val" where
  "pair_map r c ks vs = map_of (map (\<lambda>(k, v). (content r c k, v)) (filter (\<lambda>(k, v). live_slot k) (zip ks vs)))"

definition hash_abs :: "rt \<Rightarrow> hashtable \<Rightarrow> skey \<rightharpoonup> val" where
  "hash_abs r h = pair_map r (h_cmp h) (h_keys h) (h_vals h)"

definition hash_ok :: "rt \<Rightarrow> hashtable \<Rightarrow> bool" where
  "hash_ok r h \<longleftrightarrow>
     (\<exists>k. 4 \<le> k \<and> k \<le> 30 \<and> h_cap h = 2 ^ k \<and> buckets_ok r (h_cmp h) k (h_keys h)) \<and>
     length (h_vals h) = length (h_keys h) \<and>
     h_size h = count_live (h_keys h) \<and> h_used h = count_used (h_keys h) \<and>
     h_used h * 4 \<le> h_cap h * 3"

text \<open>The key array of a table is a set; what is proved of the sets' searches carries over.\<close>

definition key_set :: "hashtable \<Rightarrow> scm_set" where
  "key_set h = \<lparr>s_size = h_size h, s_used = h_used h, s_cap = h_cap h, s_buckets = h_keys h, s_cmp = h_cmp h\<rparr>"

lemma key_set_simps [simp]:
  "s_size (key_set h) = h_size h" "s_used (key_set h) = h_used h" "s_cap (key_set h) = h_cap h"
  "s_buckets (key_set h) = h_keys h" "s_cmp (key_set h) = h_cmp h"
  by (simp_all add: key_set_def)

lemma hash_ok_key_set: "hash_ok r h \<longleftrightarrow> set_ok r (key_set h) \<and> length (h_vals h) = length (h_keys h)"
  by (auto simp: hash_ok_def set_ok_def)

lemma hash_find_key_set: "hash_find r h key = set_find r (key_set h) key"
  by (simp add: hash_find_def set_find_def)

lemma filter_zip_keys:
  "length vs = length ks \<Longrightarrow> map fst (filter (\<lambda>(k, v). P k) (zip ks vs)) = filter P ks"
  by (induction ks vs rule: list_induct2') auto

lemma pair_map_iff:
  assumes "buckets_ok r c k ks" "length vs = length ks"
  shows "pair_map r c ks vs x = Some v \<longleftrightarrow>
    (\<exists>i < length ks. live_slot (ks ! i) \<and> content r c (ks ! i) = x \<and> vs ! i = v)"
proof -
  let ?ps = "filter (\<lambda>(k, v). live_slot k) (zip ks vs)"
  have keys: "map fst ?ps = filter live_slot ks" using assms(2) by (rule filter_zip_keys)
  have "map fst (map (\<lambda>(k, v). (content r c k, v)) ?ps) = map (content r c) (map fst ?ps)" by auto
  then have "distinct (map fst (map (\<lambda>(k, v). (content r c k, v)) ?ps))"
    using slots_ok_distinct [OF assms(1), folded live_slot_entry] by (simp only: keys)
  then have "pair_map r c ks vs x = Some v \<longleftrightarrow> (x, v) \<in> set (map (\<lambda>(k, v). (content r c k, v)) ?ps)"
    unfolding pair_map_def by (simp only: map_of_eq_Some_iff)
  also have "\<dots> \<longleftrightarrow> (\<exists>i < length ks. live_slot (ks ! i) \<and> content r c (ks ! i) = x \<and> vs ! i = v)"
    using assms(2) by (auto simp: set_zip)
  finally show ?thesis .
qed

lemma map_ext_iff: "(\<And>x v. m x = Some v \<longleftrightarrow> n x = Some v) \<Longrightarrow> m = n"
  by (rule ext) (metis option.exhaust)

lemma pair_map_dom:
  assumes "buckets_ok r c k ks" "length vs = length ks"
  shows "dom (pair_map r c ks vs) = bucket_keys r c ks"
  using pair_map_iff [OF assms] by (auto simp: dom_def slot_keys_nth live_slot_entry)

lemma pair_map_update:
  assumes "buckets_ok r c k ks" "length vs = length ks" "i < length ks" "live_slot (ks ! i)"
  shows "pair_map r c ks (vs[i := v]) = (pair_map r c ks vs)(content r c (ks ! i) \<mapsto> v)"
proof (rule map_ext_iff)
  fix x w
  have uniq: "j = i" if "j < length ks" "live_slot (ks ! j)" "content r c (ks ! j) = content r c (ks ! i)" for j
    using assms that by (auto simp: slots_ok_def live_slot_entry)
  show "pair_map r c ks (vs[i := v]) x = Some w \<longleftrightarrow> ((pair_map r c ks vs)(content r c (ks ! i) \<mapsto> v)) x = Some w"
  proof (cases "x = content r c (ks ! i)")
    case True
    have "pair_map r c ks (vs[i := v]) x = Some v"
      using assms True by (subst pair_map_iff [OF assms(1)]) (auto intro!: exI [of _ i])
    with True show ?thesis by simp
  next
    case False
    then have "(\<exists>j < length ks. live_slot (ks ! j) \<and> content r c (ks ! j) = x \<and> vs[i := v] ! j = w) \<longleftrightarrow>
      (\<exists>j < length ks. live_slot (ks ! j) \<and> content r c (ks ! j) = x \<and> vs ! j = w)"
      by (metis nth_list_update_neq)
    with False assms(2) show ?thesis
      using pair_map_iff [OF assms(1), of "vs[i := v]"] pair_map_iff [OF assms(1,2)] by simp
  qed
qed

lemma pair_map_place:
  assumes "buckets_ok r c k ks" "length vs = length ks" "i < length ks" "\<not> live_slot (ks ! i)"
    and "buckets_ok r c k (ks[i := x])" "live_slot x" "content r c x \<notin> bucket_keys r c ks"
  shows "pair_map r c (ks[i := x]) (vs[i := v]) = (pair_map r c ks vs)(content r c x \<mapsto> v)"
proof (rule map_ext_iff)
  fix y w
  have new: "content r c (ks ! j) \<noteq> content r c x" if "j < length ks" "live_slot (ks ! j)" for j
    using assms(7) that by (auto simp: slot_keys_nth live_slot_entry)
  have "pair_map r c (ks[i := x]) (vs[i := v]) y = Some w \<longleftrightarrow>
    (\<exists>j < length ks. live_slot (ks[i := x] ! j) \<and> content r c (ks[i := x] ! j) = y \<and> vs[i := v] ! j = w)"
    using pair_map_iff [OF assms(5), of "vs[i := v]"] assms(2) by simp
  also have "\<dots> \<longleftrightarrow> (y = content r c x \<and> w = v \<or>
      (\<exists>j < length ks. live_slot (ks ! j) \<and> content r c (ks ! j) = y \<and> vs ! j = w))"
  proof -
    have "(\<exists>j < length ks. live_slot (ks[i := x] ! j) \<and> content r c (ks[i := x] ! j) = y \<and> vs[i := v] ! j = w) \<longleftrightarrow>
      (\<exists>j < length ks. if j = i then content r c x = y \<and> v = w
         else live_slot (ks ! j) \<and> content r c (ks ! j) = y \<and> vs ! j = w)"
      using assms(2,3,6) by (intro ex_cong1) (auto simp: nth_list_update)
    then show ?thesis using assms(3,4) by (auto split: if_splits)
  qed
  also have "\<dots> \<longleftrightarrow> ((pair_map r c ks vs)(content r c x \<mapsto> v)) y = Some w"
    using pair_map_iff [OF assms(1,2), of y w] new by auto
  finally show "pair_map r c (ks[i := x]) (vs[i := v]) y = Some w \<longleftrightarrow> ((pair_map r c ks vs)(content r c x \<mapsto> v)) y = Some w" .
qed

lemma pair_map_kill:
  assumes "buckets_ok r c k ks" "length vs = length ks" "i < length ks" "live_slot (ks ! i)"
  shows "pair_map r c (ks[i := DEAD_SLOT]) vs = (pair_map r c ks vs)(content r c (ks ! i) := None)"
proof (rule map_ext_iff)
  fix y w
  have ok: "buckets_ok r c k (ks[i := DEAD_SLOT])"
    using assms by (intro slots_ok_kill) (auto simp: slots_ok_def)
  have uniq: "j = i" if "j < length ks" "live_slot (ks ! j)" "content r c (ks ! j) = content r c (ks ! i)" for j
    using assms that by (auto simp: slots_ok_def live_slot_entry)
  have "pair_map r c (ks[i := DEAD_SLOT]) vs y = Some w \<longleftrightarrow>
    (\<exists>j < length ks. j \<noteq> i \<and> live_slot (ks ! j) \<and> content r c (ks ! j) = y \<and> vs ! j = w)"
    unfolding pair_map_iff [OF ok, of vs, simplified, OF assms(2)]
    by (intro ex_cong1) (use assms(3) in \<open>auto simp: nth_list_update split: if_splits\<close>)
  then show "pair_map r c (ks[i := DEAD_SLOT]) vs y = Some w \<longleftrightarrow>
      ((pair_map r c ks vs)(content r c (ks ! i) := None)) y = Some w"
    using pair_map_iff [OF assms(1,2), of y w] uniq by auto
qed


section \<open>Looking up\<close>

lemma hash_abs_dom: "hash_ok r h \<Longrightarrow> dom (hash_abs r h) = set_abs r (key_set h)"
proof -
  assume "hash_ok r h"
  then obtain k where "buckets_ok r (h_cmp h) k (h_keys h)" "length (h_vals h) = length (h_keys h)"
    by (auto simp: hash_ok_def)
  then show ?thesis by (simp add: hash_abs_def set_abs_def pair_map_dom)
qed

lemma hash_find_spec:
  assumes "hash_ok r h" "hashable r (h_cmp h) x"
  shows "\<exists>f. hash_find r h x = Inr f \<and>
    (case f of None \<Rightarrow> hash_abs r h (content r (h_cmp h) x) = None
     | Some i \<Rightarrow> i < length (h_keys h) \<and> live_slot (h_keys h ! i) \<and>
         content r (h_cmp h) (h_keys h ! i) = content r (h_cmp h) x \<and>
         hash_abs r h (content r (h_cmp h) x) = Some (h_vals h ! i))"
proof -
  have ok: "set_ok r (key_set h)" and len: "length (h_vals h) = length (h_keys h)"
    using assms(1) by (auto simp: hash_ok_key_set)
  obtain k where k: "buckets_ok r (h_cmp h) k (h_keys h)" using assms(1) by (auto simp: hash_ok_def)
  show ?thesis
  proof (cases "content r (h_cmp h) x \<in> set_abs r (key_set h)")
    case False
    then have "hash_abs r h (content r (h_cmp h) x) = None" using hash_abs_dom [OF assms(1)] by auto
    with False show ?thesis using set_find_absent [OF ok, of x] assms(2) by (simp add: hash_find_key_set)
  next
    case True
    obtain i where "set_find r (key_set h) x = Inr (Some i)" "i < length (h_keys h)" "live_slot (h_keys h ! i)"
      "content r (h_cmp h) (h_keys h ! i) = content r (h_cmp h) x"
      by (rule set_find_present [OF ok, of x]) (use assms(2) True in auto)
    then show ?thesis using pair_map_iff [OF k len]
      by (intro exI [of _ "Some i"]) (auto simp: hash_find_key_set hash_abs_def)
  qed
qed

lemma hash_ref_spec:
  assumes "hash_ok r h" "hashable r (h_cmp h) x"
  shows "hash_ref r h x def = Inr (case hash_abs r h (content r (h_cmp h) x) of None \<Rightarrow> def | Some v \<Rightarrow> v)"
  using hash_find_spec [OF assms] by (auto simp: hash_ref_def split: option.splits)

section \<open>Storing\<close>

lemma hash_walk_found:
  assumes "i < 2 ^ k" "p < n"
    and "\<And>q. q < p \<Longrightarrow> keys ! ((i + q) mod 2 ^ k) \<noteq> EMPTY_SLOT"
    and "\<And>q. q < p \<Longrightarrow> live_slot (keys ! ((i + q) mod 2 ^ k)) \<Longrightarrow> slot_matches r (keys ! ((i + q) mod 2 ^ k)) x c = Inr False"
    and "live_slot (keys ! ((i + p) mod 2 ^ k))" "slot_matches r (keys ! ((i + p) mod 2 ^ k)) x c = Inr True"
  shows "hash_walk r c (2 ^ k - 1) keys x n i dead = Inr (Found ((i + p) mod 2 ^ k))"
  using assms
proof (induction p arbitrary: i n dead)
  case 0
  then show ?case by (cases n) (auto simp: live_slot_def)
next
  case (Suc p)
  from Suc.prems(2) obtain m where n: "n = Suc m" "p < m" by (cases n) auto
  let ?i = "(i + 1) mod 2 ^ k"
  have shift: "(?i + q) mod 2 ^ k = (i + Suc q) mod 2 ^ k" for q by (simp add: mod_add_left_eq)
  have "hash_walk r c (2 ^ k - 1) keys x m ?i dead' = Inr (Found ((?i + p) mod 2 ^ k))" for dead'
    by (rule Suc.IH) (use Suc.prems n in \<open>simp_all only: shift Suc_less_eq, simp_all\<close>)
  then show ?case
    unfolding shift using Suc.prems(1) Suc.prems(3,4) [of 0] by (auto simp: n and_mask_nat [simplified] live_slot_def)
qed

lemma hash_walk_place:
  assumes "i < 2 ^ k" "p < n"
    and "\<And>q. q < p \<Longrightarrow> keys ! ((i + q) mod 2 ^ k) \<noteq> EMPTY_SLOT"
    and "\<And>q. q < p \<Longrightarrow> live_slot (keys ! ((i + q) mod 2 ^ k)) \<Longrightarrow> slot_matches r (keys ! ((i + q) mod 2 ^ k)) x c = Inr False"
    and "keys ! ((i + p) mod 2 ^ k) = EMPTY_SLOT"
  shows "\<exists>j. hash_walk r c (2 ^ k - 1) keys x n i dead = Inr (Place j (dead = None \<and> keys ! j = EMPTY_SLOT)) \<and>
    (case dead of Some d \<Rightarrow> j = d
     | None \<Rightarrow> \<exists>m \<le> p. j = (i + m) mod 2 ^ k \<and> \<not> live_slot (keys ! j))"
  using assms
proof (induction p arbitrary: i n dead)
  case 0
  then show ?case by (cases n) (auto split: option.splits)
next
  case (Suc p)
  from Suc.prems(2) obtain m where n: "n = Suc m" "p < m" by (cases n) auto
  let ?i = "(i + 1) mod 2 ^ k"
  have shift: "(?i + q) mod 2 ^ k = (i + Suc q) mod 2 ^ k" for q by (simp add: mod_add_left_eq)
  have IH: "\<exists>j. hash_walk r c (2 ^ k - 1) keys x m ?i dead = Inr (Place j (dead = None \<and> keys ! j = EMPTY_SLOT)) \<and>
    (case dead of Some d \<Rightarrow> j = d
     | None \<Rightarrow> \<exists>m \<le> p. j = (?i + m) mod 2 ^ k \<and> \<not> live_slot (keys ! j))" for dead
    by (rule Suc.IH) (use Suc.prems n in \<open>simp_all only: shift Suc_less_eq, simp_all\<close>)
  show ?case
  proof (cases "keys ! i = DEAD_SLOT")
    case True
    then show ?thesis
      using IH [of "Some i"] IH [of dead] Suc.prems(1)
      by (cases dead) (auto simp: n and_mask_nat [simplified] intro!: exI [of _ 0])
  next
    case False
    then have "slot_matches r (keys ! i) x c = Inr False" "keys ! i \<noteq> EMPTY_SLOT"
      using Suc.prems(1) Suc.prems(3,4) [of 0] by (auto simp: live_slot_def)
    then have "hash_walk r c (2 ^ k - 1) keys x n i dead = hash_walk r c (2 ^ k - 1) keys x m ?i dead"
      using False by (simp add: n and_mask_nat [simplified])
    moreover have "\<exists>m \<le> p. j = (i + Suc m) mod 2 ^ k \<and> P \<Longrightarrow> \<exists>m \<le> Suc p. j = (i + m) mod 2 ^ k \<and> P" for j P
      by (metis Suc_le_mono)
    ultimately show ?thesis
      using IH [of dead] unfolding shift by (cases dead) fastforce+
  qed
qed


lemma rehash_pairs_spec:
  assumes "buckets_ok r c k nk" "length nv = length nk" "DEAD_SLOT \<notin> set nk"
    and "\<forall>(key, v) \<in> set kvs. live_slot key \<longrightarrow> hashable r c key"
    and "distinct (map (content r c) (filter live_slot (map fst kvs)))"
    and "content r c ` set (filter live_slot (map fst kvs)) \<inter> bucket_keys r c nk = {}"
    and "count_used nk + count_live (map fst kvs) < 2 ^ k"
  shows "\<exists>nk' nv'. rehash_pairs r c (2 ^ k) kvs nk nv = Inr (nk', nv') \<and> buckets_ok r c k nk' \<and>
    length nv' = length nk' \<and> DEAD_SLOT \<notin> set nk' \<and> count_used nk' = count_used nk + count_live (map fst kvs) \<and>
    pair_map r c nk' nv' = pair_map r c nk nv ++ map_of (map (\<lambda>(k, v). (content r c k, v)) (filter (\<lambda>(k, v). live_slot k) kvs))"
  using assms
proof (induction kvs arbitrary: nk nv)
  case Nil
  then show ?case by simp
next
  case (Cons kv kvs)
  obtain e v where kv: "kv = (e, v)" by (cases kv)
  show ?case
  proof (cases "live_slot e")
    case False
    then have "e = EMPTY_SLOT \<or> e = DEAD_SLOT" by (auto simp: live_slot_def)
    with False Cons show ?thesis by (simp add: kv)
  next
    case True
    then have e: "hashable r c e" "e \<noteq> EMPTY_SLOT" "e \<noteq> DEAD_SLOT"
      using Cons.prems(4) by (auto simp: live_slot_def kv)
    have new: "content r c e \<notin> bucket_keys r c nk" using Cons.prems(6) True by (auto simp: kv)
    have room: "count_used nk < 2 ^ k" using Cons.prems(7) by simp
    obtain h i where s: "val_hash r e c = Inr h"
      "probe (2 ^ k - 1) (free_step (\<lambda>x. x = EMPTY_SLOT) nk) (2 ^ k) (unat h AND (2 ^ k - 1)) = Inr i"
      "i < length nk" "nk ! i = EMPTY_SLOT" "buckets_ok r c k (nk[i := e])"
      "bucket_keys r c (nk[i := e]) = insert (content r c e) (bucket_keys r c nk)"
      "count_used (nk[i := e]) = count_used nk + 1"
      by (rule rehash_slot [OF Cons.prems(1) e(1) True new room])
    let ?m = "map_of (map (\<lambda>(k, v). (content r c k, v)) (filter (\<lambda>(k, v). live_slot k) kvs))"
    have dead: "DEAD_SLOT \<notin> set (nk[i := e])" using Cons.prems(3) e(3) set_update_subset_insert [of nk i e] by auto
    have "content r c e \<notin> content r c ` set (filter live_slot (map fst kvs))"
      using Cons.prems(5) True by (auto simp: kv)
    moreover have "dom ?m = content r c ` set (filter live_slot (map fst kvs))"
      by (force simp: dom_map_of_conv_image_fst image_iff)
    ultimately have fresh: "content r c e \<notin> dom ?m" by simp
    have pm: "pair_map r c (nk[i := e]) (nv[i := v]) = (pair_map r c nk nv)(content r c e \<mapsto> v)"
      using s Cons.prems(1,2) True new by (intro pair_map_place) auto
    have "\<exists>nk' nv'. rehash_pairs r c (2 ^ k) kvs (nk[i := e]) (nv[i := v]) = Inr (nk', nv') \<and> buckets_ok r c k nk' \<and>
      length nv' = length nk' \<and> DEAD_SLOT \<notin> set nk' \<and> count_used nk' = count_used (nk[i := e]) + count_live (map fst kvs) \<and>
      pair_map r c nk' nv' = pair_map r c (nk[i := e]) (nv[i := v]) ++ ?m"
      using s(5-7) dead Cons.prems True by (intro Cons.IH) (auto simp: kv)
    moreover have "pair_map r c (nk[i := e]) (nv[i := v]) ++ ?m = pair_map r c nk nv ++ ?m(content r c e \<mapsto> v)"
      unfolding pm using fresh by (simp add: map_add_upd_left)
    moreover have "map_of (map (\<lambda>(k, v). (content r c k, v)) (filter (\<lambda>(k, v). live_slot k) (kv # kvs))) = ?m(content r c e \<mapsto> v)"
      using True by (simp add: kv)
    moreover have "rehash_pairs r c (2 ^ k) (kv # kvs) nk nv = rehash_pairs r c (2 ^ k) kvs (nk[i := e]) (nv[i := v])"
      using e s(1,2) by (simp add: kv)
    moreover have "count_used nk + count_live (map fst (kv # kvs)) = count_used (nk[i := e]) + count_live (map fst kvs)"
      using True s(7) by (simp add: kv)
    ultimately show ?thesis by (simp only: simp_thms)
  qed
qed

lemma pair_map_fresh: "pair_map r c (replicate n EMPTY_SLOT) vs = Map.empty"
proof -
  have "filter (\<lambda>(k, v). live_slot k) (zip (replicate n EMPTY_SLOT) vs) = []"
    by (auto simp: filter_empty_conv in_set_replicate dest!: set_zip_leftD)
  then show ?thesis by (simp add: pair_map_def)
qed

lemma hash_rehash_spec:
  assumes "hash_ok r h" "h_size h < 2 ^ 28"
  shows "\<exists>h'. hash_rehash r h = Inr h' \<and> hash_ok r h' \<and> hash_abs r h' = hash_abs r h \<and> h_cmp h' = h_cmp h \<and>
    h_used h' * 4 < h_cap h' * 3"
proof -
  let ?b = "h_keys h" and ?c = "h_cmp h"
  have ok: "set_ok r (key_set h)" and len: "length (h_vals h) = length ?b"
    using assms(1) by (auto simp: hash_ok_key_set)
  obtain k where k: "4 \<le> k" "k \<le> 30" "h_cap h = 2 ^ k" "buckets_ok r ?c k ?b"
    "h_size h = count_live ?b" "h_used h = count_used ?b" "h_used h * 4 \<le> h_cap h * 3"
    using set_okE [OF ok] unfolding key_set_simps by blast
  have "h_size h * 4 \<le> 2 ^ k * 3" using k(3,5-7) count_live_le_used [of ?b] by linarith
  then obtain k' where k': "4 \<le> k'" "k' \<le> 30" "rehash_cap (2 ^ k) (h_size h) = 2 ^ k'" "h_size h * 4 < 2 ^ k' * 3"
    using k(1,2) assms(2) rehash_cap_spec by metis
  have fst: "map fst (zip ?b (h_vals h)) = ?b" using len by simp
  have dist: "distinct (map (content r ?c) (filter live_slot (map fst (zip ?b (h_vals h)))))"
    unfolding fst using slots_ok_distinct [OF k(4)] by (simp add: live_slot_entry)
  have "\<exists>nk nv. rehash_pairs r ?c (2 ^ k') (zip ?b (h_vals h)) (replicate (2 ^ k') EMPTY_SLOT) (replicate (2 ^ k') V_VOID)
      = Inr (nk, nv) \<and> buckets_ok r ?c k' nk \<and> length nv = length nk \<and> DEAD_SLOT \<notin> set nk \<and>
      count_used nk = count_used (replicate (2 ^ k') EMPTY_SLOT) + count_live (map fst (zip ?b (h_vals h))) \<and>
      pair_map r ?c nk nv = pair_map r ?c (replicate (2 ^ k') EMPTY_SLOT) (replicate (2 ^ k') V_VOID) ++
        map_of (map (\<lambda>(k, v). (content r ?c k, v)) (filter (\<lambda>(k, v). live_slot k) (zip ?b (h_vals h))))"
  proof (rule rehash_pairs_spec [OF slots_ok_empty _ _ _ dist])
    show "\<forall>(key, v) \<in> set (zip ?b (h_vals h)). live_slot key \<longrightarrow> hashable r ?c key"
      using k(4) by (auto simp: slots_ok_def live_slot_entry dest: set_zip_leftD)
    show "count_used (replicate (2 ^ k') EMPTY_SLOT) + count_live (map fst (zip ?b (h_vals h))) < 2 ^ k'"
      unfolding fst using k(5) k'(4) by simp
  qed (simp_all only: length_replicate buckets_fresh, simp_all)
  then obtain nk nv where n: "rehash_pairs r ?c (2 ^ k') (zip ?b (h_vals h)) (replicate (2 ^ k') EMPTY_SLOT)
      (replicate (2 ^ k') V_VOID) = Inr (nk, nv)" "buckets_ok r ?c k' nk" "length nv = length nk" "DEAD_SLOT \<notin> set nk"
      "count_used nk = count_live ?b" "pair_map r ?c nk nv = hash_abs r h"
    unfolding fst pair_map_fresh by (auto simp: hash_abs_def pair_map_def)
  let ?h = "h\<lparr>h_keys := nk, h_vals := nv, h_cap := 2 ^ k', h_used := h_size h\<rparr>"
  have "hash_ok r ?h" unfolding hash_ok_def using k' k(5) n count_live_no_dead [OF n(4)] by auto
  then show ?thesis using n(1,6) k'(3,4) k(3) by (auto simp: hash_rehash_def hash_abs_def)
qed


lemma hash_make_spec:
  obtains h where "hash_make r c = Inr h" "hash_ok r h" "hash_abs r h = Map.empty" "h_cmp h = c"
proof
  let ?h = "\<lparr>h_size = 0, h_used = 0, h_cap = 16, h_keys = replicate 16 EMPTY_SLOT, h_vals = replicate 16 V_VOID, h_cmp = c\<rparr>"
  show "hash_make r c = Inr ?h" by (simp add: hash_make_def hash_rehash_def rehash_cap_def)
  show "hash_ok r ?h"
    using slots_ok_empty [of EMPTY_SLOT DEAD_SLOT _ _ _ 4]
    by (auto simp: hash_ok_def intro!: exI [of _ 4])
  show "hash_abs r ?h = Map.empty" by (simp only: hash_abs_def hashtable.simps pair_map_fresh)
qed simp

text \<open>The walk of a well-formed table, from the key's home slot.\<close>

lemma hash_walk_spec:
  assumes ok: "buckets_ok r c k ks" and x: "hashable r c x" "val_hash r x c = Inr hc" and E: "EMPTY_SLOT \<in> set ks"
  shows "(\<exists>i < length ks. hash_walk r c (2 ^ k - 1) ks x (2 ^ k) (unat hc AND (2 ^ k - 1)) None = Inr (Found i) \<and>
      live_slot (ks ! i) \<and> content r c (ks ! i) = content r c x \<and> content r c x \<in> bucket_keys r c ks) \<or>
    (\<exists>p < 2 ^ k. hash_walk r c (2 ^ k - 1) ks x (2 ^ k) (unat hc AND (2 ^ k - 1)) None =
        Inr (Place ((unat hc + p) mod 2 ^ k) (ks ! ((unat hc + p) mod 2 ^ k) = EMPTY_SLOT)) \<and>
      (\<forall>q < p. ks ! ((unat hc + q) mod 2 ^ k) \<noteq> EMPTY_SLOT) \<and>
      \<not> live_slot (ks ! ((unat hc + p) mod 2 ^ k)) \<and> content r c x \<notin> bucket_keys r c ks)"
proof -
  let ?s = "\<lambda>q. (unat hc + q) mod 2 ^ k"
  have len: "length ks = 2 ^ k" using ok by (simp add: slots_ok_def)
  have in_range: "?s q < length ks" for q by (simp add: len)
  have car: "hashable r c (ks ! i)" if "live_slot (ks ! i)" "i < length ks" for i
    using ok that by (auto simp: slots_ok_def live_slot_entry)
  have mt: "slot_matches r (ks ! i) x c = Inr (content r c (ks ! i) = content r c x)"
    if "live_slot (ks ! i)" "i < length ks" for i
    using val_hashing.matches_key [OF car [OF that] x(1)] .
  have slot: "(unat hc mod 2 ^ k + q) mod 2 ^ k = ?s q" for q by (simp add: mod_add_left_eq)
  note hm = home_val_hash [OF x(2)]
  show ?thesis
  proof (cases "content r c x \<in> bucket_keys r c ks")
    case True
    then obtain i where i: "i < 2 ^ k" "entry EMPTY_SLOT DEAD_SLOT (ks ! i)" "content r c (ks ! i) = content r c x"
      by (auto simp: slot_keys_nth len)
    then have live: "live_slot (ks ! i)" by (simp add: live_slot_entry)
    obtain p where p: "p < 2 ^ k" "?s p = i" "\<And>q. q < p \<Longrightarrow> ks ! ?s q \<noteq> EMPTY_SLOT"
      "\<And>q. q < p \<Longrightarrow> live_slot (ks ! ?s q) \<Longrightarrow> slot_matches r (ks ! ?s q) x c = Inr False"
      using val_hashing.chain_present [OF ok x(1) i] unfolding hm live_slot_entry by blast
    have "hash_walk r c (2 ^ k - 1) ks x (2 ^ k) (unat hc mod 2 ^ k) None = Inr (Found ((unat hc mod 2 ^ k + p) mod 2 ^ k))"
      by (rule hash_walk_found) (use p live i len mt in \<open>auto simp: slot\<close>)
    then show ?thesis using p i live len True by (intro disjI1 exI [of _ i]) (auto simp: slot and_mask_nat [simplified])
  next
    case False
    obtain p where p: "p < 2 ^ k" "\<And>q. q < p \<Longrightarrow> ks ! ?s q \<noteq> EMPTY_SLOT" "ks ! ?s p = EMPTY_SLOT"
      by (rule chain_stop [where stop = "\<lambda>x. x = EMPTY_SLOT" and i = "unat hc", OF len E]) auto
    have other: "content r c (ks ! i) \<noteq> content r c x" if "live_slot (ks ! i)" "i < length ks" for i
      using False that by (auto simp: slot_keys_nth live_slot_entry)
    have "\<exists>j. hash_walk r c (2 ^ k - 1) ks x (2 ^ k) (unat hc mod 2 ^ k) None =
        Inr (Place j ((None :: nat option) = None \<and> ks ! j = EMPTY_SLOT)) \<and>
      (case None of Some d \<Rightarrow> j = d | None \<Rightarrow> \<exists>m \<le> p. j = (unat hc mod 2 ^ k + m) mod 2 ^ k \<and> \<not> live_slot (ks ! j))"
      by (rule hash_walk_place) (use p other mt in_range in \<open>auto simp: slot\<close>)
    then obtain m where m: "m \<le> p" "\<not> live_slot (ks ! ?s m)"
      "hash_walk r c (2 ^ k - 1) ks x (2 ^ k) (unat hc mod 2 ^ k) None = Inr (Place (?s m) (ks ! ?s m = EMPTY_SLOT))"
      by (auto simp: slot)
    then show ?thesis using p False by (intro disjI2 exI [of _ m]) (auto simp: and_mask_nat [simplified])
  qed
qed


lemma hash_set_spec:
  assumes ok: "hash_ok r h" and small: "h_size h < 2 ^ 28" and x: "hashable r (h_cmp h) x" "live_slot x"
  shows "\<exists>h'. hash_set r h x v = Inr h' \<and> hash_ok r h' \<and>
    hash_abs r h' = (hash_abs r h)(content r (h_cmp h) x \<mapsto> v) \<and> h_cmp h' = h_cmp h"
proof -
  have "\<exists>t. (if wrap32 (h_used h * LOAD_DEN) \<ge> wrap32 (h_cap h * LOAD_NUM) then hash_rehash r h else Inr h) = Inr t \<and>
    hash_ok r t \<and> hash_abs r t = hash_abs r h \<and> h_cmp t = h_cmp h \<and> h_used t * 4 < h_cap t * 3"
  proof -
    obtain k where k: "k \<le> 30" "h_cap h = 2 ^ k" "h_used h * 4 \<le> h_cap h * 3"
      using ok by (auto simp: hash_ok_def)
    have "(2::nat) ^ k \<le> 2 ^ 30" using k(1) by (intro power_increasing) auto
    then have "wrap32 (h_used h * LOAD_DEN) = h_used h * 4" "wrap32 (h_cap h * LOAD_NUM) = h_cap h * 3"
      using k by (auto simp: wrap32_def LOAD_DEN_def LOAD_NUM_def)
    then show ?thesis using hash_rehash_spec [OF ok small] ok by auto
  qed
  then obtain t where t: "hash_ok r t" "hash_abs r t = hash_abs r h" "h_cmp t = h_cmp h" "h_used t * 4 < h_cap t * 3"
    and t0: "(if wrap32 (h_used h * LOAD_DEN) \<ge> wrap32 (h_cap h * LOAD_NUM) then hash_rehash r h else Inr h) = Inr t"
    by blast
  have okt: "set_ok r (key_set t)" and len: "length (h_vals t) = length (h_keys t)"
    using t(1) by (auto simp: hash_ok_key_set)
  obtain k where k: "h_cap t = 2 ^ k" "buckets_ok r (h_cmp t) k (h_keys t)" "EMPTY_SLOT \<in> set (h_keys t)"
    using set_okE [OF okt] unfolding key_set_simps by blast
  have xt: "hashable r (h_cmp t) x" using x(1) t(3) by simp
  then obtain hc where hc: "val_hash r x (h_cmp t) = Inr hc" using val_hashing.hash_ret by blast
  note w = hash_walk_spec [OF k(2) xt hc k(3), folded k(1)]
  show ?thesis
  proof (cases "content r (h_cmp t) x \<in> bucket_keys r (h_cmp t) (h_keys t)")
    case True
    with w obtain i where i: "i < length (h_keys t)" "live_slot (h_keys t ! i)"
      "content r (h_cmp t) (h_keys t ! i) = content r (h_cmp t) x"
      "hash_walk r (h_cmp t) (h_cap t - 1) (h_keys t) x (h_cap t) (unat hc AND (h_cap t - 1)) None = Inr (Found i)" by blast
    have "hash_ok r (t\<lparr>h_vals := (h_vals t)[i := v]\<rparr>)" using t(1) by (simp add: hash_ok_def)
    moreover have "hash_abs r (t\<lparr>h_vals := (h_vals t)[i := v]\<rparr>) = (hash_abs r t)(content r (h_cmp t) x \<mapsto> v)"
      using pair_map_update [OF k(2) len i(1,2)] i(3) by (simp add: hash_abs_def)
    ultimately show ?thesis using t(2,3) t0 hc i(4) by (auto simp: hash_set_def)
  next
    case False
    with w obtain p where p: "p < h_cap t" "\<forall>q < p. h_keys t ! ((unat hc + q) mod h_cap t) \<noteq> EMPTY_SLOT"
      "\<not> live_slot (h_keys t ! ((unat hc + p) mod h_cap t))"
      "hash_walk r (h_cmp t) (h_cap t - 1) (h_keys t) x (h_cap t) (unat hc AND (h_cap t - 1)) None =
        Inr (Place ((unat hc + p) mod h_cap t) (h_keys t ! ((unat hc + p) mod h_cap t) = EMPTY_SLOT))" by blast
    let ?i = "(unat hc + p) mod h_cap t"
    have i: "?i < length (h_keys t)" using k(1,2) by (simp add: slots_ok_def)
    have "content r (h_cmp t) x \<notin> set_abs r (key_set t)" using False by (simp add: set_abs_def)
    let ?h = "t\<lparr>h_used := (if h_keys t ! ?i = EMPTY_SLOT then h_used t + 1 else h_used t),
      h_keys := (h_keys t)[?i := x], h_vals := (h_vals t)[?i := v], h_size := h_size t + 1\<rparr>"
    have upd: "key_set ?h = (key_set t)\<lparr>s_used := (if s_buckets (key_set t) ! ?i = EMPTY_SLOT then s_used (key_set t) + 1 else s_used (key_set t)),
        s_buckets := (s_buckets (key_set t))[?i := x], s_size := s_size (key_set t) + 1\<rparr>"
      by (simp add: key_set_def)
    have "set_ok r (key_set ?h)"
      unfolding upd by (rule set_place_ok(1) [OF okt, where p = p and h = hc]) (use t(4) xt x(2) False hc p in \<open>auto simp: set_abs_def\<close>)
    then have "hash_ok r ?h" using len by (simp add: hash_ok_key_set)
    moreover have "buckets_ok r (h_cmp t) k ((h_keys t)[?i := x])"
      using slots_ok_place [OF k(2) _ xt False, of p] p x(2) by (simp add: home_val_hash [OF hc] live_slot_entry k(1))
    then have "hash_abs r ?h = (hash_abs r t)(content r (h_cmp t) x \<mapsto> v)"
      using pair_map_place [OF k(2) len i p(3) _ x(2) False] by (simp add: hash_abs_def)
    ultimately show ?thesis using t(2,3) t0 hc p(4) by (auto simp: hash_set_def)
  qed
qed

lemma hash_delete_spec:
  assumes ok: "hash_ok r h" and x: "hashable r (h_cmp h) x"
  shows "\<exists>h'. hash_delete r h x = Inr h' \<and> hash_ok r h' \<and>
    hash_abs r h' = (hash_abs r h)(content r (h_cmp h) x := None) \<and> h_cmp h' = h_cmp h"
proof -
  obtain f where f: "hash_find r h x = Inr f"
    "case f of None \<Rightarrow> hash_abs r h (content r (h_cmp h) x) = None
     | Some i \<Rightarrow> i < length (h_keys h) \<and> live_slot (h_keys h ! i) \<and>
         content r (h_cmp h) (h_keys h ! i) = content r (h_cmp h) x \<and>
         hash_abs r h (content r (h_cmp h) x) = Some (h_vals h ! i)"
    using hash_find_spec [OF assms] by blast
  show ?thesis
  proof (cases f)
    case None
    with f ok show ?thesis by (auto simp: hash_delete_def)
  next
    case (Some i)
    let ?h = "h\<lparr>h_keys := (h_keys h)[i := DEAD_SLOT], h_size := h_size h - 1\<rparr>"
    obtain k where k: "buckets_ok r (h_cmp h) k (h_keys h)" "length (h_vals h) = length (h_keys h)"
      using ok by (auto simp: hash_ok_def)
    have "set_delete_mut r (Some (key_set h)) x = Inr (key_set ?h)"
      using f Some by (simp add: set_delete_mut_def checked_set_def hash_find_key_set key_set_def)
    then have "set_ok r (key_set ?h)"
      using set_delete_mut_spec [of r "key_set h" x] ok x by (auto simp: hash_ok_key_set)
    then have "hash_ok r ?h" using k(2) by (simp add: hash_ok_key_set)
    moreover have "hash_abs r ?h = (hash_abs r h)(content r (h_cmp h) x := None)"
      using pair_map_kill [OF k, of i] f Some by (simp add: hash_abs_def)
    ultimately show ?thesis using f Some by (auto simp: hash_delete_def)
  qed
qed


section \<open>The contract\<close>

lemma hash_abs_card:
  assumes "hash_ok r h" shows "finite (dom (hash_abs r h)) \<and> card (dom (hash_abs r h)) = h_size h"
  using set_abs_card [of r "key_set h"] assms hash_abs_dom [OF assms] by (simp add: hash_ok_key_set)

text \<open>A hash table with the comparator \<open>c\<close> promises the contract of a bounded map.\<close>

interpretation htab: bounded_map "\<lambda>h. hash_ok r h \<and> h_cmp h = c" "hash_abs r" "content r c" "element r c"
  "hash_set r" "hash_delete r" "hash_ref r" "2 ^ 28"
  for r c
proof
  fix h x v d assume ok: "hash_ok r h \<and> h_cmp h = c"
  then show "finite (dom (hash_abs r h))" using hash_abs_card by blast
  assume x: "element r c x"
  show "hash_ref r h x d = Inr (case hash_abs r h (content r c x) of None \<Rightarrow> d | Some v \<Rightarrow> v)"
    using hash_ref_spec [of r h x d] ok x by simp
  show "\<exists>h'. hash_delete r h x = Inr h' \<and> (hash_ok r h' \<and> h_cmp h' = c) \<and> hash_abs r h' = (hash_abs r h)(content r c x := None)"
    using hash_delete_spec [of r h x] ok x by auto
  assume "card (dom (hash_abs r h)) < 2 ^ 28"
  then have "h_size h < 2 ^ 28" using hash_abs_card ok by metis
  then show "\<exists>h'. hash_set r h x v = Inr h' \<and> (hash_ok r h' \<and> h_cmp h' = c) \<and> hash_abs r h' = (hash_abs r h)(content r c x \<mapsto> v)"
    using hash_set_spec [of r h x v] ok x by auto
qed

section \<open>Properties\<close>



text \<open>
  On a well-formed table \<open>hash_has\<close> tells whether the key has a value other than \<open>V_UNDEF\<close>, the
  default it uses as a marker.
\<close>

theorem hash_has_spec:
  assumes "hash_ok r h" "hashable r (h_cmp h) x"
  shows "hash_has r h x = Inr (\<exists>v. hash_abs r h (content r (h_cmp h) x) = Some v \<and> v \<noteq> V_UNDEF)"
  using hash_ref_spec [OF assms] by (auto simp: hash_has_def split: option.splits)

theorem hash_has_spec_witness:
  "\<exists>h. hash_make sample_rt SET_CMP_EQ = Inr h \<and> hash_has sample_rt h (vfix 1) = Inr False"
proof -
  obtain h where "hash_make sample_rt SET_CMP_EQ = Inr h" "hash_ok sample_rt h" "hash_abs sample_rt h = Map.empty"
    "h_cmp h = SET_CMP_EQ" by (rule hash_make_spec)
  moreover have "vis_fixnum (vfix 1)" by code_simp
  ultimately show ?thesis using hash_has_spec [of sample_rt h "vfix 1"] fixnum_element [of "vfix 1"] by auto
qed

text \<open>
  \<open>hash_to_alist\<close> of a well-formed table lists every key once with its value: its pairs, keys read
  as contents, are the graph of the map the table represents, and \<open>hash_keys\<close> and \<open>hash_values\<close> are
  its columns.
\<close>

theorem hash_listing:
  assumes "hash_ok r h"
  shows "distinct (map (content r (h_cmp h)) (hash_keys h)) \<and>
    map fst (hash_to_alist h) = hash_keys h \<and> map snd (hash_to_alist h) = hash_values h \<and>
    (\<lambda>(k, v). (content r (h_cmp h) k, v)) ` set (hash_to_alist h) = Map.graph (hash_abs r h)"
proof -
  obtain k where k: "buckets_ok r (h_cmp h) k (h_keys h)" and len: "length (h_vals h) = length (h_keys h)"
    using assms by (auto simp: hash_ok_def)
  note keys = filter_zip_keys [OF len, of live_slot]
  have "(\<lambda>(k, v). (content r (h_cmp h) k, v)) ` set (hash_to_alist h) = Map.graph (hash_abs r h)"
    unfolding hash_abs_def by (auto simp: hash_to_alist_def graph_def pair_map_iff [OF k len] set_zip image_iff) (metis len)
  moreover have "map fst (hash_to_alist h) = hash_keys h"
    by (simp only: hash_to_alist_def hash_keys_def rev_map [symmetric] keys)
  moreover have "map snd (hash_to_alist h) = hash_values h"
    by (simp only: hash_to_alist_def hash_values_def rev_map [symmetric])
  moreover have "distinct (map (content r (h_cmp h)) (hash_keys h))"
    using slots_ok_distinct [OF k] by (simp add: hash_keys_def rev_map [symmetric] live_slot_entry)
  ultimately show ?thesis by blast
qed

theorem hash_listing_witness:
  "\<exists>h. hash_make sample_rt SET_CMP_EQ = Inr h \<and> map fst (hash_to_alist h) = hash_keys h"
proof -
  obtain h where "hash_make sample_rt SET_CMP_EQ = Inr h" "hash_ok sample_rt h" by (rule hash_make_spec)
  then show ?thesis using hash_listing [of sample_rt h] by auto
qed

end
