(* ===== verification/Symbol_Table.thy ===== *)
theory Symbol_Table
  imports Open_Addressing
begin

text \<open>
  The symbol table of \<open>src/src/symbol.c\<close>: an open-addressing table without deletion, one symbol
  object per name. Every operation runs under \<open>table_lock\<close>, so the calls of all threads are a
  sequence. The lemmas show that interning gives the same symbol for the same name and different
  symbols for different names, however often the table grew in between.
\<close>

section \<open>Representation\<close>

record symbol =
  sym_addr :: val
  sym_code :: u32
  sym_length :: nat
  sym_data :: "u8 list"

record symtable =
  t_buckets :: "symbol option list"
  t_cap :: nat
  t_size :: nat

text \<open>
  The table with the number of symbols allocated so far. \<open>GC_MALLOC_UNCOLLECTABLE\<close> is an argument of
  the model: \<open>alloc n\<close> is the address the collector gives to the \<open>n\<close>th symbol.
\<close>

record symstate =
  table :: symtable
  allocated :: nat

definition hash_str :: "u8 list \<Rightarrow> u32" where
  "hash_str s = fold (\<lambda>b h. (h XOR ucast b) * 16777619) s 2166136261"

section \<open>Operations\<close>

definition table_insert_raw :: "symtable \<Rightarrow> symbol \<Rightarrow> symtable res" where
  "table_insert_raw t sy =
     rbind (probe (t_cap t - 1) (free_step (\<lambda>x. x = None) (t_buckets t)) (t_cap t)
              (unat (sym_code sy) AND (t_cap t - 1))) (\<lambda>idx.
     Inr (t\<lparr>t_buckets := (t_buckets t)[idx := Some sy], t_size := t_size t + 1\<rparr>))"

fun insert_all :: "symtable \<Rightarrow> symbol option list \<Rightarrow> symtable res" where
  "insert_all t [] = Inr t"
| "insert_all t (None # bs) = insert_all t bs"
| "insert_all t (Some sy # bs) = rbind (table_insert_raw t sy) (\<lambda>t'. insert_all t' bs)"

definition table_grow :: "symtable \<Rightarrow> symtable res" where
  "table_grow t =
     (let new_cap = (if t_cap t \<noteq> 0 then wrap32 (t_cap t * 2) else 64)
      in insert_all \<lparr>t_buckets = replicate new_cap None, t_cap = new_cap, t_size = 0\<rparr> (t_buckets t))"

text \<open>The body of the search loop: an empty slot ends it, and so does a symbol of that name.\<close>

definition same_name :: "u32 \<Rightarrow> u8 list \<Rightarrow> symbol \<Rightarrow> bool" where
  "same_name h name s \<longleftrightarrow> sym_code s = h \<and> sym_length s = length name \<and> take (length name) (sym_data s) = name"

definition intern_step :: "u32 \<Rightarrow> u8 list \<Rightarrow> symbol option list \<Rightarrow> nat \<Rightarrow> (symbol option \<times> nat) option res" where
  "intern_step h name b idx =
     Inr (case b ! idx of
       None \<Rightarrow> Some (None, idx)
     | Some s \<Rightarrow> if same_name h name s then Some (Some s, idx) else None)"

definition sym_intern :: "(nat \<Rightarrow> val) \<Rightarrow> symstate \<Rightarrow> u8 list \<Rightarrow> (val \<times> symstate) res" where
  "sym_intern alloc st name =
     rbind (if t_cap (table st) = 0 \<or> wrap32 (t_size (table st) * 2) \<ge> t_cap (table st)
            then table_grow (table st) else Inr (table st)) (\<lambda>t.
     let h = hash_str name
     in rbind (probe (t_cap t - 1) (intern_step h name (t_buckets t)) (t_cap t) (unat h AND (t_cap t - 1)))
       (\<lambda>(found, idx). Inr (case found of
           Some s \<Rightarrow> (sym_addr s, st\<lparr>table := t\<rparr>)
         | None \<Rightarrow>
             let sy = \<lparr>sym_addr = alloc (allocated st), sym_code = h, sym_length = length name, sym_data = name\<rparr>
             in (sym_addr sy,
                 st\<lparr>table := t\<lparr>t_buckets := (t_buckets t)[idx := Some sy], t_size := t_size t + 1\<rparr>,
                    allocated := allocated st + 1\<rparr>))))"

text \<open>\<open>strlen\<close> stops at the terminating zero byte.\<close>

definition sym_intern_cstr :: "(nat \<Rightarrow> val) \<Rightarrow> symstate \<Rightarrow> u8 list \<Rightarrow> (val \<times> symstate) res" where
  "sym_intern_cstr alloc st name = sym_intern alloc st (takeWhile (\<lambda>b. b \<noteq> 0) name)"

text \<open>Interning a sequence of names, as \<open>sym_init\<close> does with the names of \<open>symbol_list.h\<close>.\<close>

fun intern_all :: "(nat \<Rightarrow> val) \<Rightarrow> symstate \<Rightarrow> u8 list list \<Rightarrow> (val list \<times> symstate) res" where
  "intern_all alloc st [] = Inr ([], st)"
| "intern_all alloc st (name # names) =
     rbind (sym_intern alloc st name) (\<lambda>(v, st').
     rbind (intern_all alloc st' names) (\<lambda>(vs, st''). Inr (v # vs, st'')))"

definition empty_table :: symstate where
  "empty_table = \<lparr>table = \<lparr>t_buckets = [], t_cap = 0, t_size = 0\<rparr>, allocated = 0\<rparr>"

definition sym_init :: "(nat \<Rightarrow> val) \<Rightarrow> u8 list list \<Rightarrow> (val list \<times> symstate) res" where
  "sym_init alloc names =
     rbind (table_grow (table empty_table)) (\<lambda>t. intern_all alloc (empty_table\<lparr>table := t\<rparr>) names)"

section \<open>The slots as an instance of open addressing\<close>

definition slot_hash :: "symbol option \<Rightarrow> u32 res" where
  "slot_hash x = Inr (case x of Some s \<Rightarrow> sym_code s | None \<Rightarrow> 0)"

definition slot_name :: "symbol option \<Rightarrow> u8 list" where
  "slot_name x = (case x of Some s \<Rightarrow> sym_data s | None \<Rightarrow> [])"

definition slot_symbol :: "symbol option \<Rightarrow> bool" where
  "slot_symbol x \<longleftrightarrow> (\<exists>s. x = Some s \<and> sym_code s = hash_str (sym_data s) \<and> sym_length s = length (sym_data s))"

definition slot_same :: "symbol option \<Rightarrow> symbol option \<Rightarrow> bool res" where
  "slot_same y x = Inr (case (y, x) of
     (Some s, Some t) \<Rightarrow> same_name (sym_code t) (sym_data t) s | _ \<Rightarrow> False)"

interpretation sym_slots: key_hashing slot_hash slot_same slot_symbol slot_name
  by unfold_locales
     (auto simp: slot_hash_def slot_symbol_def slot_name_def slot_same_def same_name_def)

abbreviation syms_ok :: "nat \<Rightarrow> symbol option list \<Rightarrow> bool" where
  "syms_ok \<equiv> slots_ok None None slot_hash slot_symbol slot_name"

abbreviation sym_names :: "symbol option list \<Rightarrow> u8 list set" where
  "sym_names \<equiv> slot_keys None None slot_name"

abbreviation count_syms :: "symbol option list \<Rightarrow> nat" where
  "count_syms b \<equiv> length (filter (\<lambda>x. x \<noteq> None) b)"

text \<open>
  A table that has been grown once: a power-of-two capacity, at most half full, and addresses that
  were handed out in order of allocation.
\<close>

definition symtab_ok :: "symtable \<Rightarrow> bool" where
  "symtab_ok t \<longleftrightarrow> (\<exists>k. 6 \<le> k \<and> k \<le> 30 \<and> t_cap t = 2 ^ k \<and> syms_ok k (t_buckets t)) \<and>
     t_size t = count_syms (t_buckets t) \<and> t_size t * 2 \<le> t_cap t"

definition symbols :: "symtable \<Rightarrow> symbol set" where
  "symbols t = {s. Some s \<in> set (t_buckets t)}"


section \<open>Growing\<close>

lemma sym_entry: "entry None None = (\<lambda>x. x \<noteq> None)"
  by (simp add: entry_def fun_eq_iff)

lemma slot_symbol_Some [simp]:
  "slot_symbol (Some s) \<longleftrightarrow> sym_code s = hash_str (sym_data s) \<and> sym_length s = length (sym_data s)"
  by (simp add: slot_symbol_def)

lemma home_Some [simp]: "home slot_hash (Some s) = unat (sym_code s)"
  by (simp add: home_def slot_hash_def)

lemma slot_name_Some [simp]: "slot_name (Some s) = sym_data s"
  by (simp add: slot_name_def)

lemma sym_names_symbols: "sym_names (t_buckets t) = sym_data ` symbols t"
  by (force simp: slot_keys_def sym_entry symbols_def slot_name_def split: option.splits)

lemma sym_empty_slot:
  assumes "syms_ok k b" "count_syms b < 2 ^ k" shows "None \<in> set b"
proof -
  have "length b = 2 ^ k" using assms(1) by (simp add: slots_ok_def)
  with assms(2) obtain i where "i < length b" "b ! i = None"
    using filter_short_ex [of "\<lambda>x. x \<noteq> None" b] by auto
  then show ?thesis by (metis nth_mem)
qed

text \<open>Storing a symbol of a new name in the first empty slot of its chain.\<close>

lemma place_symbol:
  assumes ok: "syms_ok k b" and s: "slot_symbol (Some s)" and new: "sym_data s \<notin> sym_names b"
    and p: "p < 2 ^ k" "\<And>q. q < p \<Longrightarrow> b ! ((unat (sym_code s) + q) mod 2 ^ k) \<noteq> None"
    and i: "i = (unat (sym_code s) + p) mod 2 ^ k" "b ! i = None"
  shows "syms_ok k (b[i := Some s])" "count_syms (b[i := Some s]) = count_syms b + 1"
    "\<And>x. Some x \<in> set (b[i := Some s]) \<longleftrightarrow> x = s \<or> Some x \<in> set b"
proof -
  have len: "i < length b" using ok by (simp add: slots_ok_def i(1))
  show "syms_ok k (b[i := Some s])"
    using slots_ok_place [OF ok _ s _ p(1)] new p(2) by (simp add: sym_entry i(1))
  show "count_syms (b[i := Some s]) = count_syms b + 1"
    using length_filter_update [OF len, of "\<lambda>x. x \<noteq> None" "Some s"] i(2) by simp
  have "set b = insert (b ! i) (set (take i b) \<union> set (drop (Suc i) b))"
    by (subst id_take_nth_drop [OF len]) simp
  then show "Some x \<in> set (b[i := Some s]) \<longleftrightarrow> x = s \<or> Some x \<in> set b" for x
    using len i(2) by (simp add: upd_conv_take_nth_drop)
qed

lemma table_insert_raw_spec:
  assumes ok: "syms_ok k (t_buckets t)" and cap: "t_cap t = 2 ^ k" and room: "count_syms (t_buckets t) < 2 ^ k"
    and s: "slot_symbol (Some s)" and new: "sym_data s \<notin> sym_names (t_buckets t)"
  shows "\<exists>t'. table_insert_raw t s = Inr t' \<and> syms_ok k (t_buckets t') \<and> t_cap t' = 2 ^ k \<and>
    count_syms (t_buckets t') = count_syms (t_buckets t) + 1 \<and> t_size t' = t_size t + 1 \<and>
    symbols t' = insert s (symbols t)"
proof -
  have len: "length (t_buckets t) = 2 ^ k" using ok by (simp add: slots_ok_def)
  obtain p where p: "p < 2 ^ k" "\<And>q. q < p \<Longrightarrow> t_buckets t ! ((unat (sym_code s) + q) mod 2 ^ k) \<noteq> None"
      "t_buckets t ! ((unat (sym_code s) + p) mod 2 ^ k) = None"
      "probe (2 ^ k - 1) (free_step (\<lambda>x. x = None) (t_buckets t)) (2 ^ k) (unat (sym_code s) mod 2 ^ k)
        = Inr ((unat (sym_code s) + p) mod 2 ^ k)"
    by (rule free_probe [where stop = "\<lambda>x. x = None" and i = "unat (sym_code s)", OF len sym_empty_slot [OF ok room]]) auto
  note placed = place_symbol [OF ok s new p(1,2) refl p(3)]
  show ?thesis
    using placed p(4) by (simp add: table_insert_raw_def cap and_mask_nat [simplified] symbols_def set_eq_iff)
qed

lemma insert_all_spec:
  assumes "syms_ok k (t_buckets t)" "t_cap t = 2 ^ k" "t_size t = count_syms (t_buckets t)"
    and "\<forall>x \<in> set bs. x \<noteq> None \<longrightarrow> slot_symbol x"
    and "distinct (map slot_name (filter (\<lambda>x. x \<noteq> None) bs))"
    and "slot_name ` set (filter (\<lambda>x. x \<noteq> None) bs) \<inter> sym_names (t_buckets t) = {}"
    and "count_syms (t_buckets t) + count_syms bs < 2 ^ k"
  shows "\<exists>t'. insert_all t bs = Inr t' \<and> syms_ok k (t_buckets t') \<and> t_cap t' = 2 ^ k \<and>
    t_size t' = count_syms (t_buckets t') \<and> t_size t' = t_size t + count_syms bs \<and>
    symbols t' = symbols t \<union> {s. Some s \<in> set bs}"
  using assms
proof (induction bs arbitrary: t)
  case Nil
  then show ?case by simp
next
  case (Cons x bs)
  show ?case
  proof (cases x)
    case None
    with Cons show ?thesis by simp
  next
    case (Some s)
    have s: "slot_symbol (Some s)" using Cons.prems(4) Some by auto
    have new: "sym_data s \<notin> sym_names (t_buckets t)" using Cons.prems(6) Some by auto
    have room: "count_syms (t_buckets t) < 2 ^ k" using Cons.prems(7) by simp
    obtain t1 where t1: "table_insert_raw t s = Inr t1" "syms_ok k (t_buckets t1)" "t_cap t1 = 2 ^ k"
      "count_syms (t_buckets t1) = count_syms (t_buckets t) + 1" "t_size t1 = t_size t + 1"
      "symbols t1 = insert s (symbols t)"
      using table_insert_raw_spec [OF Cons.prems(1,2) room s new] by blast
    have names: "sym_names (t_buckets t1) = insert (sym_data s) (sym_names (t_buckets t))"
      unfolding sym_names_symbols t1(6) by simp
    have "\<exists>t'. insert_all t1 bs = Inr t' \<and> syms_ok k (t_buckets t') \<and> t_cap t' = 2 ^ k \<and>
      t_size t' = count_syms (t_buckets t') \<and> t_size t' = t_size t1 + count_syms bs \<and>
      symbols t' = symbols t1 \<union> {s. Some s \<in> set bs}"
      using t1 names Cons.prems Some by (intro Cons.IH) auto
    with t1 Some show ?thesis by auto
  qed
qed


lemma table_grow_first:
  "\<exists>t'. table_grow \<lparr>t_buckets = [], t_cap = 0, t_size = 0\<rparr> = Inr t' \<and> symtab_ok t' \<and> symbols t' = {} \<and> t_size t' = 0"
proof -
  have "syms_ok 6 (replicate 64 None)" using slots_ok_empty [of None None _ _ _ 6] by simp
  then show ?thesis by (auto simp: table_grow_def symtab_ok_def symbols_def intro!: exI [of _ 6])
qed

lemma table_grow_spec:
  assumes ok: "symtab_ok t" and small: "t_cap t \<le> 2 ^ 29"
  shows "\<exists>t'. table_grow t = Inr t' \<and> symtab_ok t' \<and> symbols t' = symbols t \<and> t_size t' = t_size t \<and>
    t_size t' * 2 < t_cap t'"
proof -
  let ?b = "t_buckets t"
  obtain k where k: "6 \<le> k" "t_cap t = 2 ^ k" "syms_ok k ?b" "t_size t = count_syms ?b" "t_size t * 2 \<le> t_cap t"
    using ok by (auto simp: symtab_ok_def)
  have "k \<le> 29" using small k(2) power_le_imp_le_exp [of "2::nat" k 29] by simp
  moreover from this have "(2::nat) ^ Suc k \<le> 2 ^ 30" by (intro power_increasing) auto
  ultimately have cap: "(if t_cap t \<noteq> 0 then wrap32 (t_cap t * 2) else 64) = 2 ^ Suc k"
    by (simp add: k(2) wrap32_def)
  let ?t = "\<lparr>t_buckets = replicate (2 ^ Suc k) None, t_cap = 2 ^ Suc k, t_size = 0\<rparr>"
  have room: "count_syms ?b < 2 ^ Suc k"
    using k(2,4,5) zero_less_power [of "2::nat" k] unfolding power_Suc by linarith
  have none: "sym_names (replicate (2 ^ Suc k) None) = {}" by (auto simp: slot_keys_def sym_entry)
  have "\<exists>t'. insert_all ?t ?b = Inr t' \<and> syms_ok (Suc k) (t_buckets t') \<and> t_cap t' = 2 ^ Suc k \<and>
    t_size t' = count_syms (t_buckets t') \<and> t_size t' = t_size ?t + count_syms ?b \<and>
    symbols t' = symbols ?t \<union> {s. Some s \<in> set ?b}"
  proof (rule insert_all_spec)
    show "syms_ok (Suc k) (t_buckets ?t)" unfolding symtable.simps by (rule slots_ok_empty)
    show "distinct (map slot_name (filter (\<lambda>x. x \<noteq> None) ?b))"
      using slots_ok_distinct [OF k(3)] by (simp add: sym_entry)
    show "\<forall>x \<in> set ?b. x \<noteq> None \<longrightarrow> slot_symbol x" using k(3) by (auto simp: slots_ok_def sym_entry)
    show "slot_name ` set (filter (\<lambda>x. x \<noteq> None) ?b) \<inter> sym_names (t_buckets ?t) = {}"
      unfolding symtable.simps none by simp
    show "count_syms (t_buckets ?t) + count_syms ?b < 2 ^ Suc k" using room by simp
  qed simp_all
  then obtain t' where t': "insert_all ?t ?b = Inr t'" "syms_ok (Suc k) (t_buckets t')" "t_cap t' = 2 ^ Suc k"
    "t_size t' = count_syms (t_buckets t')" "t_size t' = t_size t" "symbols t' = symbols t"
    using k(4) by (auto simp: symbols_def)
  have "symtab_ok t'" unfolding symtab_ok_def using t' k \<open>k \<le> 29\<close> by (auto intro!: exI [of _ "Suc k"])
  moreover have "0 < (2::nat) ^ k" by simp
  then have "t_size t' * 2 < t_cap t'" using t'(3,5) k(2,5) unfolding power_Suc by linarith
  ultimately show ?thesis using t' unfolding table_grow_def Let_def cap by blast
qed

section \<open>Interning\<close>

text \<open>
  Every address was handed out by the allocator and no two symbols share one, which the collector
  guarantees for live objects.
\<close>

definition symstate_ok :: "(nat \<Rightarrow> val) \<Rightarrow> symstate \<Rightarrow> bool" where
  "symstate_ok alloc st \<longleftrightarrow> symtab_ok (table st) \<and>
     (\<forall>s \<in> symbols (table st). \<exists>n < allocated st. sym_addr s = alloc n) \<and>
     inj_on sym_addr (symbols (table st))"

lemma symbols_data_inj:
  assumes "symtab_ok t" shows "inj_on sym_data (symbols t)"
proof (rule inj_onI)
  fix x y assume "x \<in> symbols t" "y \<in> symbols t" "sym_data x = sym_data y"
  moreover obtain k where k: "syms_ok k (t_buckets t)" using assms by (auto simp: symtab_ok_def)
  ultimately obtain i j where "i < 2 ^ k" "j < 2 ^ k" "t_buckets t ! i = Some x" "t_buckets t ! j = Some y"
    by (auto simp: symbols_def in_set_conv_nth slots_ok_def)
  moreover from this k \<open>sym_data x = sym_data y\<close> have "i = j" by (auto simp: slots_ok_def sym_entry)
  ultimately show "x = y" by simp
qed

lemma same_name_iff:
  "sym_code s = hash_str (sym_data s) \<Longrightarrow> sym_length s = length (sym_data s) \<Longrightarrow>
    same_name (hash_str name) name s \<longleftrightarrow> sym_data s = name"
  by (auto simp: same_name_def)

text \<open>The search from the home slot of a name.\<close>

lemma intern_probe:
  assumes ok: "syms_ok k b" and E: "None \<in> set b"
  shows "(\<exists>s i. probe (2 ^ k - 1) (intern_step (hash_str name) name b) (2 ^ k) (unat (hash_str name) AND (2 ^ k - 1)) =
       Inr (Some s, i) \<and> Some s \<in> set b \<and> sym_data s = name) \<or>
    (\<exists>p < 2 ^ k. probe (2 ^ k - 1) (intern_step (hash_str name) name b) (2 ^ k) (unat (hash_str name) AND (2 ^ k - 1)) =
       Inr (None, (unat (hash_str name) + p) mod 2 ^ k) \<and> name \<notin> sym_names b \<and>
       b ! ((unat (hash_str name) + p) mod 2 ^ k) = None \<and>
       (\<forall>q < p. b ! ((unat (hash_str name) + q) mod 2 ^ k) \<noteq> None))"
proof -
  define h where "h = hash_str name"
  let ?s = "\<lambda>q. (unat h + q) mod 2 ^ k"
  have slot: "(unat h mod 2 ^ k + q) mod 2 ^ k = ?s q" for q by (simp add: mod_add_left_eq)
  have len: "length b = 2 ^ k" using ok by (simp add: slots_ok_def)
  have wf: "sym_code s = hash_str (sym_data s) \<and> sym_length s = length (sym_data s)" if "b ! i = Some s" "i < 2 ^ k" for s i
    using ok that len nth_mem [of i b] by (fastforce simp: slots_ok_def sym_entry)
  let ?x = "Some \<lparr>sym_addr = 0, sym_code = h, sym_length = length name, sym_data = name\<rparr>"
  have x: "slot_symbol ?x" by (simp add: h_def)
  show ?thesis
  proof (cases "name \<in> sym_names b")
    case True
    then obtain i s where i: "i < 2 ^ k" "b ! i = Some s" "sym_data s = name"
      by (auto simp: slot_keys_nth sym_entry len)
    obtain p where p: "p < 2 ^ k" "?s p = i" "\<And>q. q < p \<Longrightarrow> b ! ?s q \<noteq> None"
      "\<And>q. q < p \<Longrightarrow> slot_same (b ! ?s q) ?x = Inr False"
      using sym_slots.chain_present [OF ok x i(1)] i by (auto simp: sym_entry)
    have "probe (2 ^ k - 1) (intern_step h name b) (2 ^ k) (unat h mod 2 ^ k) = Inr (Some s, i)"
    proof (rule probe_finds [of _ k p])
      show "intern_step h name b ((unat h mod 2 ^ k + p) mod 2 ^ k) = Inr (Some (Some s, i))"
        using p i wf [OF i(2,1)] unfolding slot by (simp add: intern_step_def same_name_iff h_def)
      show "intern_step h name b ((unat h mod 2 ^ k + q) mod 2 ^ k) = Inr None" if "q < p" for q
        using p(3,4) [OF that] unfolding slot by (auto simp: intern_step_def slot_same_def)
    qed (use p in simp_all)
    then show ?thesis using i len nth_mem [of i b] by (auto simp: and_mask_nat [simplified] h_def)
  next
    case False
    obtain p where p: "p < 2 ^ k" "\<And>q. q < p \<Longrightarrow> b ! ?s q \<noteq> None" "b ! ?s p = None"
      by (rule chain_stop [where stop = "\<lambda>x. x = None" and i = "unat h", OF len E]) auto
    have "probe (2 ^ k - 1) (intern_step h name b) (2 ^ k) (unat h mod 2 ^ k) = Inr (None, ?s p)"
    proof (rule probe_finds [of _ k p])
      show "intern_step h name b ((unat h mod 2 ^ k + q) mod 2 ^ k) = Inr None" if q: "q < p" for q
      proof -
        obtain s where s: "b ! ?s q = Some s" using p(2) [OF q] by auto
        then have "sym_data s \<noteq> name" using False by (auto simp: slot_keys_nth sym_entry len dest!: spec [of _ "?s q"])
        then show ?thesis using s wf [OF s] unfolding slot by (simp add: intern_step_def same_name_iff h_def)
      qed
    qed (use p in \<open>simp_all add: slot intern_step_def\<close>)
    then show ?thesis using p False by (intro disjI2 exI [of _ p]) (auto simp: and_mask_nat [simplified] h_def)
  qed
qed


lemma sym_intern_spec:
  assumes ok: "symstate_ok alloc st" and small: "t_size (table st) < 2 ^ 28" and alloc: "inj_on alloc {..allocated st}"
  shows "\<exists>s st'. sym_intern alloc st name = Inr (sym_addr s, st') \<and> symstate_ok alloc st' \<and>
    s \<in> symbols (table st') \<and> sym_data s = name \<and> symbols (table st) \<subseteq> symbols (table st') \<and>
    sym_data ` symbols (table st') = insert name (sym_data ` symbols (table st)) \<and>
    t_size (table st') \<le> t_size (table st) + 1 \<and> allocated st' \<le> allocated st + 1"
proof -
  have okt: "symtab_ok (table st)" using ok by (simp add: symstate_ok_def)
  have "\<exists>t. (if t_cap (table st) = 0 \<or> wrap32 (t_size (table st) * 2) \<ge> t_cap (table st)
      then table_grow (table st) else Inr (table st)) = Inr t \<and> symtab_ok t \<and> symbols t = symbols (table st) \<and>
      t_size t = t_size (table st) \<and> t_size t * 2 < t_cap t"
  proof -
    have w: "wrap32 (t_size (table st) * 2) = t_size (table st) * 2" using small by (simp add: wrap32_def)
    have "t_cap (table st) \<le> 2 ^ 29" if "t_size (table st) * 2 \<ge> t_cap (table st)" using that small by simp
    moreover have "t_cap (table st) \<noteq> 0" using okt by (auto simp: symtab_ok_def)
    ultimately show ?thesis unfolding w using table_grow_spec [OF okt] okt by auto
  qed
  then obtain t where t: "symtab_ok t" "symbols t = symbols (table st)" "t_size t = t_size (table st)" "t_size t * 2 < t_cap t"
    and t0: "(if t_cap (table st) = 0 \<or> wrap32 (t_size (table st) * 2) \<ge> t_cap (table st)
      then table_grow (table st) else Inr (table st)) = Inr t" by blast
  obtain k where k: "6 \<le> k" "k \<le> 30" "t_cap t = 2 ^ k" "syms_ok k (t_buckets t)" "t_size t = count_syms (t_buckets t)"
    using t(1) by (auto simp: symtab_ok_def)
  have E: "None \<in> set (t_buckets t)" using sym_empty_slot [OF k(4)] t(4) k(3,5) by simp
  consider (found) s i where "probe (t_cap t - 1) (intern_step (hash_str name) name (t_buckets t)) (t_cap t)
      (unat (hash_str name) AND (t_cap t - 1)) = Inr (Some s, i)" "s \<in> symbols t" "sym_data s = name"
    | (new) p where "p < 2 ^ k" "probe (t_cap t - 1) (intern_step (hash_str name) name (t_buckets t)) (t_cap t)
      (unat (hash_str name) AND (t_cap t - 1)) = Inr (None, (unat (hash_str name) + p) mod 2 ^ k)"
      "name \<notin> sym_names (t_buckets t)" "t_buckets t ! ((unat (hash_str name) + p) mod 2 ^ k) = None"
      "\<And>q. q < p \<Longrightarrow> t_buckets t ! ((unat (hash_str name) + q) mod 2 ^ k) \<noteq> None"
    using intern_probe [OF k(4) E, of name] unfolding k(3) symbols_def by blast
  then show ?thesis
  proof cases
    case found
    have "symstate_ok alloc (st\<lparr>table := t\<rparr>)" using ok t(1,2) by (simp add: symstate_ok_def)
    then show ?thesis
      using found t(2,3) t0 by (intro exI [of _ s] exI [of _ "st\<lparr>table := t\<rparr>"]) (auto simp: sym_intern_def)
  next
    case new
    let ?s = "\<lparr>sym_addr = alloc (allocated st), sym_code = hash_str name, sym_length = length name, sym_data = name\<rparr>"
    let ?i = "(unat (hash_str name) + p) mod 2 ^ k"
    let ?t = "t\<lparr>t_buckets := (t_buckets t)[?i := Some ?s], t_size := t_size t + 1\<rparr>"
    let ?st = "st\<lparr>table := ?t, allocated := allocated st + 1\<rparr>"
    have placed: "syms_ok k ((t_buckets t)[?i := Some ?s])"
      "count_syms ((t_buckets t)[?i := Some ?s]) = count_syms (t_buckets t) + 1"
      "\<And>x. Some x \<in> set ((t_buckets t)[?i := Some ?s]) \<longleftrightarrow> x = ?s \<or> Some x \<in> set (t_buckets t)"
      using place_symbol [OF k(4), of ?s p ?i] new by simp_all
    have syms: "symbols ?t = insert ?s (symbols (table st))" using placed(3) t(2) by (auto simp: symbols_def)
    obtain n where "k = Suc n" using k(1) by (cases k) auto
    then have "(t_size t + 1) * 2 \<le> t_cap t" using t(4) k(3) by simp
    then have "symtab_ok ?t" using k placed by (auto simp: symtab_ok_def)
    moreover have "sym_addr ?s \<notin> sym_addr ` symbols (table st)"
    proof
      assume "sym_addr ?s \<in> sym_addr ` symbols (table st)"
      then obtain n where "n < allocated st" "alloc (allocated st) = alloc n"
        using ok unfolding symstate_ok_def by fastforce
      with alloc show False by (auto dest: inj_onD)
    qed
    ultimately have "symstate_ok alloc ?st"
      using ok syms by (auto simp: symstate_ok_def less_Suc_eq)
    then show ?thesis
      using new(2) t(3) t0 syms
      by (intro exI [of _ ?s] exI [of _ ?st]) (auto simp: sym_intern_def Let_def)
  qed
qed

text \<open>After any sequence of calls the symbols of two names are the same exactly when the names are.\<close>

lemma intern_all_spec:
  assumes "symstate_ok alloc st" "t_size (table st) + length names \<le> 2 ^ 28"
    and "inj_on alloc {..<allocated st + length names}"
  shows "\<exists>vs st'. intern_all alloc st names = Inr (vs, st') \<and> symstate_ok alloc st' \<and> length vs = length names \<and>
    symbols (table st) \<subseteq> symbols (table st') \<and>
    sym_data ` symbols (table st') = sym_data ` symbols (table st) \<union> set names \<and>
    (\<forall>i < length names. \<exists>s \<in> symbols (table st'). sym_data s = names ! i \<and> sym_addr s = vs ! i)"
  using assms
proof (induction names arbitrary: st)
  case Nil
  then show ?case by simp
next
  case (Cons n names)
  have small: "t_size (table st) < 2 ^ 28" using Cons.prems(2) by simp
  have inj: "inj_on alloc {..allocated st}" by (rule inj_on_subset [OF Cons.prems(3)]) auto
  obtain s st1 where s: "sym_intern alloc st n = Inr (sym_addr s, st1)" "symstate_ok alloc st1" "s \<in> symbols (table st1)"
    "sym_data s = n" "symbols (table st) \<subseteq> symbols (table st1)" "t_size (table st1) \<le> t_size (table st) + 1"
    "allocated st1 \<le> allocated st + 1"
    "sym_data ` symbols (table st1) = insert n (sym_data ` symbols (table st))"
    using sym_intern_spec [OF Cons.prems(1) small inj] by blast
  have inj': "inj_on alloc {..<allocated st1 + length names}"
    by (rule inj_on_subset [OF Cons.prems(3)]) (use s(7) in auto)
  obtain vs st' where vs: "intern_all alloc st1 names = Inr (vs, st')" "symstate_ok alloc st'" "length vs = length names"
    "symbols (table st1) \<subseteq> symbols (table st')"
    "sym_data ` symbols (table st') = sym_data ` symbols (table st1) \<union> set names"
    "\<forall>i < length names. \<exists>s \<in> symbols (table st'). sym_data s = names ! i \<and> sym_addr s = vs ! i"
    using Cons.IH [OF s(2) _ inj'] s(6) Cons.prems(2) by auto
  have "\<exists>s \<in> symbols (table st'). sym_data s = (n # names) ! i \<and> sym_addr s = (sym_addr s # vs) ! i" if "i < Suc (length names)" for i
    using that vs(4,6) s(3,4) by (cases i) auto
  then show ?case
    using s vs by (intro exI [of _ "sym_addr s # vs"] exI [of _ st']) (auto simp: less_Suc_eq_0_disj)
qed

lemma intern_all_same_symbol:
  assumes "symstate_ok alloc st" "t_size (table st) + length names \<le> 2 ^ 28"
    and "inj_on alloc {..<allocated st + length names}"
  shows "\<exists>vs st'. intern_all alloc st names = Inr (vs, st') \<and> length vs = length names \<and>
    (\<forall>i < length names. \<forall>j < length names. vs ! i = vs ! j \<longleftrightarrow> names ! i = names ! j)"
proof -
  obtain vs st' where vs: "intern_all alloc st names = Inr (vs, st')" "symstate_ok alloc st'" "length vs = length names"
    "\<forall>i < length names. \<exists>s \<in> symbols (table st'). sym_data s = names ! i \<and> sym_addr s = vs ! i"
    using intern_all_spec [OF assms] by blast
  have inj: "inj_on sym_data (symbols (table st'))" "inj_on sym_addr (symbols (table st'))"
    using vs(2) symbols_data_inj by (auto simp: symstate_ok_def)
  have "vs ! i = vs ! j \<longleftrightarrow> names ! i = names ! j" if ij: "i < length names" "j < length names" for i j
  proof -
    obtain x y where "x \<in> symbols (table st')" "y \<in> symbols (table st')" "sym_data x = names ! i" "sym_data y = names ! j"
      "sym_addr x = vs ! i" "sym_addr y = vs ! j" using vs(4) ij by blast
    then show ?thesis using inj by (metis inj_on_def)
  qed
  with vs(1,3) show ?thesis by blast
qed


section \<open>Properties\<close>

text \<open>
  C17: Interning is a function of the name and injective on names: from the state after \<open>sym_init\<close>'s
  first allocation, any sequence of calls of \<open>sym_intern\<close> returns, and two calls return the same pointer
  exactly when their names have the same bytes, with every rehash of the table in between. The
  collector's allocation gives distinct addresses.
\<close>

theorem intern_canonical:
  assumes "inj_on alloc {..<length names}" "length names \<le> 2 ^ 28"
  shows "\<exists>vs st. sym_init alloc names = Inr (vs, st) \<and> length vs = length names \<and>
    (\<forall>i < length names. \<forall>j < length names. vs ! i = vs ! j \<longleftrightarrow> names ! i = names ! j)"
proof -
  obtain t where t: "table_grow \<lparr>t_buckets = [], t_cap = 0, t_size = 0\<rparr> = Inr t" "symtab_ok t" "symbols t = {}" "t_size t = 0"
    using table_grow_first by blast
  let ?st = "empty_table\<lparr>table := t\<rparr>"
  have "symstate_ok alloc ?st" using t by (simp add: symstate_ok_def)
  then show ?thesis
    using intern_all_same_symbol [of alloc ?st names] t assms by (simp add: sym_init_def empty_table_def)
qed

theorem intern_canonical_witness:
  "\<exists>vs st. sym_init (\<lambda>n. 16 * word_of_nat n) [[97], [98], [97]] = Inr (vs, st) \<and> vs ! 0 = vs ! 2 \<and> vs ! 0 \<noteq> vs ! 1"
proof -
  have "{..<length [[97], [98], [97 :: u8]]} = {0, 1, 2}" by auto
  then have "inj_on (\<lambda>n. 16 * word_of_nat n :: val) {..<length [[97], [98], [97 :: u8]]}" by simp
  then obtain vs st where "sym_init (\<lambda>n. 16 * word_of_nat n) [[97], [98], [97]] = Inr (vs, st)"
    and v: "\<And>i j. i < 3 \<Longrightarrow> j < 3 \<Longrightarrow> vs ! i = vs ! j \<longleftrightarrow> [[97], [98], [97]] ! i = ([[97], [98], [97]] ! j :: u8 list)"
    using intern_canonical [of "\<lambda>n. 16 * word_of_nat n" "[[97], [98], [97]]"] by auto
  moreover have "vs ! 0 = vs ! 2" "vs ! 0 \<noteq> vs ! 1" by (simp_all add: v)
  ultimately show ?thesis by blast
qed

end
