(* ===== verification/Env_Frame.thy ===== *)
theory Env_Frame
  imports Curry_Value Open_Addressing
begin

text \<open>
  Environment frames (\<open>src/src/env.c\<close>): parallel arrays of symbols and values, scanned linearly while
  small, with an open-addressing index of array positions once the frame has
  \<open>FRAME_HASH_THRESHOLD\<close> bindings. The lemmas refine a frame to a finite map from symbols to values;
  growing and indexing are not observable.
\<close>

section \<open>Representation\<close>

record frame =
  f_size :: nat
  f_cap :: nat
  f_syms :: "val list"
  f_vals :: "val list"
  f_parent :: "nat option"
  f_hidx :: "nat list"
  f_hcap :: nat
  f_version :: nat

definition FRAME_HASH_THRESHOLD :: nat where "FRAME_HASH_THRESHOLD = 16"
definition UINT32_MAX :: nat where "UINT32_MAX = 2 ^ 32 - 1"

text \<open>The 32-bit product before it is masked to the capacity of the index.\<close>

definition sym_code32 :: "val \<Rightarrow> u32" where
  "sym_code32 s = ucast (drop_bit 3 s * 2654435761)"

definition frame_sym_hash :: "val \<Rightarrow> nat \<Rightarrow> nat" where
  "frame_sym_hash s hcap = unat (sym_code32 s) AND (hcap - 1)"

section \<open>Operations\<close>

definition hash_insert :: "nat list \<Rightarrow> nat \<Rightarrow> val list \<Rightarrow> nat \<Rightarrow> nat list res" where
  "hash_insert hidx hcap syms idx =
     rbind (probe (hcap - 1) (free_step (\<lambda>x. x = UINT32_MAX) hidx) hcap (frame_sym_hash (syms ! idx) hcap))
       (\<lambda>h. Inr (hidx[h := idx]))"

fun hash_insert_from :: "nat list \<Rightarrow> nat \<Rightarrow> val list \<Rightarrow> nat list \<Rightarrow> nat list res" where
  "hash_insert_from hidx hcap syms [] = Inr hidx"
| "hash_insert_from hidx hcap syms (i # is) =
     rbind (hash_insert hidx hcap syms i) (\<lambda>hidx'. hash_insert_from hidx' hcap syms is)"

text \<open>
  \<open>while (hcap < size * 2) hcap <<= 1;\<close> after 32 shifts \<open>hcap\<close> is 0 and stays 0, so a loop that has not
  ended by then never ends.
\<close>

fun double_until :: "nat \<Rightarrow> nat \<Rightarrow> nat \<Rightarrow> nat res" where
  "double_until 0 hcap n = Inl Diverges"
| "double_until (Suc fuel) hcap n = (if hcap < n then double_until fuel (wrap32 (hcap * 2)) n else Inr hcap)"

definition frame_build_hash :: "frame \<Rightarrow> frame res" where
  "frame_build_hash f =
     rbind (double_until 33 4 (wrap32 (f_size f * 2))) (\<lambda>hcap.
     rbind (hash_insert_from (replicate hcap UINT32_MAX) hcap (f_syms f) [0..<f_size f]) (\<lambda>hidx.
     Inr (f\<lparr>f_hidx := hidx, f_hcap := hcap\<rparr>)))"

definition frame_hash_rehash :: "frame \<Rightarrow> frame res" where
  "frame_hash_rehash f =
     rbind (double_until 33 (f_hcap f) (wrap32 (f_size f * 2))) (\<lambda>hcap.
     if hcap = f_hcap f then
       rbind (hash_insert (f_hidx f) (f_hcap f) (f_syms f) (f_size f - 1)) (\<lambda>hidx. Inr (f\<lparr>f_hidx := hidx\<rparr>))
     else
       rbind (hash_insert_from (replicate hcap UINT32_MAX) hcap (f_syms f) [0..<f_size f]) (\<lambda>hidx.
       Inr (f\<lparr>f_hidx := hidx, f_hcap := hcap\<rparr>)))"

definition frame_new :: "nat \<Rightarrow> nat option \<Rightarrow> frame" where
  "frame_new cap parent =
     (let c = (if cap \<noteq> 0 then cap else 8)
      in \<lparr>f_size = 0, f_cap = c, f_syms = replicate c 0, f_vals = replicate c 0, f_parent = parent,
          f_hidx = [], f_hcap = 0, f_version = 0\<rparr>)"

definition frame_grow :: "frame \<Rightarrow> frame" where
  "frame_grow f =
     (let new_cap = wrap32 (f_cap f * 2)
      in f\<lparr>f_syms := take (f_size f) (f_syms f) @ replicate (new_cap - f_size f) 0,
           f_vals := take (f_size f) (f_vals f) @ replicate (new_cap - f_size f) 0,
           f_cap := new_cap\<rparr>)"

text \<open>
  The search shared by \<open>frame_define_unlocked\<close>, \<open>frame_set_unlocked\<close> and \<open>frame_lookup_unlocked\<close>: the
  position of the symbol, through the index if there is one.
\<close>

definition index_step :: "nat list \<Rightarrow> val list \<Rightarrow> val \<Rightarrow> nat \<Rightarrow> nat option option res" where
  "index_step hidx syms s h =
     (let idx = hidx ! h
      in Inr (if idx = UINT32_MAX then Some None else if syms ! idx = s then Some (Some idx) else None))"

definition frame_find :: "frame \<Rightarrow> val \<Rightarrow> nat option res" where
  "frame_find f s =
     (if f_hcap f \<noteq> 0 then
        probe (f_hcap f - 1) (index_step (f_hidx f) (f_syms f) s) (f_hcap f) (frame_sym_hash s (f_hcap f))
      else Inr (find (\<lambda>i. f_syms f ! i = s) [0..<f_size f]))"

definition frame_define_unlocked :: "frame \<Rightarrow> val \<Rightarrow> val \<Rightarrow> frame res" where
  "frame_define_unlocked f s v =
     rbind (frame_find f s) (\<lambda>r. case r of
       Some idx \<Rightarrow> Inr (f\<lparr>f_vals := (f_vals f)[idx := v]\<rparr>)
     | None \<Rightarrow>
         let f1 = (if f_size f \<ge> f_cap f then frame_grow f else f);
             f2 = f1\<lparr>f_syms := (f_syms f1)[f_size f := s], f_vals := (f_vals f1)[f_size f := v],
                     f_size := f_size f + 1\<rparr>
         in if f_hcap f2 \<noteq> 0 then frame_hash_rehash f2
            else if f_size f2 \<ge> FRAME_HASH_THRESHOLD then frame_build_hash f2
            else Inr f2)"

definition frame_is_global :: "frame \<Rightarrow> bool" where
  "frame_is_global f \<longleftrightarrow> f_parent f = None"

text \<open>A whole \<open>frame_define\<close>; on a root frame it ends with the version advanced by two.\<close>

definition frame_define :: "frame \<Rightarrow> val \<Rightarrow> val \<Rightarrow> frame res" where
  "frame_define f s v =
     (if \<not> frame_is_global f then frame_define_unlocked f s v
      else rbind (frame_define_unlocked f s v) (\<lambda>f'. Inr (f'\<lparr>f_version := wrap32 (f_version f + 2)\<rparr>)))"

definition frame_set :: "frame \<Rightarrow> val \<Rightarrow> val \<Rightarrow> (bool \<times> frame) res" where
  "frame_set f s v =
     rbind (frame_find f s) (\<lambda>r. Inr (case r of
       Some idx \<Rightarrow> (True, f\<lparr>f_vals := (f_vals f)[idx := v]\<rparr>) | None \<Rightarrow> (False, f)))"

text \<open>A slot pointer into the frame is the position; reading through it gives the value.\<close>

definition frame_lookup :: "frame \<Rightarrow> val \<Rightarrow> val option res" where
  "frame_lookup f s = rbind (frame_find f s) (\<lambda>r. Inr (map_option (\<lambda>idx. f_vals f ! idx) r))"

definition frame_snapshot_bindings :: "frame \<Rightarrow> val list \<times> val list" where
  "frame_snapshot_bindings f = (take (f_size f) (f_syms f), take (f_size f) (f_vals f))"

section \<open>Invariant and abstraction\<close>

definition idx_hash :: "val list \<Rightarrow> nat \<Rightarrow> u32 res" where
  "idx_hash syms i = Inr (sym_code32 (syms ! i))"

interpretation idx_hashing: key_hashing "idx_hash syms" "\<lambda>i j. Inr (syms ! i = syms ! j)" "\<lambda>i. i < n" "\<lambda>i. syms ! i"
  for syms n
  by unfold_locales (auto simp: idx_hash_def)

abbreviation index_ok :: "val list \<Rightarrow> nat \<Rightarrow> nat \<Rightarrow> nat list \<Rightarrow> bool" where
  "index_ok syms n k hidx \<equiv>
     slots_ok UINT32_MAX UINT32_MAX (idx_hash syms) (\<lambda>i. i < n) (\<lambda>i. syms ! i) k hidx"

abbreviation index_count :: "nat list \<Rightarrow> nat" where
  "index_count hidx \<equiv> length (filter (\<lambda>i. i \<noteq> UINT32_MAX) hidx)"

text \<open>The bindings in order of definition; the bound keeps every size below the sizes that wrap.\<close>

definition frame_ok :: "frame \<Rightarrow> bool" where
  "frame_ok f \<longleftrightarrow>
     f_size f \<le> f_cap f \<and> 0 < f_cap f \<and> f_cap f \<le> max 64 (f_size f * 2) \<and> f_size f \<le> 2 ^ 28 \<and>
     length (f_syms f) = f_cap f \<and> length (f_vals f) = f_cap f \<and> distinct (take (f_size f) (f_syms f)) \<and>
     (if f_hcap f = 0 then f_size f < FRAME_HASH_THRESHOLD
      else \<exists>k. 2 \<le> k \<and> k \<le> 30 \<and> f_hcap f = 2 ^ k \<and> f_size f * 2 \<le> f_hcap f \<and>
        index_ok (f_syms f) (f_size f) k (f_hidx f) \<and>
        {i \<in> set (f_hidx f). i \<noteq> UINT32_MAX} = {..<f_size f})"

definition frame_map :: "frame \<Rightarrow> val \<rightharpoonup> val" where
  "frame_map f = map_of (zip (take (f_size f) (f_syms f)) (take (f_size f) (f_vals f)))"

lemma frame_map_iff:
  assumes "frame_ok f"
  shows "frame_map f s = Some v \<longleftrightarrow> (\<exists>i < f_size f. f_syms f ! i = s \<and> f_vals f ! i = v)"
  using assms unfolding frame_map_def frame_ok_def
  by (subst map_of_eq_Some_iff) (auto simp: set_zip, metis nth_take)

lemma frame_map_None:
  assumes "frame_ok f"
  shows "frame_map f s = None \<longleftrightarrow> (\<forall>i < f_size f. f_syms f ! i \<noteq> s)"
  using frame_map_iff [OF assms, of s] by (metis not_None_eq)

lemma syms_inj:
  assumes "frame_ok f" "i < f_size f" "j < f_size f" "f_syms f ! i = f_syms f ! j"
  shows "i = j"
  using assms unfolding frame_ok_def
  by (metis (no_types, lifting) distinct_conv_nth length_take min.absorb2 nth_take)


abbreviation indexed :: "nat list \<Rightarrow> nat set" where
  "indexed hidx \<equiv> {i \<in> set hidx. i \<noteq> UINT32_MAX}"

lemma idx_entry: "entry UINT32_MAX UINT32_MAX = (\<lambda>i. i \<noteq> UINT32_MAX)"
  by (simp add: entry_def fun_eq_iff)

lemma idx_home [simp]: "home (idx_hash syms) i = unat (sym_code32 (syms ! i))"
  by (simp add: home_def idx_hash_def)

lemma index_free_slot:
  assumes "index_ok syms n k hidx" "card (indexed hidx) < 2 ^ k"
  shows "UINT32_MAX \<in> set hidx"
proof (rule ccontr)
  assume no: "UINT32_MAX \<notin> set hidx"
  then have all: "filter (entry UINT32_MAX UINT32_MAX) hidx = hidx"
    by (intro filter_True) (auto simp: idx_entry)
  then have "distinct (map (\<lambda>i. syms ! i) hidx)" using slots_ok_distinct [OF assms(1)] by simp
  then have "distinct hidx" by (simp add: distinct_map)
  moreover have "indexed hidx = set hidx" using no by auto
  moreover have "length hidx = 2 ^ k" using assms(1) by (simp add: slots_ok_def)
  ultimately show False using assms(2) by (simp add: distinct_card)
qed

section \<open>Searching\<close>

lemma index_search:
  assumes ok: "index_ok syms n k hidx" and all: "indexed hidx = {..<n}" and room: "n < 2 ^ k"
  shows "\<exists>r. probe (2 ^ k - 1) (index_step hidx syms s) (2 ^ k) (frame_sym_hash s (2 ^ k)) = Inr r \<and>
    (case r of None \<Rightarrow> \<forall>i < n. syms ! i \<noteq> s | Some i \<Rightarrow> i < n \<and> syms ! i = s)"
proof -
  let ?c = "unat (sym_code32 s)" let ?s = "\<lambda>q. (?c + q) mod 2 ^ k"
  have len: "length hidx = 2 ^ k" using ok by (simp add: slots_ok_def)
  have slot: "(?c mod 2 ^ k + q) mod 2 ^ k = ?s q" for q by (simp add: mod_add_left_eq)
  have h: "frame_sym_hash s (2 ^ k) = ?c mod 2 ^ k" by (simp add: frame_sym_hash_def and_mask_nat [simplified])
  show ?thesis
  proof (cases "\<exists>i < n. syms ! i = s")
    case True
    then obtain i where i: "i < n" "syms ! i = s" by blast
    then have "i \<in> indexed hidx" using all by simp
    then obtain j where j: "j < 2 ^ k" "hidx ! j = i" "i \<noteq> UINT32_MAX"
      using len by (auto simp: in_set_conv_nth)
    have e: "entry UINT32_MAX UINT32_MAX (hidx ! j)" "syms ! (hidx ! j) = syms ! i"
      using j by (simp_all add: idx_entry)
    obtain p where p: "p < 2 ^ k" "?s p = j" "\<And>q. q < p \<Longrightarrow> hidx ! ?s q \<noteq> UINT32_MAX"
      "\<And>q. q < p \<Longrightarrow> syms ! (hidx ! ?s q) \<noteq> s"
      using idx_hashing.chain_present [OF ok i(1) j(1) e] i(2) by (auto simp: idx_entry)
    have "probe (2 ^ k - 1) (index_step hidx syms s) (2 ^ k) (?c mod 2 ^ k) = Inr (Some i)"
      by (rule probe_finds [of _ k p]) (use p j i in \<open>auto simp: slot index_step_def\<close>)
    with i h show ?thesis by auto
  next
    case False
    have "card (indexed hidx) < 2 ^ k" using all room by simp
    then have E: "UINT32_MAX \<in> set hidx" by (rule index_free_slot [OF ok])
    obtain p where p: "p < 2 ^ k" "\<And>q. q < p \<Longrightarrow> hidx ! ?s q \<noteq> UINT32_MAX" "hidx ! ?s p = UINT32_MAX"
      by (rule chain_stop [where stop = "\<lambda>x. x = UINT32_MAX" and i = ?c, OF len E]) auto
    have "hidx ! ?s q < n" if q: "q < p" for q
    proof -
      have "hidx ! ?s q \<in> set hidx" by (simp add: len)
      then have "hidx ! ?s q \<in> indexed hidx" using p(2) [OF q] by simp
      then show ?thesis unfolding all by simp
    qed
    then have "probe (2 ^ k - 1) (index_step hidx syms s) (2 ^ k) (?c mod 2 ^ k) = Inr None"
      by (intro probe_finds [of _ k p]) (use p False in \<open>auto simp: slot index_step_def\<close>)
    with False h show ?thesis by auto
  qed
qed

lemma frame_find_spec:
  assumes "frame_ok f"
  shows "\<exists>r. frame_find f s = Inr r \<and>
    (case r of None \<Rightarrow> \<forall>i < f_size f. f_syms f ! i \<noteq> s | Some i \<Rightarrow> i < f_size f \<and> f_syms f ! i = s)"
proof (cases "f_hcap f = 0")
  case True
  then show ?thesis
    by (auto simp: frame_find_def find_None_iff find_Some_iff split: option.splits)
next
  case False
  then obtain k where k: "2 \<le> k" "f_hcap f = 2 ^ k" "f_size f * 2 \<le> f_hcap f"
    "index_ok (f_syms f) (f_size f) k (f_hidx f)" "indexed (f_hidx f) = {..<f_size f}"
    using assms by (auto simp: frame_ok_def)
  have "f_size f < 2 ^ k" using k(2,3) zero_less_power [of "2::nat" k] by linarith
  from index_search [OF k(4,5) this, of s] show ?thesis by (simp add: frame_find_def k(2))
qed

lemma frame_lookup_spec:
  assumes "frame_ok f" shows "frame_lookup f s = Inr (frame_map f s)"
proof -
  obtain r where r: "frame_find f s = Inr r"
    "case r of None \<Rightarrow> \<forall>i < f_size f. f_syms f ! i \<noteq> s | Some i \<Rightarrow> i < f_size f \<and> f_syms f ! i = s"
    using frame_find_spec [OF assms] by blast
  show ?thesis
  proof (cases r)
    case None
    then have "frame_map f s = None" using r(2) frame_map_None [OF assms, of s] by simp
    with None r(1) show ?thesis by (simp add: frame_lookup_def)
  next
    case (Some i)
    then have "frame_map f s = Some (f_vals f ! i)" using r(2) frame_map_iff [OF assms, of s] by auto
    with Some r(1) show ?thesis by (simp add: frame_lookup_def)
  qed
qed

section \<open>Indexing\<close>

lemma hash_insert_spec:
  assumes ok: "index_ok syms n k hidx" and i: "i < n" "i \<noteq> UINT32_MAX"
    and new: "\<forall>j \<in> indexed hidx. syms ! j \<noteq> syms ! i" and room: "card (indexed hidx) < 2 ^ k"
  shows "\<exists>hidx'. hash_insert hidx (2 ^ k) syms i = Inr hidx' \<and> index_ok syms n k hidx' \<and>
    indexed hidx' = insert i (indexed hidx)"
proof -
  let ?c = "unat (sym_code32 (syms ! i))"
  have len: "length hidx = 2 ^ k" using ok by (simp add: slots_ok_def)
  obtain p where p: "p < 2 ^ k" "\<And>q. q < p \<Longrightarrow> hidx ! ((?c + q) mod 2 ^ k) \<noteq> UINT32_MAX"
      "hidx ! ((?c + p) mod 2 ^ k) = UINT32_MAX"
      "probe (2 ^ k - 1) (free_step (\<lambda>x. x = UINT32_MAX) hidx) (2 ^ k) (?c mod 2 ^ k) = Inr ((?c + p) mod 2 ^ k)"
    by (rule free_probe [where stop = "\<lambda>x. x = UINT32_MAX" and i = ?c, OF len index_free_slot [OF ok room]]) auto
  let ?h = "(?c + p) mod 2 ^ k"
  have ok': "index_ok syms n k (hidx[?h := i])"
  proof -
    have "syms ! i \<notin> slot_keys UINT32_MAX UINT32_MAX (\<lambda>i. syms ! i) hidx"
      using new by (force simp: idx_entry slot_keys_def)
    from slots_ok_place [OF ok _ i(1) this p(1)] show ?thesis using p(2) i(2) by (simp add: idx_entry)
  qed
  have "?h < length hidx" by (simp add: len)
  then have "set hidx = insert (hidx ! ?h) (set (take ?h hidx) \<union> set (drop (Suc ?h) hidx))"
    by (subst id_take_nth_drop [of ?h hidx]) auto
  moreover have "set (hidx[?h := i]) = insert i (set (take ?h hidx) \<union> set (drop (Suc ?h) hidx))"
    using \<open>?h < length hidx\<close> by (simp add: upd_conv_take_nth_drop)
  ultimately have "indexed (hidx[?h := i]) = insert i (indexed hidx)" using p(3) i(2) by auto
  with ok' p(4) show ?thesis
    by (simp add: hash_insert_def frame_sym_hash_def and_mask_nat [simplified])
qed

lemma hash_insert_from_spec:
  assumes "index_ok syms n k hidx" "n \<le> 2 ^ 28" "n < 2 ^ k" "set is \<subseteq> {..<n}" "distinct is" "indexed hidx \<subseteq> {..<n}"
    and "inj_on (\<lambda>i. syms ! i) {..<n}" "set is \<inter> indexed hidx = {}"
  shows "\<exists>hidx'. hash_insert_from hidx (2 ^ k) syms is = Inr hidx' \<and> index_ok syms n k hidx' \<and>
    indexed hidx' = indexed hidx \<union> set is"
  using assms(1,4-6,8)
proof (induction "is" arbitrary: hidx)
  case Nil
  then show ?case by simp
next
  case (Cons i "is")
  have i: "i < n" "i \<noteq> UINT32_MAX" using Cons.prems(2) assms(2) by (auto simp: UINT32_MAX_def)
  have "card (indexed hidx) \<le> card {..<n}" using Cons.prems(4) by (intro card_mono) auto
  then have room: "card (indexed hidx) < 2 ^ k" using assms(3) by simp
  have new: "\<forall>j \<in> indexed hidx. syms ! j \<noteq> syms ! i"
  proof (intro ballI notI)
    fix j assume j: "j \<in> indexed hidx" "syms ! j = syms ! i"
    then have "j \<in> {..<n}" using Cons.prems(4) by auto
    with j(2) i(1) assms(7) have "j = i" by (auto dest: inj_onD)
    with j(1) Cons.prems(5) show False by auto
  qed
  obtain h1 where h1: "hash_insert hidx (2 ^ k) syms i = Inr h1" "index_ok syms n k h1" "indexed h1 = insert i (indexed hidx)"
    using hash_insert_spec [OF Cons.prems(1) i new room] by blast
  have "\<exists>hidx'. hash_insert_from h1 (2 ^ k) syms is = Inr hidx' \<and> index_ok syms n k hidx' \<and> indexed hidx' = indexed h1 \<union> set is"
    by (rule Cons.IH) (use h1 Cons.prems i in auto)
  with h1 show ?case by auto
qed

lemma double_until_spec:
  assumes "n \<le> 2 ^ 30" "k \<le> 30" "30 - k < fuel"
  shows "\<exists>k'. k \<le> k' \<and> k' \<le> 30 \<and> double_until fuel (2 ^ k) n = Inr (2 ^ k') \<and> n \<le> 2 ^ k'"
  using assms(2,3)
proof (induction fuel arbitrary: k)
  case (Suc fuel)
  show ?case
  proof (cases "2 ^ k < n")
    case True
    then have "(2::nat) ^ k < 2 ^ 30" using assms(1) by linarith
    then have k: "k < 30" by (rule power_less_imp_less_exp [rotated]) simp
    then have "(2::nat) ^ Suc k \<le> 2 ^ 30" by (intro power_increasing) auto
    then have "wrap32 (2 ^ k * 2) = 2 ^ Suc k" by (simp add: wrap32_def)
    with True Suc.IH [of "Suc k"] Suc.prems k show ?thesis by (fastforce dest: Suc_leD)
  next
    case False
    with Suc.prems show ?thesis by (intro exI [of _ k]) auto
  qed
qed simp


section \<open>Defining and setting\<close>

lemma inj_syms_take:
  "distinct (take n xs) \<Longrightarrow> n \<le> length xs \<Longrightarrow> inj_on (\<lambda>i. xs ! i) {..<n}"
  by (auto simp: inj_on_def distinct_conv_nth)

lemma frame_build_hash_spec:
  assumes "f_size f \<le> 2 ^ 28" "length (f_syms f) \<ge> f_size f" "distinct (take (f_size f) (f_syms f))" "0 < f_size f"
  shows "\<exists>k hidx. frame_build_hash f = Inr (f\<lparr>f_hidx := hidx, f_hcap := 2 ^ k\<rparr>) \<and> 2 \<le> k \<and> k \<le> 30 \<and>
    f_size f * 2 \<le> 2 ^ k \<and> index_ok (f_syms f) (f_size f) k hidx \<and> indexed hidx = {..<f_size f}"
proof -
  have w: "wrap32 (f_size f * 2) = f_size f * 2" using assms(1) by (simp add: wrap32_def)
  obtain k where k: "2 \<le> k" "k \<le> 30" "double_until 33 (2 ^ 2) (f_size f * 2) = Inr (2 ^ k)" "f_size f * 2 \<le> 2 ^ k"
    using double_until_spec [of "f_size f * 2" 2 33] assms(1) by auto
  have lt: "f_size f < 2 ^ k" using k(4) assms(4) by linarith
  have "indexed (replicate (2 ^ k) UINT32_MAX) = {}" by auto
  then obtain hidx where "hash_insert_from (replicate (2 ^ k) UINT32_MAX) (2 ^ k) (f_syms f) [0..<f_size f] = Inr hidx"
    "index_ok (f_syms f) (f_size f) k hidx" "indexed hidx = {..<f_size f}"
    using hash_insert_from_spec [OF slots_ok_empty assms(1) lt, of "[0..<f_size f]" "f_syms f"]
      inj_syms_take [OF assms(3,2)] by (auto simp: atLeast0LessThan)
  with k show ?thesis by (auto simp: frame_build_hash_def w)
qed

text \<open>Appending a binding keeps the index of the bindings before it.\<close>

lemma index_ok_extend:
  assumes "index_ok syms n k hidx" "indexed hidx = {..<n}" "n < length syms"
  shows "index_ok (syms[n := s]) (Suc n) k hidx"
proof (rule slots_ok_cong [OF assms(1)])
  fix x assume "x \<in> set hidx" "entry UINT32_MAX UINT32_MAX x"
  then have "x < n" using assms(2) by (auto simp: idx_entry)
  then show "idx_hash (syms[n := s]) x = idx_hash syms x \<and> syms[n := s] ! x = syms ! x \<and> x < Suc n"
    by (simp add: idx_hash_def)
qed

lemma frame_hash_rehash_spec:
  assumes "0 < f_size f" "f_size f \<le> 2 ^ 28" "length (f_syms f) \<ge> f_size f" "distinct (take (f_size f) (f_syms f))"
    and "2 \<le> k" "k \<le> 30" "f_hcap f = 2 ^ k" "(f_size f - 1) * 2 \<le> 2 ^ k"
    and "index_ok (f_syms f) (f_size f) k (f_hidx f)" "indexed (f_hidx f) = {..<f_size f - 1}"
  shows "\<exists>k' hidx. frame_hash_rehash f = Inr (f\<lparr>f_hidx := hidx, f_hcap := 2 ^ k'\<rparr>) \<and> 2 \<le> k' \<and> k' \<le> 30 \<and>
    f_size f * 2 \<le> 2 ^ k' \<and> index_ok (f_syms f) (f_size f) k' hidx \<and> indexed hidx = {..<f_size f}"
proof -
  have w: "wrap32 (f_size f * 2) = f_size f * 2" using assms(2) by (simp add: wrap32_def)
  obtain k' where k': "k \<le> k'" "k' \<le> 30" "double_until 33 (2 ^ k) (f_size f * 2) = Inr (2 ^ k')" "f_size f * 2 \<le> 2 ^ k'"
  proof -
    have "f_size f * 2 \<le> 2 ^ 30" "30 - k < 33" using assms(2,6) by simp_all
    then show thesis using double_until_spec [of "f_size f * 2" k 33] assms(6) that by blast
  qed
  note inj = inj_syms_take [OF assms(4,3)]
  show ?thesis
  proof (cases "k' = k")
    case True
    have i: "f_size f - 1 < f_size f" "f_size f - 1 \<noteq> UINT32_MAX" using assms(1,2) by (auto simp: UINT32_MAX_def)
    have new: "\<forall>j \<in> indexed (f_hidx f). f_syms f ! j \<noteq> f_syms f ! (f_size f - 1)"
    proof (intro ballI notI)
      fix j assume j: "j \<in> indexed (f_hidx f)" "f_syms f ! j = f_syms f ! (f_size f - 1)"
      then have "j < f_size f - 1" using assms(10) by simp
      with j(2) inj i(1) show False by (metis inj_onD lessThan_iff less_irrefl less_trans)
    qed
    have "card (indexed (f_hidx f)) < 2 ^ k" using assms(1,10) k'(4) True by simp
    then obtain hidx where hidx: "hash_insert (f_hidx f) (2 ^ k) (f_syms f) (f_size f - 1) = Inr hidx"
      "index_ok (f_syms f) (f_size f) k hidx" "indexed hidx = insert (f_size f - 1) (indexed (f_hidx f))"
      using hash_insert_spec [OF assms(9) i new] by blast
    moreover have "insert (f_size f - 1) {..<f_size f - 1} = {..<f_size f}" using assms(1) by auto
    moreover have "f\<lparr>f_hidx := hidx\<rparr> = f\<lparr>f_hidx := hidx, f_hcap := 2 ^ k\<rparr>" using assms(7) by simp
    ultimately show ?thesis using k' True assms(5,7,10)
      by (intro exI [of _ k] exI [of _ hidx]) (simp add: frame_hash_rehash_def w)
  next
    case False
    have lt: "f_size f < 2 ^ k'" using k'(4) assms(1) by linarith
    have "indexed (replicate (2 ^ k') UINT32_MAX) = {}" by auto
    then obtain hidx where "hash_insert_from (replicate (2 ^ k') UINT32_MAX) (2 ^ k') (f_syms f) [0..<f_size f] = Inr hidx"
      "index_ok (f_syms f) (f_size f) k' hidx" "indexed hidx = {..<f_size f}"
      using hash_insert_from_spec [OF slots_ok_empty assms(2) lt, of "[0..<f_size f]" "f_syms f"] inj
      by (auto simp: atLeast0LessThan)
    with k' False assms(5,7) show ?thesis
      by (intro exI [of _ k'] exI [of _ hidx]) (auto simp: frame_hash_rehash_def w)
  qed
qed

text \<open>A frame whose binding at position \<open>f_size - 1\<close> is not indexed yet, indexed as \<open>frame_define\<close> does it.\<close>

definition frame_index :: "frame \<Rightarrow> frame res" where
  "frame_index f = (if f_hcap f \<noteq> 0 then frame_hash_rehash f
     else if f_size f \<ge> FRAME_HASH_THRESHOLD then frame_build_hash f else Inr f)"

lemma frame_append_ok:
  assumes ok: "frame_ok f" and small: "f_size f < 2 ^ 28" and room: "f_size f < f_cap f"
    and new: "\<forall>i < f_size f. f_syms f ! i \<noteq> s"
    and f2: "f2 = f\<lparr>f_syms := (f_syms f)[f_size f := s], f_vals := (f_vals f)[f_size f := v], f_size := f_size f + 1\<rparr>"
  shows "\<exists>f'. frame_index f2 = Inr f' \<and> frame_ok f' \<and> f_size f' = f_size f2 \<and> f_syms f' = f_syms f2 \<and>
    f_vals f' = f_vals f2 \<and> f_parent f' = f_parent f \<and> f_version f' = f_version f \<and> f_cap f' = f_cap f"
proof -
  have a: "f_cap f \<le> max 64 (f_size f * 2)" "length (f_syms f) = f_cap f" "length (f_vals f) = f_cap f"
    "distinct (take (f_size f) (f_syms f))" using ok by (auto simp: frame_ok_def)
  have len: "f_size f2 \<le> length (f_syms f2)" using room a(2) by (simp add: f2)
  have "take (Suc (f_size f)) ((f_syms f)[f_size f := s]) = take (f_size f) (f_syms f) @ [s]"
    using room a(2) by (simp add: take_Suc_conv_app_nth)
  moreover have "s \<notin> set (take (f_size f) (f_syms f))" using new by (auto simp: in_set_conv_nth)
  ultimately have dist: "distinct (take (f_size f2) (f_syms f2))" using a(4) by (simp add: f2)
  have base: "0 < f_size f2" "f_size f2 \<le> 2 ^ 28" "f_size f2 \<le> f_cap f" "f_cap f \<le> max 64 (f_size f2 * 2)"
    "length (f_syms f2) = f_cap f" "length (f_vals f2) = f_cap f" "f_cap f2 = f_cap f" "0 < f_cap f"
    "f_parent f2 = f_parent f" "f_version f2 = f_version f" "f_hcap f2 = f_hcap f" "f_hidx f2 = f_hidx f"
    using small room a by (auto simp: f2)
  show ?thesis
  proof (cases "f_hcap f = 0")
    case True
    show ?thesis
    proof (cases "f_size f2 \<ge> FRAME_HASH_THRESHOLD")
      case big: True
      obtain k hidx where "frame_build_hash f2 = Inr (f2\<lparr>f_hidx := hidx, f_hcap := 2 ^ k\<rparr>)" "2 \<le> k" "k \<le> 30"
        "f_size f2 * 2 \<le> 2 ^ k" "index_ok (f_syms f2) (f_size f2) k hidx" "indexed hidx = {..<f_size f2}"
        using frame_build_hash_spec [OF base(2) len dist base(1)] by blast
      with big True base dist show ?thesis by (auto simp: frame_index_def frame_ok_def)
    next
      case False
      with True base dist show ?thesis by (auto simp: frame_index_def frame_ok_def)
    qed
  next
    case False
    then obtain k where k: "2 \<le> k" "k \<le> 30" "f_hcap f = 2 ^ k" "f_size f * 2 \<le> f_hcap f"
      "index_ok (f_syms f) (f_size f) k (f_hidx f)" "indexed (f_hidx f) = {..<f_size f}"
      using ok by (auto simp: frame_ok_def)
    have idx: "index_ok (f_syms f2) (f_size f2) k (f_hidx f2)"
      using index_ok_extend [OF k(5,6)] room a(2) by (simp add: f2)
    have "\<exists>k' hidx. frame_hash_rehash f2 = Inr (f2\<lparr>f_hidx := hidx, f_hcap := 2 ^ k'\<rparr>) \<and> 2 \<le> k' \<and> k' \<le> 30 \<and>
      f_size f2 * 2 \<le> 2 ^ k' \<and> index_ok (f_syms f2) (f_size f2) k' hidx \<and> indexed hidx = {..<f_size f2}"
      by (rule frame_hash_rehash_spec [OF base(1,2) len dist k(1,2) _ _ idx]) (use k in \<open>auto simp: f2\<close>)
    then obtain k' hidx where "frame_hash_rehash f2 = Inr (f2\<lparr>f_hidx := hidx, f_hcap := 2 ^ k'\<rparr>)" "2 \<le> k'" "k' \<le> 30"
      "f_size f2 * 2 \<le> 2 ^ k'" "index_ok (f_syms f2) (f_size f2) k' hidx" "indexed hidx = {..<f_size f2}" by blast
    with False base dist show ?thesis by (auto simp: frame_index_def frame_ok_def)
  qed
qed


lemma frame_grow_ok:
  assumes "frame_ok f" "f_size f < 2 ^ 28" "f_cap f \<le> f_size f"
  shows "frame_ok (frame_grow f)" "f_size (frame_grow f) = f_size f" "f_size f < f_cap (frame_grow f)"
    "\<And>i. i < f_size f \<Longrightarrow> f_syms (frame_grow f) ! i = f_syms f ! i"
    "\<And>i. i < f_size f \<Longrightarrow> f_vals (frame_grow f) ! i = f_vals f ! i"
    "f_parent (frame_grow f) = f_parent f" "f_version (frame_grow f) = f_version f"
proof -
  have a: "f_size f = f_cap f" "0 < f_cap f" "length (f_syms f) = f_cap f" "length (f_vals f) = f_cap f"
    using assms by (auto simp: frame_ok_def)
  have w: "wrap32 (f_cap f * 2) = f_cap f * 2" using assms(2) a(1) by (simp add: wrap32_def)
  have syms: "f_syms (frame_grow f) = f_syms f @ replicate (f_cap f) 0"
    using a by (simp add: frame_grow_def w Let_def)
  show "f_size (frame_grow f) = f_size f" "f_size f < f_cap (frame_grow f)"
    "f_parent (frame_grow f) = f_parent f" "f_version (frame_grow f) = f_version f"
    using a by (simp_all add: frame_grow_def w Let_def)
  show "\<And>i. i < f_size f \<Longrightarrow> f_syms (frame_grow f) ! i = f_syms f ! i"
    "\<And>i. i < f_size f \<Longrightarrow> f_vals (frame_grow f) ! i = f_vals f ! i"
    using a by (simp_all add: frame_grow_def w Let_def nth_append)
  have "index_ok (f_syms (frame_grow f)) (f_size f) k (f_hidx f)"
    if "index_ok (f_syms f) (f_size f) k (f_hidx f)" for k
    by (rule slots_ok_cong [OF that])
       (use that a in \<open>auto simp: slots_ok_def idx_hash_def syms nth_append idx_entry\<close>)
  then show "frame_ok (frame_grow f)"
    using assms(1) a unfolding frame_ok_def by (auto simp: frame_grow_def w Let_def)
qed

lemma frame_update_ok:
  assumes "frame_ok f" "i < f_size f"
  shows "frame_ok (f\<lparr>f_vals := (f_vals f)[i := v]\<rparr>)"
    "frame_map (f\<lparr>f_vals := (f_vals f)[i := v]\<rparr>) = (frame_map f)(f_syms f ! i \<mapsto> v)"
proof -
  let ?f = "f\<lparr>f_vals := (f_vals f)[i := v]\<rparr>"
  show ok: "frame_ok ?f" using assms(1) by (simp add: frame_ok_def)
  have len: "f_size f \<le> length (f_vals f)" using assms(1) by (simp add: frame_ok_def)
  show "frame_map ?f = (frame_map f)(f_syms f ! i \<mapsto> v)"
  proof
    fix s
    show "frame_map ?f s = ((frame_map f)(f_syms f ! i \<mapsto> v)) s"
    proof (cases "s = f_syms f ! i")
      case True
      then have "frame_map ?f s = Some v"
        using frame_map_iff [OF ok, of s v] assms(2) len by (auto intro!: exI [of _ i])
      with True show ?thesis by simp
    next
      case False
      have "(\<exists>j < f_size f. f_syms f ! j = s \<and> (f_vals f)[i := v] ! j = w) \<longleftrightarrow>
          (\<exists>j < f_size f. f_syms f ! j = s \<and> f_vals f ! j = w)" for w
        using False by (metis nth_list_update_neq)
      then have "frame_map ?f s = Some w \<longleftrightarrow> frame_map f s = Some w" for w
        using frame_map_iff [OF ok, of s w] frame_map_iff [OF assms(1), of s w] by simp
      then show ?thesis using False by (metis fun_upd_other not_None_eq)
    qed
  qed
qed

lemma frame_define_unlocked_index:
  "frame_define_unlocked f s v =
     rbind (frame_find f s) (\<lambda>r. case r of
       Some idx \<Rightarrow> Inr (f\<lparr>f_vals := (f_vals f)[idx := v]\<rparr>)
     | None \<Rightarrow>
         let f1 = (if f_size f \<ge> f_cap f then frame_grow f else f)
         in frame_index (f1\<lparr>f_syms := (f_syms f1)[f_size f := s], f_vals := (f_vals f1)[f_size f := v],
              f_size := f_size f + 1\<rparr>))"
  unfolding frame_define_unlocked_def frame_index_def Let_def by (rule refl)

lemma frame_define_unlocked_spec:
  assumes ok: "frame_ok f" and small: "f_size f < 2 ^ 28"
  shows "\<exists>f'. frame_define_unlocked f s v = Inr f' \<and> frame_ok f' \<and> frame_map f' = (frame_map f)(s \<mapsto> v) \<and>
    f_parent f' = f_parent f \<and> f_version f' = f_version f \<and> f_size f' \<le> f_size f + 1"
proof -
  obtain r where r: "frame_find f s = Inr r"
    "case r of None \<Rightarrow> \<forall>i < f_size f. f_syms f ! i \<noteq> s | Some i \<Rightarrow> i < f_size f \<and> f_syms f ! i = s"
    using frame_find_spec [OF ok] by blast
  show ?thesis
  proof (cases r)
    case (Some i)
    with r frame_update_ok [OF ok, of i v] show ?thesis by (auto simp: frame_define_unlocked_def)
  next
    case None
    define f1 where "f1 = (if f_size f \<ge> f_cap f then frame_grow f else f)"
    have f1: "frame_ok f1" "f_size f1 = f_size f" "f_size f1 < f_cap f1" "\<forall>i < f_size f1. f_syms f1 ! i = f_syms f ! i"
      "\<forall>i < f_size f1. f_vals f1 ! i = f_vals f ! i" "f_parent f1 = f_parent f" "f_version f1 = f_version f"
      using frame_grow_ok [OF ok small] ok by (auto simp: f1_def)
    define f2 where "f2 = f1\<lparr>f_syms := (f_syms f1)[f_size f1 := s], f_vals := (f_vals f1)[f_size f1 := v], f_size := f_size f1 + 1\<rparr>"
    have new: "\<forall>i < f_size f1. f_syms f1 ! i \<noteq> s" using r(2) None f1(2,4) by simp
    obtain f' where f': "frame_index f2 = Inr f'" "frame_ok f'" "f_size f' = f_size f2" "f_syms f' = f_syms f2"
      "f_vals f' = f_vals f2" "f_parent f' = f_parent f1" "f_version f' = f_version f1"
      using frame_append_ok [OF f1(1) _ f1(3) new f2_def] small f1(2) by auto
    have "frame_map f' x = Some w \<longleftrightarrow> ((frame_map f)(s \<mapsto> v)) x = Some w" for x w
    proof -
      have "f_size f1 < length (f_syms f1)" "f_size f1 < length (f_vals f1)" using f1(1,3) by (auto simp: frame_ok_def)
      then have "(\<exists>i < f_size f'. f_syms f' ! i = x \<and> f_vals f' ! i = w) \<longleftrightarrow>
          x = s \<and> w = v \<or> (\<exists>i < f_size f. f_syms f ! i = x \<and> f_vals f ! i = w)"
        using f1(2,4,5) unfolding f'(3-5) f2_def
        by (auto simp: less_Suc_eq nth_list_update) (metis less_irrefl)
      then show ?thesis
        using frame_map_iff [OF f'(2), of x w] frame_map_iff [OF ok, of x w] r(2) None by auto
    qed
    then have "frame_map f' = (frame_map f)(s \<mapsto> v)" by (metis (no_types) ext option.exhaust)
    moreover have "frame_define_unlocked f s v = frame_index f2"
      using r(1) None f1(2) unfolding frame_define_unlocked_index f2_def f1_def by (simp add: Let_def)
    ultimately show ?thesis using f' f1 by (auto simp: f2_def)
  qed
qed

lemma frame_version_ok [simp]: "frame_ok (f\<lparr>f_version := x\<rparr>) = frame_ok f" "frame_map (f\<lparr>f_version := x\<rparr>) = frame_map f"
  by (simp_all add: frame_ok_def frame_map_def)

lemma frame_define_spec:
  assumes "frame_ok f" "f_size f < 2 ^ 28"
  shows "\<exists>f'. frame_define f s v = Inr f' \<and> frame_ok f' \<and> frame_map f' = (frame_map f)(s \<mapsto> v) \<and>
    f_parent f' = f_parent f \<and> f_size f' \<le> f_size f + 1"
  using frame_define_unlocked_spec [OF assms, of s v] by (auto simp: frame_define_def)

lemma frame_set_spec:
  assumes "frame_ok f"
  shows "\<exists>f'. frame_set f s v = Inr (s \<in> dom (frame_map f), f') \<and> frame_ok f' \<and>
    frame_map f' = (if s \<in> dom (frame_map f) then (frame_map f)(s \<mapsto> v) else frame_map f) \<and> f_parent f' = f_parent f"
proof -
  obtain r where r: "frame_find f s = Inr r"
    "case r of None \<Rightarrow> \<forall>i < f_size f. f_syms f ! i \<noteq> s | Some i \<Rightarrow> i < f_size f \<and> f_syms f ! i = s"
    using frame_find_spec [OF assms] by blast
  show ?thesis
  proof (cases r)
    case None
    then have "s \<notin> dom (frame_map f)" using r(2) frame_map_None [OF assms, of s] by auto
    with None r assms show ?thesis by (auto simp: frame_set_def)
  next
    case (Some i)
    then have "s \<in> dom (frame_map f)" using r(2) frame_map_iff [OF assms, of s] by auto
    with Some r frame_update_ok [OF assms, of i v] show ?thesis by (auto simp: frame_set_def)
  qed
qed

lemma frame_new_spec: "cap \<le> 64 \<Longrightarrow> frame_ok (frame_new cap p) \<and> frame_map (frame_new cap p) = Map.empty \<and>
    f_parent (frame_new cap p) = p \<and> f_size (frame_new cap p) = 0"
  by (auto simp: frame_new_def frame_ok_def frame_map_def Let_def FRAME_HASH_THRESHOLD_def)

end
