(* ===== verification/Environment.thy ===== *)
theory Environment
  imports Env_Frame
begin

text \<open>
  Environments (\<open>src/src/env.c\<close>): chains of frames that share their tails, as closures share the frames
  they were made in. Frames live in a store; a frame is made after its parent, so parents have smaller
  addresses and every walk along the chain ends. The lemmas show lexical scoping: a lookup finds the
  innermost binding, and an assignment is seen through every environment that shares that binding.
\<close>

section \<open>Operations\<close>

record envs =
  e_frames :: "nat \<Rightarrow> frame option"
  e_next :: nat

definition no_envs :: envs where
  "no_envs = \<lparr>e_frames = (\<lambda>_. None), e_next = 0\<rparr>"

definition env_alloc :: "envs \<Rightarrow> frame \<Rightarrow> nat \<times> envs" where
  "env_alloc st f = (e_next st, st\<lparr>e_frames := (e_frames st)(e_next st \<mapsto> f), e_next := e_next st + 1\<rparr>)"

definition env_new_root :: "envs \<Rightarrow> nat \<times> envs" where
  "env_new_root st = env_alloc st (frame_new 64 None)"

text \<open>\<open>None\<close> is a parent value that is not an environment.\<close>

definition env_extend :: "envs \<Rightarrow> nat option \<Rightarrow> nat \<times> envs" where
  "env_extend st parent = env_alloc st (frame_new 8 parent)"

text \<open>
  A reference to a frame that does not exist is outside the model (\<open>Diverges\<close>), as is a parent chain
  longer than the addresses below the start allow. The source's \<open>jit_maybe_taint_global_arith\<close> has no
  effect in a build without the JIT, which is the one modelled.
\<close>

definition env_define :: "envs \<Rightarrow> nat \<Rightarrow> val \<Rightarrow> val \<Rightarrow> envs res" where
  "env_define st a s v =
     (case e_frames st a of None \<Rightarrow> Inl Diverges
      | Some f \<Rightarrow> rbind (frame_define f s v) (\<lambda>f'. Inr (st\<lparr>e_frames := (e_frames st)(a \<mapsto> f')\<rparr>)))"

fun env_set_from :: "nat \<Rightarrow> envs \<Rightarrow> nat option \<Rightarrow> val \<Rightarrow> val \<Rightarrow> (bool \<times> envs) res" where
  "env_set_from n st None s v = Inr (False, st)"
| "env_set_from 0 st (Some a) s v = Inl Diverges"
| "env_set_from (Suc n) st (Some a) s v =
     (case e_frames st a of None \<Rightarrow> Inl Diverges
      | Some f \<Rightarrow> rbind (frame_set f s v) (\<lambda>(hit, f').
          if hit then Inr (True, st\<lparr>e_frames := (e_frames st)(a \<mapsto> f')\<rparr>)
          else env_set_from n st (f_parent f) s v))"

definition env_set :: "envs \<Rightarrow> nat \<Rightarrow> val \<Rightarrow> val \<Rightarrow> (bool \<times> envs) res" where
  "env_set st a s v = env_set_from (Suc a) st (Some a) s v"

fun env_lookup_from :: "nat \<Rightarrow> envs \<Rightarrow> nat option \<Rightarrow> val \<Rightarrow> val res" where
  "env_lookup_from n st None s = Inl (Raise_Code ''unbound-variable'' ''unbound variable'')"
| "env_lookup_from 0 st (Some a) s = Inl Diverges"
| "env_lookup_from (Suc n) st (Some a) s =
     (case e_frames st a of None \<Rightarrow> Inl Diverges
      | Some f \<Rightarrow> rbind (frame_lookup f s) (\<lambda>r. case r of
          Some v \<Rightarrow> if v = V_UNDEF then Inl (Raise ''variable used before initialization'') else Inr v
        | None \<Rightarrow> env_lookup_from n st (f_parent f) s))"

definition env_lookup :: "envs \<Rightarrow> nat \<Rightarrow> val \<Rightarrow> val res" where
  "env_lookup st a s = env_lookup_from (Suc a) st (Some a) s"

fun env_lookup_or_false_from :: "nat \<Rightarrow> envs \<Rightarrow> nat option \<Rightarrow> val \<Rightarrow> val res" where
  "env_lookup_or_false_from n st None s = Inr V_FALSE"
| "env_lookup_or_false_from 0 st (Some a) s = Inl Diverges"
| "env_lookup_or_false_from (Suc n) st (Some a) s =
     (case e_frames st a of None \<Rightarrow> Inl Diverges
      | Some f \<Rightarrow> rbind (frame_lookup f s) (\<lambda>r. case r of
          Some v \<Rightarrow> if v \<noteq> V_UNDEF then Inr v else env_lookup_or_false_from n st (f_parent f) s
        | None \<Rightarrow> env_lookup_or_false_from n st (f_parent f) s))"

definition env_lookup_or_false :: "envs \<Rightarrow> nat \<Rightarrow> val \<Rightarrow> val res" where
  "env_lookup_or_false st a s = env_lookup_or_false_from (Suc a) st (Some a) s"

text \<open>
  A parameter list is its required names and its rest name, if any. \<open>mklist\<close> is the Scheme list of the
  remaining arguments.
\<close>

definition wrong_args :: "string \<Rightarrow> scm_error" where
  "wrong_args msg = Raise_Code ''wrong-number-of-arguments'' msg"

fun bind_args :: "(val list \<Rightarrow> val) \<Rightarrow> frame \<Rightarrow> val list \<Rightarrow> val option \<Rightarrow> val list \<Rightarrow> frame res" where
  "bind_args mklist f (p # ps) rest [] = Inl (wrong_args ''too few arguments'')"
| "bind_args mklist f (p # ps) rest (a # as) =
     rbind (frame_define f p a) (\<lambda>f'. bind_args mklist f' ps rest as)"
| "bind_args mklist f [] (Some p) as = frame_define f p (mklist as)"
| "bind_args mklist f [] None [] = Inr f"
| "bind_args mklist f [] None (a # as) = Inl (wrong_args ''too many arguments'')"

definition env_bind_args ::
  "(val list \<Rightarrow> val) \<Rightarrow> envs \<Rightarrow> nat option \<Rightarrow> val list \<Rightarrow> val option \<Rightarrow> val list \<Rightarrow> (nat \<times> envs) res" where
  "env_bind_args mklist st parent ps rest as =
     rbind (bind_args mklist (frame_new 8 parent) ps rest as) (\<lambda>f. Inr (env_alloc st f))"

text \<open>
  \<open>env_bind_arr\<close> takes the arguments from a C array. Its error for too few arguments carries no
  condition code, unlike the one of \<open>env_bind_args\<close>.
\<close>

fun bind_arr :: "(val list \<Rightarrow> val) \<Rightarrow> frame \<Rightarrow> val list \<Rightarrow> val option \<Rightarrow> val list \<Rightarrow> frame res" where
  "bind_arr mklist f (p # ps) rest [] = Inl (Raise ''too few arguments'')"
| "bind_arr mklist f (p # ps) rest (a # as) =
     rbind (frame_define f p a) (\<lambda>f'. bind_arr mklist f' ps rest as)"
| "bind_arr mklist f [] (Some p) as = frame_define f p (mklist as)"
| "bind_arr mklist f [] None [] = Inr f"
| "bind_arr mklist f [] None (a # as) = Inl (wrong_args ''too many arguments'')"

definition env_bind_arr ::
  "(val list \<Rightarrow> val) \<Rightarrow> envs \<Rightarrow> nat option \<Rightarrow> val list \<Rightarrow> val option \<Rightarrow> val list \<Rightarrow> (nat \<times> envs) res" where
  "env_bind_arr mklist st parent ps rest as =
     rbind (bind_arr mklist (frame_new 8 parent) ps rest as) (\<lambda>f. Inr (env_alloc st f))"

section \<open>Invariant and abstraction\<close>

definition envs_ok :: "envs \<Rightarrow> bool" where
  "envs_ok st \<longleftrightarrow> (\<forall>a f. e_frames st a = Some f \<longrightarrow>
     frame_ok f \<and> a < e_next st \<and> (\<forall>p. f_parent f = Some p \<longrightarrow> p < a \<and> e_frames st p \<noteq> None))"

text \<open>The frame that binds a symbol: the first of the chain that has it.\<close>

fun env_owner :: "nat \<Rightarrow> envs \<Rightarrow> nat option \<Rightarrow> val \<Rightarrow> nat option" where
  "env_owner n st None s = None"
| "env_owner 0 st (Some a) s = None"
| "env_owner (Suc n) st (Some a) s =
     (case e_frames st a of None \<Rightarrow> None
      | Some f \<Rightarrow> if s \<in> dom (frame_map f) then Some a else env_owner n st (f_parent f) s)"

definition owner :: "envs \<Rightarrow> nat \<Rightarrow> val \<Rightarrow> nat option" where
  "owner st a s = env_owner (Suc a) st (Some a) s"

definition env_map :: "envs \<Rightarrow> nat \<Rightarrow> val \<rightharpoonup> val" where
  "env_map st a s = Option.bind (owner st a s) (\<lambda>o'. Option.bind (e_frames st o') (\<lambda>f. frame_map f s))"

lemma envs_okD:
  assumes "envs_ok st" "e_frames st a = Some f"
  shows "frame_ok f" "a < e_next st" "\<And>p. f_parent f = Some p \<Longrightarrow> p < a \<and> (\<exists>g. e_frames st p = Some g)"
  using assms by (auto simp: envs_ok_def)

lemma owner_rec:
  assumes "envs_ok st" "e_frames st a = Some f"
  shows "owner st a s = (if s \<in> dom (frame_map f) then Some a
    else case f_parent f of None \<Rightarrow> None | Some p \<Rightarrow> owner st p s)"
proof -
  have fuel: "env_owner n st (Some b) s = env_owner m st (Some b) s" if "b < n" "b < m" for n m b
    using that
  proof (induction b arbitrary: n m rule: less_induct)
    case (less b)
    obtain n' m' where nm: "n = Suc n'" "m = Suc m'" using less.prems by (cases n; cases m) auto
    show ?case
    proof (cases "e_frames st b")
      case None
      then show ?thesis by (simp add: nm)
    next
      case (Some g)
      have "env_owner n' st (f_parent g) s = env_owner m' st (f_parent g) s"
      proof (cases "f_parent g")
        case (Some p)
        then have "p < b" using envs_okD(3) [OF assms(1) \<open>e_frames st b = Some g\<close>] by blast
        then have "p < n'" "p < m'" using less.prems by (simp_all add: nm)
        with \<open>p < b\<close> show ?thesis unfolding Some by (intro less.IH)
      qed simp
      with Some show ?thesis by (simp add: nm)
    qed
  qed
  have "env_owner a st (f_parent f) s = (case f_parent f of None \<Rightarrow> None | Some p \<Rightarrow> owner st p s)"
  proof (cases "f_parent f")
    case (Some p)
    then have "p < a" using envs_okD(3) [OF assms] by blast
    then have "env_owner a st (Some p) s = env_owner (Suc p) st (Some p) s" by (intro fuel) auto
    with Some show ?thesis by (simp add: owner_def)
  qed simp
  then show ?thesis using assms(2) by (simp add: owner_def)
qed

text \<open>Induction along the chain of an environment.\<close>

lemma chain_induct [consumes 2, case_names frame]:
  assumes "envs_ok st" "e_frames st a \<noteq> None"
    and "\<And>a f. e_frames st a = Some f \<Longrightarrow> (\<And>p. f_parent f = Some p \<Longrightarrow> P p) \<Longrightarrow> P a"
  shows "P a"
  using assms(2)
proof (induction a rule: less_induct)
  case (less a)
  then obtain f where f: "e_frames st a = Some f" by auto
  show ?case by (rule assms(3) [OF f]) (use envs_okD(3) [OF assms(1) f] less.IH in blast)
qed

lemma owner_frame:
  assumes "envs_ok st" "e_frames st a \<noteq> None" "owner st a s = Some o'"
  shows "\<exists>f. e_frames st o' = Some f \<and> s \<in> dom (frame_map f)"
  using assms
proof (induction rule: chain_induct)
  case (frame a f)
  then show ?case
    using owner_rec [OF assms(1) frame(1), of s] by (auto simp del: domIff split: if_splits option.splits)
qed

lemma env_map_owner:
  assumes "envs_ok st" "e_frames st a \<noteq> None"
  shows "env_map st a s = None \<longleftrightarrow> owner st a s = None"
  using owner_frame [OF assms, of s] by (cases "owner st a s") (auto simp: env_map_def)


section \<open>Looking up\<close>

lemma env_map_rec:
  assumes "envs_ok st" "e_frames st a = Some f"
  shows "env_map st a s = (case frame_map f s of Some v \<Rightarrow> Some v
    | None \<Rightarrow> (case f_parent f of None \<Rightarrow> None | Some p \<Rightarrow> env_map st p s))"
  using owner_rec [OF assms, of s] assms(2)
  by (auto simp: env_map_def split: option.splits)

lemma env_lookup_from_spec:
  assumes "envs_ok st" "e_frames st a \<noteq> None" "a < n"
  shows "env_lookup_from n st (Some a) s = (case env_map st a s of
      None \<Rightarrow> Inl (Raise_Code ''unbound-variable'' ''unbound variable'')
    | Some v \<Rightarrow> if v = V_UNDEF then Inl (Raise ''variable used before initialization'') else Inr v)"
  using assms
proof (induction arbitrary: n rule: chain_induct)
  case (frame a f)
  obtain m where n: "n = Suc m" using frame(3) by (cases n) auto
  have look: "frame_lookup f s = Inr (frame_map f s)"
    using envs_okD(1) [OF assms(1) frame(1)] by (rule frame_lookup_spec)
  have up: "env_lookup_from m st (f_parent f) s = (case f_parent f of None \<Rightarrow> env_lookup_from m st None s
    | Some p \<Rightarrow> (case env_map st p s of None \<Rightarrow> Inl (Raise_Code ''unbound-variable'' ''unbound variable'')
        | Some v \<Rightarrow> if v = V_UNDEF then Inl (Raise ''variable used before initialization'') else Inr v))"
  proof (cases "f_parent f")
    case (Some p)
    then have "p < m" using envs_okD(3) [OF assms(1) frame(1)] frame(3) n by fastforce
    then show ?thesis unfolding Some using frame(2) [OF Some] by simp
  qed simp
  show ?case
    unfolding n env_map_rec [OF assms(1) frame(1)]
    by (simp add: frame(1) look up split: option.splits)
qed

lemma env_lookup_spec:
  assumes "envs_ok st" "e_frames st a \<noteq> None"
  shows "env_lookup st a s = (case env_map st a s of
      None \<Rightarrow> Inl (Raise_Code ''unbound-variable'' ''unbound variable'')
    | Some v \<Rightarrow> if v = V_UNDEF then Inl (Raise ''variable used before initialization'') else Inr v)"
  unfolding env_lookup_def by (rule env_lookup_from_spec [OF assms]) simp

section \<open>Defining and assigning\<close>

text \<open>The frame at \<open>a\<close> replaced by one with the same parent.\<close>

lemma replace_frame_ok:
  assumes "envs_ok st" "e_frames st a = Some f" "frame_ok f'" "f_parent f' = f_parent f"
  shows "envs_ok (st\<lparr>e_frames := (e_frames st)(a \<mapsto> f')\<rparr>)"
  using assms unfolding envs_ok_def by auto

lemma owner_replace:
  assumes ok: "envs_ok st" and a: "e_frames st a = Some f" and f': "frame_ok f'" "f_parent f' = f_parent f"
    and b: "e_frames st b \<noteq> None" and same: "s \<in> dom (frame_map f') \<longleftrightarrow> s \<in> dom (frame_map f)"
  shows "owner (st\<lparr>e_frames := (e_frames st)(a \<mapsto> f')\<rparr>) b s = owner st b s"
  using ok b
proof (induction rule: chain_induct)
  case (frame b g)
  let ?st = "st\<lparr>e_frames := (e_frames st)(a \<mapsto> f')\<rparr>"
  define g' where "g' = (if b = a then f' else g)"
  have g': "e_frames ?st b = Some g'" by (simp add: g'_def frame(1))
  have p: "f_parent g' = f_parent g" "s \<in> dom (frame_map g') \<longleftrightarrow> s \<in> dom (frame_map g)"
    using a frame(1) f'(2) same by (auto simp: g'_def)
  show ?case
    unfolding owner_rec [OF replace_frame_ok [OF ok a f'] g'] owner_rec [OF ok frame(1)] p
    by (cases "f_parent g") (simp_all only: option.case frame(2))
qed

lemma env_set_from_spec:
  assumes "envs_ok st" "e_frames st a \<noteq> None" "a < n"
  shows "\<exists>st'. env_set_from n st (Some a) s v = Inr (s \<in> dom (env_map st a), st') \<and>
    (case owner st a s of None \<Rightarrow> st' = st
     | Some o' \<Rightarrow> \<exists>f f'. e_frames st o' = Some f \<and> frame_ok f' \<and> f_parent f' = f_parent f \<and> s \<in> dom (frame_map f) \<and>
         frame_map f' = (frame_map f)(s \<mapsto> v) \<and> st' = st\<lparr>e_frames := (e_frames st)(o' \<mapsto> f')\<rparr>)"
  using assms
proof (induction arbitrary: n rule: chain_induct)
  case (frame a f)
  obtain m where n: "n = Suc m" using frame(3) by (cases n) auto
  obtain f' where f': "frame_set f s v = Inr (s \<in> dom (frame_map f), f')" "frame_ok f'" "f_parent f' = f_parent f"
    "frame_map f' = (if s \<in> dom (frame_map f) then (frame_map f)(s \<mapsto> v) else frame_map f)"
    using frame_set_spec [OF envs_okD(1) [OF assms(1) frame(1)], of s v] by blast
  note ow = owner_rec [OF assms(1) frame(1), of s] env_map_rec [OF assms(1) frame(1), of s]
  show ?case
  proof (cases "s \<in> dom (frame_map f)")
    case True
    then have d: "s \<in> dom (env_map st a)" using ow(2) by (auto split: option.splits)
    have "env_set_from n st (Some a) s v = Inr (True, st\<lparr>e_frames := (e_frames st)(a \<mapsto> f')\<rparr>)"
      using True f'(1) by (simp add: n frame(1))
    moreover have "owner st a s = Some a" "frame_map f' = (frame_map f)(s \<mapsto> v)" using True ow(1) f'(4) by simp_all
    ultimately show ?thesis using True d f'(2,3) frame(1) by auto
  next
    case False
    have e: "env_set_from n st (Some a) s v = env_set_from m st (f_parent f) s v"
      using False f'(1) by (simp add: n frame(1))
    show ?thesis
    proof (cases "f_parent f")
      case None
      with False ow e show ?thesis by (auto simp: domIff)
    next
      case (Some p)
      then have "p < m" using envs_okD(3) [OF assms(1) frame(1)] frame(3) n by fastforce
      moreover have "owner st a s = owner st p s" "env_map st a s = env_map st p s"
        using ow False Some by (auto simp: domIff)
      ultimately show ?thesis using frame(2) [OF Some, of m] unfolding e Some by (simp add: domIff)
    qed
  qed
qed

lemma env_define_spec:
  assumes "envs_ok st" "e_frames st a = Some f" "f_size f < 2 ^ 28"
  shows "\<exists>f' st'. env_define st a s v = Inr st' \<and> envs_ok st' \<and> st' = st\<lparr>e_frames := (e_frames st)(a \<mapsto> f')\<rparr> \<and>
    frame_ok f' \<and> f_parent f' = f_parent f \<and> frame_map f' = (frame_map f)(s \<mapsto> v)"
proof -
  obtain f' where f': "frame_define f s v = Inr f'" "frame_ok f'" "f_parent f' = f_parent f" "frame_map f' = (frame_map f)(s \<mapsto> v)"
    using frame_define_spec [OF envs_okD(1) [OF assms(1,2)] assms(3), of s v] by blast
  then show ?thesis using replace_frame_ok [OF assms(1,2) f'(2,3)] assms(2) by (auto simp: env_define_def)
qed


section \<open>Binding arguments\<close>

lemma bind_args_spec:
  assumes "frame_ok f" "f_size f + length ps < 2 ^ 28"
  shows "if length as < length ps then bind_args mk f ps rest as = Inl (wrong_args ''too few arguments'')
    else if rest = None \<and> length ps < length as then bind_args mk f ps rest as = Inl (wrong_args ''too many arguments'')
    else \<exists>f'. bind_args mk f ps rest as = Inr f' \<and> frame_ok f' \<and> f_parent f' = f_parent f \<and>
      frame_map f' = (case rest of None \<Rightarrow> frame_map f ++ map_of (rev (zip ps as))
        | Some q \<Rightarrow> (frame_map f ++ map_of (rev (zip ps as)))(q \<mapsto> mk (drop (length ps) as)))"
  using assms
proof (induction mk f ps rest as rule: bind_args.induct)
  case (2 mk f p ps rest a as)
  obtain f' where f': "frame_define f p a = Inr f'" "frame_ok f'" "frame_map f' = (frame_map f)(p \<mapsto> a)"
    "f_parent f' = f_parent f" "f_size f' \<le> f_size f + 1"
    using frame_define_spec [OF "2.prems"(1), of p a] "2.prems"(2) by auto
  have IH: "if length as < length ps then bind_args mk f' ps rest as = Inl (wrong_args ''too few arguments'')
    else if rest = None \<and> length ps < length as then bind_args mk f' ps rest as = Inl (wrong_args ''too many arguments'')
    else \<exists>g. bind_args mk f' ps rest as = Inr g \<and> frame_ok g \<and> f_parent g = f_parent f' \<and>
      frame_map g = (case rest of None \<Rightarrow> frame_map f' ++ map_of (rev (zip ps as))
        | Some q \<Rightarrow> (frame_map f' ++ map_of (rev (zip ps as)))(q \<mapsto> mk (drop (length ps) as)))"
    using "2.prems"(2) f'(5) by (intro "2.IH" [OF f'(1,2)]) auto
  have m: "frame_map f' ++ map_of (rev (zip ps as)) = frame_map f ++ map_of (rev (zip (p # ps) (a # as)))"
    by (simp add: f'(3) map_add_assoc)
  show ?case
    using IH unfolding m f'(4) by (simp only: bind_args.simps f'(1) rbind.simps length_Cons drop_Suc_Cons Suc_less_eq)
next
  case (3 mk f p as)
  then show ?case using frame_define_spec [of f p "mk as"] by auto
qed simp_all

section \<open>Properties\<close>

text \<open>Defining a list of bindings one after the other.\<close>

fun define_all :: "frame \<Rightarrow> (val \<times> val) list \<Rightarrow> frame res" where
  "define_all f [] = Inr f"
| "define_all f ((s, v) # bs) = rbind (frame_define f s v) (\<lambda>f'. define_all f' bs)"

lemma define_all_spec:
  "frame_ok f \<Longrightarrow> f_size f + length bs \<le> 2 ^ 28 \<Longrightarrow>
    \<exists>f'. define_all f bs = Inr f' \<and> frame_ok f' \<and> frame_map f' = frame_map f ++ map_of (rev bs)"
proof (induction bs arbitrary: f)
  case (Cons b bs)
  obtain s v where b: "b = (s, v)" by (cases b)
  obtain f1 where f1: "frame_define f s v = Inr f1" "frame_ok f1" "frame_map f1 = (frame_map f)(s \<mapsto> v)" "f_size f1 \<le> f_size f + 1"
    using frame_define_spec [OF Cons.prems(1), of s v] Cons.prems(2) by auto
  then obtain f' where "define_all f1 bs = Inr f'" "frame_ok f'" "frame_map f' = frame_map f1 ++ map_of (rev bs)"
  proof -
    have "f_size f1 + length bs \<le> 2 ^ 28" using Cons.prems(2) f1(4) by simp
    then show thesis using Cons.IH [OF f1(2)] that by blast
  qed
  moreover have "frame_map f1 ++ map_of (rev bs) = frame_map f ++ map_of (rev (b # bs))"
    by (simp only: f1(3) b rev.simps map_of_append map_of.simps map_add_assoc fst_conv snd_conv) simp
  ultimately show ?case using f1(1) by (simp add: b)
qed auto

text \<open>
  C31: After any sequence of \<open>frame_define\<close> on a new frame, within the bound on its length, every call has
  returned and \<open>frame_lookup\<close> gives the value last defined for the symbol: growing the arrays, building
  the index and rehashing it are not observable.
\<close>

theorem frame_history:
  assumes "cap \<le> 64" "length bs \<le> 2 ^ 28"
  shows "\<exists>f. define_all (frame_new cap parent) bs = Inr f \<and> (\<forall>s. frame_lookup f s = Inr (map_of (rev bs) s))"
proof -
  have n: "frame_ok (frame_new cap parent)" "frame_map (frame_new cap parent) = Map.empty" "f_size (frame_new cap parent) = 0"
    using frame_new_spec [OF assms(1)] by blast+
  obtain f where "define_all (frame_new cap parent) bs = Inr f" "frame_ok f" "frame_map f = map_of (rev bs)"
    using define_all_spec [OF n(1), of bs] n assms(2) by auto
  then show ?thesis using frame_lookup_spec by auto
qed

theorem frame_history_witness:
  "\<exists>f. define_all (frame_new 8 None) (map (\<lambda>i. (16 * word_of_nat i, vfix (int i))) [0..<20]) = Inr f \<and>
    frame_lookup f 32 = Inr (Some (vfix 2))"
proof -
  have l: "map_of (rev (map (\<lambda>i. (16 * word_of_nat i, vfix (int i))) [0..<20])) (32 :: val) = Some (vfix 2)"
    by code_simp
  show ?thesis
    using frame_history [of 8 "map (\<lambda>i. (16 * word_of_nat i, vfix (int i))) [0..<20]" None] l by auto
qed

text \<open>
  C23: Lexical assignment. \<open>env_set\<close> of a symbol that is bound in an environment returns true, and
  afterwards every environment that reaches the same binding sees the new value, while every other symbol
  and every environment with a different binding of the symbol is unchanged; of an unbound symbol it
  returns false and changes nothing.
\<close>

theorem env_set_lexical:
  assumes ok: "envs_ok st" and a: "e_frames st a \<noteq> None" and b: "e_frames st b \<noteq> None"
  shows "\<exists>st'. env_set st a s v = Inr (s \<in> dom (env_map st a), st') \<and> envs_ok st' \<and>
    (\<forall>x. env_map st' b x =
       (if x = s \<and> owner st b s = owner st a s \<and> s \<in> dom (env_map st a) then Some v else env_map st b x))"
proof -
  obtain st' where st': "env_set st a s v = Inr (s \<in> dom (env_map st a), st')"
    "case owner st a s of None \<Rightarrow> st' = st
     | Some o' \<Rightarrow> \<exists>f f'. e_frames st o' = Some f \<and> frame_ok f' \<and> f_parent f' = f_parent f \<and> s \<in> dom (frame_map f) \<and>
         frame_map f' = (frame_map f)(s \<mapsto> v) \<and> st' = st\<lparr>e_frames := (e_frames st)(o' \<mapsto> f')\<rparr>"
    using env_set_from_spec [OF ok a, of "Suc a" s v] by (auto simp: env_set_def)
  show ?thesis
  proof (cases "owner st a s")
    case None
    then have "s \<notin> dom (env_map st a)" "st' = st" using env_map_owner [OF ok a, of s] st'(2) by auto
    with st'(1) ok show ?thesis by simp
  next
    case (Some o')
    then obtain f f' where f: "e_frames st o' = Some f" "frame_ok f'" "f_parent f' = f_parent f" "s \<in> dom (frame_map f)"
      "frame_map f' = (frame_map f)(s \<mapsto> v)" "st' = st\<lparr>e_frames := (e_frames st)(o' \<mapsto> f')\<rparr>"
      using st'(2) by auto
    have d: "s \<in> dom (env_map st a)" using Some env_map_owner [OF ok a, of s] by auto
    have ok': "envs_ok st'" unfolding f(6) by (rule replace_frame_ok [OF ok f(1-3)])
    have own: "owner st' b x = owner st b x" for x
      unfolding f(6) by (rule owner_replace [OF ok f(1-3) b]) (use f(4,5) in auto)
    have fr: "e_frames st' = (e_frames st)(o' \<mapsto> f')" by (simp add: f(6))
    have "env_map st' b x = (if x = s \<and> owner st b s = owner st a s then Some v else env_map st b x)" for x
    proof (cases "owner st b x")
      case None
      then show ?thesis using Some by (auto simp: env_map_def own)
    next
      case own_x: (Some q)
      then show ?thesis
        using Some f(1,4,5) owner_frame [OF ok b own_x] by (auto simp: env_map_def own fr)
    qed
    with st'(1) ok' d show ?thesis by simp
  qed
qed


text \<open>A global environment that binds the symbol at address 16, and a procedure's environment inside it.\<close>

definition sample_envs :: envs where
  "sample_envs = \<lparr>e_frames = [0 \<mapsto> (frame_new 2 None)\<lparr>f_size := 1, f_syms := [16, 0], f_vals := [vfix 1, 0]\<rparr>,
     1 \<mapsto> frame_new 2 (Some 0)], e_next = 2\<rparr>"

lemma sample_envs_ok: "envs_ok sample_envs" "e_frames sample_envs 0 \<noteq> None" "e_frames sample_envs 1 \<noteq> None"
  by (auto simp: sample_envs_def envs_ok_def frame_ok_def frame_new_def Let_def FRAME_HASH_THRESHOLD_def)

lemma sample_envs_owner: "owner sample_envs 0 16 = Some 0" "owner sample_envs 1 16 = Some 0" "16 \<in> dom (env_map sample_envs 1)"
  by (simp_all add: owner_def env_map_def sample_envs_def frame_new_def Let_def frame_map_def numeral_2_eq_2 domIff)

theorem env_set_lexical_witness:
  "\<exists>st'. env_set sample_envs 1 16 (vfix 5) = Inr (True, st') \<and> env_map st' 0 16 = Some (vfix 5)"
  using env_set_lexical [OF sample_envs_ok(1,3,2), of 16 "vfix 5"] sample_envs_owner by auto

text \<open>
  C25: \<open>env_lookup\<close> gives the innermost binding of the symbol, raises for an unbound symbol and for one that
  is bound but not initialised yet, and after \<open>env_define\<close> finds the new value in that environment.
\<close>

theorem env_lookup_define:
  assumes ok: "envs_ok st" and a: "e_frames st a = Some f" and small: "f_size f < 2 ^ 28"
  shows "env_lookup st a x = (case env_map st a x of
      None \<Rightarrow> Inl (Raise_Code ''unbound-variable'' ''unbound variable'')
    | Some w \<Rightarrow> if w = V_UNDEF then Inl (Raise ''variable used before initialization'') else Inr w) \<and>
    (\<exists>st'. env_define st a s v = Inr st' \<and> envs_ok st' \<and> env_map st' a = (env_map st a)(s \<mapsto> v))"
proof -
  obtain f' st' where st': "env_define st a s v = Inr st'" "envs_ok st'" "st' = st\<lparr>e_frames := (e_frames st)(a \<mapsto> f')\<rparr>"
    "frame_ok f'" "f_parent f' = f_parent f" "frame_map f' = (frame_map f)(s \<mapsto> v)"
    using env_define_spec [OF assms, of s v] by blast
  have fr: "e_frames st' a = Some f'" by (simp add: st'(3))
  have up: "env_map st' p x = env_map st p x" if "f_parent f = Some p" for p x
  proof -
    have p: "p < a" "e_frames st p \<noteq> None" using envs_okD(3) [OF ok a that] by auto
    have "b < a \<Longrightarrow> env_map st' b x = env_map st b x" if "e_frames st b \<noteq> None" for b
      using ok that
    proof (induction rule: chain_induct)
      case (frame b g)
      have "e_frames st' b = Some g" using frame by (simp add: st'(3))
      then show ?case
        unfolding env_map_rec [OF ok frame(1)] env_map_rec [OF st'(2) \<open>e_frames st' b = Some g\<close>]
        using frame(2,3) envs_okD(3) [OF ok frame(1)] by (cases "f_parent g") (auto split: option.splits)
    qed
    with p show ?thesis by blast
  qed
  have "env_map st' a x = ((env_map st a)(s \<mapsto> v)) x" for x
    unfolding env_map_rec [OF st'(2) fr] fun_upd_apply env_map_rec [OF ok a] st'(5,6)
    using up by (auto split: option.splits)
  then have "env_map st' a = (env_map st a)(s \<mapsto> v)" by blast
  with st'(1,2) env_lookup_spec [OF ok] a show ?thesis by auto
qed

theorem env_lookup_define_witness:
  "env_lookup sample_envs 1 16 = Inr (vfix 1) \<and>
    (\<exists>st'. env_define sample_envs 1 32 V_NIL = Inr st' \<and> env_map st' 1 = (env_map sample_envs 1)(32 \<mapsto> V_NIL))"
proof -
  have f: "e_frames sample_envs 1 = Some (frame_new 2 (Some 0))" "f_size (frame_new 2 (Some 0)) < 2 ^ 28"
    by (simp_all add: sample_envs_def frame_new_def)
  have "env_map sample_envs 1 16 = Some (vfix 1)"
    by (simp add: owner_def env_map_def sample_envs_def frame_new_def Let_def frame_map_def numeral_2_eq_2)
  moreover have "vfix 1 \<noteq> V_UNDEF" by code_simp
  ultimately show ?thesis
    using env_lookup_define [OF sample_envs_ok(1) f, of 16 32 V_NIL] by auto
qed

text \<open>
  \<open>env_bind_args\<close> raises for too few and for too many arguments, and otherwise makes a frame inside the
  parent that binds each parameter to its argument (the later one for a repeated name) and the rest
  parameter to the list of the remaining arguments.
\<close>

theorem env_bind_args_spec:
  assumes "length ps < 2 ^ 28"
  shows "if length as < length ps then env_bind_args mk st parent ps rest as = Inl (wrong_args ''too few arguments'')
    else if rest = None \<and> length ps < length as then env_bind_args mk st parent ps rest as = Inl (wrong_args ''too many arguments'')
    else \<exists>f a st'. env_bind_args mk st parent ps rest as = Inr (a, st') \<and> e_frames st' a = Some f \<and> f_parent f = parent \<and>
      (\<forall>s. frame_lookup f s = Inr ((map_of (rev (zip ps as)) ++
        (case rest of None \<Rightarrow> Map.empty | Some q \<Rightarrow> [q \<mapsto> mk (drop (length ps) as)])) s))"
proof -
  have n: "frame_ok (frame_new 8 parent)" "frame_map (frame_new 8 parent) = Map.empty" "f_size (frame_new 8 parent) = 0"
    "f_parent (frame_new 8 parent) = parent" using frame_new_spec [of 8 parent] by auto
  have "if length as < length ps then bind_args mk (frame_new 8 parent) ps rest as = Inl (wrong_args ''too few arguments'')
    else if rest = None \<and> length ps < length as then bind_args mk (frame_new 8 parent) ps rest as = Inl (wrong_args ''too many arguments'')
    else \<exists>f'. bind_args mk (frame_new 8 parent) ps rest as = Inr f' \<and> frame_ok f' \<and> f_parent f' = parent \<and>
      frame_map f' = map_of (rev (zip ps as)) ++ (case rest of None \<Rightarrow> Map.empty | Some q \<Rightarrow> [q \<mapsto> mk (drop (length ps) as)])"
  proof -
    have "f_size (frame_new 8 parent) + length ps < 2 ^ 28" using n(3) assms by simp
    from bind_args_spec [OF n(1) this, of "as" mk rest, unfolded n(2,4)] show ?thesis
      by (cases rest) (simp_all only: option.case empty_map_add map_add_empty map_add_upd)
  qed
  then show ?thesis
    by (auto simp: env_bind_args_def env_alloc_def frame_lookup_spec split: if_splits)
qed

theorem env_bind_args_spec_witness:
  "\<exists>f a st'. env_bind_args (\<lambda>_. V_NIL) sample_envs (Some 0) [48] None [vfix 9] = Inr (a, st') \<and> e_frames st' a = Some f \<and>
    frame_lookup f 48 = Inr (Some (vfix 9))"
  using env_bind_args_spec [of "[48]" "[vfix 9]" "\<lambda>_. V_NIL" sample_envs "Some 0" None] by auto

end
