(* ===== verification/Global_Cache.thy ===== *)
theory Global_Cache
  imports Env_Frame
begin

text \<open>
  Global variables in compiled code: the per-constant inline cache of a chunk (\<open>GlobCacheEntry\<close>,
  \<open>src/src/chunk.h\<close>) that \<open>OP_LOAD_GLOBAL\<close>, \<open>OP_STORE_GLOBAL\<close>, \<open>OP_DEF_GLOBAL\<close> and
  \<open>load_global_cached\<close> (\<open>src/src/vm.c\<close>) keep, and the seqlock of root frames (\<open>src/src/env.c\<close>) it is
  validated against. Executed one instruction after the other the cache is invisible; interleaved with a
  definition on another thread that moves the values, an assignment through it is lost.
\<close>

section \<open>Root frames with moving values\<close>

text \<open>
  A slot pointer is the value array it points into, named by the capacity it was allocated with
  (\<open>frame_grow\<close> doubles it, so no two arrays of a frame share one), and the position in it. \<open>r_stale\<close>
  keeps the arrays that have been replaced.
\<close>

type_synonym slot = "nat \<times> nat"

record root =
  r_frame :: frame
  r_stale :: "nat \<Rightarrow> val list option"

type_synonym cache_entry = "slot option \<times> nat"

definition slot_load :: "root \<Rightarrow> slot \<Rightarrow> val" where
  "slot_load R p = (case p of (c, i) \<Rightarrow>
     if c = f_cap (r_frame R) then f_vals (r_frame R) ! i
     else case r_stale R c of Some vs \<Rightarrow> vs ! i | None \<Rightarrow> V_UNDEF)"

definition slot_store :: "root \<Rightarrow> slot \<Rightarrow> val \<Rightarrow> root" where
  "slot_store R p v = (case p of (c, i) \<Rightarrow>
     if c = f_cap (r_frame R) then R\<lparr>r_frame := (r_frame R)\<lparr>f_vals := (f_vals (r_frame R))[i := v]\<rparr>\<rparr>
     else R\<lparr>r_stale := (\<lambda>d. if d = c then map_option (\<lambda>vs. vs[i := v]) (r_stale R c) else r_stale R d)\<rparr>)"

definition root_define :: "root \<Rightarrow> val \<Rightarrow> val \<Rightarrow> root res" where
  "root_define R s v =
     rbind (frame_define (r_frame R) s v) (\<lambda>f'.
       Inr (if f_cap f' = f_cap (r_frame R) then R\<lparr>r_frame := f'\<rparr>
            else R\<lparr>r_frame := f', r_stale := (r_stale R)(f_cap (r_frame R) \<mapsto> f_vals (r_frame R))\<rparr>))"

text \<open>The slot of a symbol with the version it was found at; no writer is in progress.\<close>

definition frame_lookup_versioned :: "frame \<Rightarrow> val \<Rightarrow> (slot option \<times> nat) res" where
  "frame_lookup_versioned f s =
     rbind (frame_find f s) (\<lambda>r. Inr (map_option (\<lambda>i. (f_cap f, i)) r, f_version f))"

section \<open>The cached operations\<close>

definition unbound :: scm_error where
  "unbound = Raise_Code ''unbound-variable'' ''unbound variable''"

definition cache_hit :: "cache_entry list \<Rightarrow> root \<Rightarrow> nat \<Rightarrow> slot option" where
  "cache_hit cache R ci =
     (case cache ! ci of (Some p, ver) \<Rightarrow> if ver = f_version (r_frame R) then Some p else None | _ \<Rightarrow> None)"

definition load_global_cached ::
  "val list \<Rightarrow> cache_entry list \<Rightarrow> root \<Rightarrow> nat \<Rightarrow> (val \<times> cache_entry list) res" where
  "load_global_cached pool cache R ci =
     (case cache_hit cache R ci of
        Some p \<Rightarrow> Inr (slot_load R p, cache)
      | None \<Rightarrow> rbind (frame_lookup_versioned (r_frame R) (pool ! ci)) (\<lambda>(p, ver). case p of
          None \<Rightarrow> Inl unbound
        | Some p \<Rightarrow> Inr (slot_load R p, cache[ci := (Some p, ver)])))"

text \<open>An assignment to an unbound variable only writes a message to \<open>stderr\<close>.\<close>

definition store_global ::
  "val list \<Rightarrow> cache_entry list \<Rightarrow> root \<Rightarrow> nat \<Rightarrow> val \<Rightarrow> (root \<times> cache_entry list) res" where
  "store_global pool cache R ci v =
     (case cache_hit cache R ci of
        Some p \<Rightarrow> Inr (slot_store R p v, cache)
      | None \<Rightarrow> rbind (frame_lookup_versioned (r_frame R) (pool ! ci)) (\<lambda>(p, ver). Inr (case p of
          None \<Rightarrow> (R, cache)
        | Some p \<Rightarrow> (slot_store R p v, cache[ci := (Some p, ver)]))))"

definition def_global ::
  "val list \<Rightarrow> cache_entry list \<Rightarrow> root \<Rightarrow> nat \<Rightarrow> val \<Rightarrow> (root \<times> cache_entry list) res" where
  "def_global pool cache R ci v =
     rbind (root_define R (pool ! ci) v) (\<lambda>R'.
     rbind (frame_lookup_versioned (r_frame R') (pool ! ci)) (\<lambda>(p, ver). Inr (case p of
         None \<Rightarrow> (R', cache)
       | Some p \<Rightarrow> (R', cache[ci := (Some p, ver)]))))"

section \<open>The cache is coherent\<close>

definition entry_ok :: "root \<Rightarrow> val \<Rightarrow> cache_entry \<Rightarrow> bool" where
  "entry_ok R s e = (case e of
     (None, ver) \<Rightarrow> True
   | (Some (c, i), ver) \<Rightarrow> ver \<le> f_version (r_frame R) \<and>
       (ver = f_version (r_frame R) \<longrightarrow>
          c = f_cap (r_frame R) \<and> i < f_size (r_frame R) \<and> f_syms (r_frame R) ! i = s))"

definition cache_ok :: "val list \<Rightarrow> cache_entry list \<Rightarrow> root \<Rightarrow> bool" where
  "cache_ok pool cache R \<longleftrightarrow> length cache = length pool \<and>
     (\<forall>ci < length pool. entry_ok R (pool ! ci) (cache ! ci))"

definition root_ok :: "root \<Rightarrow> bool" where
  "root_ok R \<longleftrightarrow> frame_ok (r_frame R) \<and> frame_is_global (r_frame R)"

abbreviation root_map :: "root \<Rightarrow> val \<rightharpoonup> val" where
  "root_map R \<equiv> frame_map (r_frame R)"

lemma cache_hit_slot:
  assumes "cache_ok pool cache R" "ci < length pool" "cache_hit cache R ci = Some p"
  obtains i where "p = (f_cap (r_frame R), i)" "i < f_size (r_frame R)" "f_syms (r_frame R) ! i = pool ! ci"
proof -
  obtain q ver where e: "cache ! ci = (q, ver)" by (cases "cache ! ci")
  with assms(3) have q: "q = Some p" "ver = f_version (r_frame R)"
    by (simp_all add: cache_hit_def split: option.splits if_splits)
  have "entry_ok R (pool ! ci) (cache ! ci)" using assms(1,2) by (simp add: cache_ok_def)
  with e q that show ?thesis by (cases p) (simp add: entry_ok_def)
qed

lemma lookup_slot:
  assumes "frame_ok f"
  shows "\<exists>p. frame_lookup_versioned f s = Inr (p, f_version f) \<and>
    (case p of None \<Rightarrow> frame_map f s = None
     | Some q \<Rightarrow> \<exists>i. q = (f_cap f, i) \<and> i < f_size f \<and> f_syms f ! i = s)"
proof -
  obtain r where r: "frame_find f s = Inr r"
    "case r of None \<Rightarrow> \<forall>i < f_size f. f_syms f ! i \<noteq> s | Some i \<Rightarrow> i < f_size f \<and> f_syms f ! i = s"
    using frame_find_spec [OF assms] by blast
  then show ?thesis
    using frame_map_None [OF assms, of s]
    by (cases r) (auto simp: frame_lookup_versioned_def)
qed

lemma slot_value:
  assumes "root_ok R" "i < f_size (r_frame R)"
  shows "root_map R (f_syms (r_frame R) ! i) = Some (slot_load R (f_cap (r_frame R), i))"
  using assms frame_map_iff [of "r_frame R"] by (auto simp: root_ok_def slot_load_def)

lemma slot_store_spec:
  assumes "root_ok R" "i < f_size (r_frame R)"
  shows "root_ok (slot_store R (f_cap (r_frame R), i) v)"
    "root_map (slot_store R (f_cap (r_frame R), i) v) = (root_map R)(f_syms (r_frame R) ! i \<mapsto> v)"
  using assms frame_update_ok [of "r_frame R" i v] by (auto simp: root_ok_def slot_store_def frame_is_global_def)

lemma entry_ok_slot_store:
  "entry_ok (slot_store R (f_cap (r_frame R), i) v) s e = entry_ok R s e"
  by (auto simp: entry_ok_def slot_store_def split: prod.splits option.splits)

lemma cache_update_ok:
  assumes "cache_ok pool cache R" "i < f_size (r_frame R)" "f_syms (r_frame R) ! i = pool ! ci"
  shows "cache_ok pool (cache[ci := (Some (f_cap (r_frame R), i), f_version (r_frame R))]) R"
proof -
  have "entry_ok R (pool ! cj) (cache[ci := (Some (f_cap (r_frame R), i), f_version (r_frame R))] ! cj)"
    if "cj < length pool" for cj
  proof (cases "cj = ci")
    case True
    with that assms show ?thesis by (simp add: cache_ok_def entry_ok_def)
  next
    case False
    with that assms(1) show ?thesis by (simp add: cache_ok_def)
  qed
  with assms(1) show ?thesis by (simp add: cache_ok_def)
qed

lemma load_global_spec:
  assumes "root_ok R" "cache_ok pool cache R" "ci < length pool"
  shows "case root_map R (pool ! ci) of
      None \<Rightarrow> load_global_cached pool cache R ci = Inl unbound
    | Some v \<Rightarrow> \<exists>cache'. load_global_cached pool cache R ci = Inr (v, cache') \<and> cache_ok pool cache' R"
proof (cases "cache_hit cache R ci")
  case (Some p)
  obtain i where i: "p = (f_cap (r_frame R), i)" "i < f_size (r_frame R)" "f_syms (r_frame R) ! i = pool ! ci"
    by (rule cache_hit_slot [OF assms(2,3) Some])
  then show ?thesis
    using slot_value [OF assms(1) i(2)] Some assms(2) by (simp add: load_global_cached_def)
next
  case None
  obtain p where p: "frame_lookup_versioned (r_frame R) (pool ! ci) = Inr (p, f_version (r_frame R))"
    "case p of None \<Rightarrow> root_map R (pool ! ci) = None
     | Some q \<Rightarrow> \<exists>i. q = (f_cap (r_frame R), i) \<and> i < f_size (r_frame R) \<and> f_syms (r_frame R) ! i = pool ! ci"
    using lookup_slot [of "r_frame R"] assms(1) by (auto simp: root_ok_def)
  show ?thesis
  proof (cases p)
    case None
    with p \<open>cache_hit cache R ci = None\<close> show ?thesis by (simp add: load_global_cached_def)
  next
    case (Some q)
    then obtain i where i: "q = (f_cap (r_frame R), i)" "i < f_size (r_frame R)" "f_syms (r_frame R) ! i = pool ! ci"
      using p(2) by auto
    then show ?thesis
      using slot_value [OF assms(1) i(2)] cache_update_ok [OF assms(2) i(2,3)] None p(1) Some
      by (simp add: load_global_cached_def)
  qed
qed

lemma store_global_spec:
  assumes "root_ok R" "cache_ok pool cache R" "ci < length pool"
  shows "\<exists>R' cache'. store_global pool cache R ci v = Inr (R', cache') \<and> root_ok R' \<and> cache_ok pool cache' R' \<and>
    root_map R' = (if pool ! ci \<in> dom (root_map R) then (root_map R)(pool ! ci \<mapsto> v) else root_map R) \<and>
    f_version (r_frame R') = f_version (r_frame R) \<and> f_size (r_frame R') = f_size (r_frame R)"
proof -
  have hit: "root_ok (slot_store R (f_cap (r_frame R), i) v) \<and> cache_ok pool cache' (slot_store R (f_cap (r_frame R), i) v) \<and>
      root_map (slot_store R (f_cap (r_frame R), i) v) =
        (if pool ! ci \<in> dom (root_map R) then (root_map R)(pool ! ci \<mapsto> v) else root_map R) \<and>
      f_version (r_frame (slot_store R (f_cap (r_frame R), i) v)) = f_version (r_frame R) \<and>
      f_size (r_frame (slot_store R (f_cap (r_frame R), i) v)) = f_size (r_frame R)"
    if i: "i < f_size (r_frame R)" "f_syms (r_frame R) ! i = pool ! ci" and "cache_ok pool cache' R" for i cache'
  proof -
    have "pool ! ci \<in> dom (root_map R)" using slot_value [OF assms(1) i(1)] i(2) by auto
    then show ?thesis
      using slot_store_spec [OF assms(1) i(1), of v] i that(3)
      by (simp add: cache_ok_def entry_ok_slot_store) (simp add: slot_store_def)
  qed
  show ?thesis
  proof (cases "cache_hit cache R ci")
    case (Some p)
    obtain i where i: "p = (f_cap (r_frame R), i)" "i < f_size (r_frame R)" "f_syms (r_frame R) ! i = pool ! ci"
      by (rule cache_hit_slot [OF assms(2,3) Some])
    with hit [OF i(2,3) assms(2)] Some show ?thesis by (simp add: store_global_def)
  next
    case None
    obtain p where p: "frame_lookup_versioned (r_frame R) (pool ! ci) = Inr (p, f_version (r_frame R))"
      "case p of None \<Rightarrow> root_map R (pool ! ci) = None
       | Some q \<Rightarrow> \<exists>i. q = (f_cap (r_frame R), i) \<and> i < f_size (r_frame R) \<and> f_syms (r_frame R) ! i = pool ! ci"
      using lookup_slot [of "r_frame R"] assms(1) by (auto simp: root_ok_def)
    show ?thesis
    proof (cases p)
      case None
      with p \<open>cache_hit cache R ci = None\<close> assms show ?thesis by (auto simp: store_global_def)
    next
      case (Some q)
      then obtain i where i: "q = (f_cap (r_frame R), i)" "i < f_size (r_frame R)" "f_syms (r_frame R) ! i = pool ! ci"
        using p(2) by auto
      from hit [OF i(2,3) cache_update_ok [OF assms(2) i(2,3)]] None p(1) Some i(1)
      show ?thesis by (simp add: store_global_def)
    qed
  qed
qed

lemma root_define_spec:
  assumes "root_ok R" "f_size (r_frame R) < 2 ^ 28" "f_version (r_frame R) + 2 < 2 ^ 32"
  shows "\<exists>R'. root_define R s v = Inr R' \<and> root_ok R' \<and> root_map R' = (root_map R)(s \<mapsto> v) \<and>
    f_version (r_frame R') = f_version (r_frame R) + 2 \<and> f_size (r_frame R') \<le> f_size (r_frame R) + 1"
proof -
  obtain f' where f': "frame_define_unlocked (r_frame R) s v = Inr f'" "frame_ok f'" "frame_map f' = (root_map R)(s \<mapsto> v)"
    "f_parent f' = f_parent (r_frame R)" "f_size f' \<le> f_size (r_frame R) + 1"
    using frame_define_unlocked_spec [of "r_frame R" s v] assms by (auto simp: root_ok_def)
  have "wrap32 (f_version (r_frame R) + 2) = f_version (r_frame R) + 2" using assms(3) by (simp add: wrap32_def)
  then show ?thesis
    using f' assms(1) by (simp add: root_define_def frame_define_def root_ok_def frame_is_global_def)
qed

text \<open>A definition advances the version, so every entry of the cache becomes stale; then its own is refilled.\<close>

lemma def_global_spec:
  assumes "root_ok R" "cache_ok pool cache R" "ci < length pool"
    and "f_size (r_frame R) < 2 ^ 28" "f_version (r_frame R) + 2 < 2 ^ 32"
  shows "\<exists>R' cache'. def_global pool cache R ci v = Inr (R', cache') \<and> root_ok R' \<and> cache_ok pool cache' R' \<and>
    root_map R' = (root_map R)(pool ! ci \<mapsto> v) \<and>
    f_version (r_frame R') = f_version (r_frame R) + 2 \<and> f_size (r_frame R') \<le> f_size (r_frame R) + 1"
proof -
  obtain R' where R': "root_define R (pool ! ci) v = Inr R'" "root_ok R'" "root_map R' = (root_map R)(pool ! ci \<mapsto> v)"
    "f_version (r_frame R') = f_version (r_frame R) + 2" "f_size (r_frame R') \<le> f_size (r_frame R) + 1"
    using root_define_spec [OF assms(1,4,5), of "pool ! ci" v] by blast
  have stale: "entry_ok R' x e" if "entry_ok R x e" for x e
    using that R'(4) by (cases e) (auto simp: entry_ok_def split: option.splits)
  then have ok: "cache_ok pool cache R'" using assms(2) by (simp add: cache_ok_def)
  obtain p where p: "frame_lookup_versioned (r_frame R') (pool ! ci) = Inr (p, f_version (r_frame R'))"
    "case p of None \<Rightarrow> root_map R' (pool ! ci) = None
     | Some q \<Rightarrow> \<exists>i. q = (f_cap (r_frame R'), i) \<and> i < f_size (r_frame R') \<and> f_syms (r_frame R') ! i = pool ! ci"
    using lookup_slot [of "r_frame R'"] R'(2) by (auto simp: root_ok_def)
  obtain i where i: "p = Some (f_cap (r_frame R'), i)" "i < f_size (r_frame R')" "f_syms (r_frame R') ! i = pool ! ci"
    using p(2) R'(3) by (cases p) auto
  show ?thesis using cache_update_ok [OF ok i(2,3)] R' p(1) i(1) by (simp add: def_global_def)
qed

section \<open>Sequences of instructions\<close>

datatype global_op = Load_Global nat | Store_Global nat val | Def_Global nat val

fun op_index :: "global_op \<Rightarrow> nat" where
  "op_index (Load_Global ci) = ci"
| "op_index (Store_Global ci v) = ci"
| "op_index (Def_Global ci v) = ci"

text \<open>The values the loads push, and the final state; the first unbound variable ends the run.\<close>

fun run_globals :: "val list \<Rightarrow> cache_entry list \<Rightarrow> root \<Rightarrow> global_op list \<Rightarrow> (val list \<times> root \<times> cache_entry list) res" where
  "run_globals pool cache R [] = Inr ([], R, cache)"
| "run_globals pool cache R (Load_Global ci # ops) =
     rbind (load_global_cached pool cache R ci) (\<lambda>(v, cache').
     rbind (run_globals pool cache' R ops) (\<lambda>(vs, fin). Inr (v # vs, fin)))"
| "run_globals pool cache R (Store_Global ci v # ops) =
     rbind (store_global pool cache R ci v) (\<lambda>(R', cache'). run_globals pool cache' R' ops)"
| "run_globals pool cache R (Def_Global ci v # ops) =
     rbind (def_global pool cache R ci v) (\<lambda>(R', cache'). run_globals pool cache' R' ops)"

text \<open>The reference: variables are a finite map.\<close>

fun ref_globals :: "val list \<Rightarrow> (val \<rightharpoonup> val) \<Rightarrow> global_op list \<Rightarrow> (val list \<times> (val \<rightharpoonup> val)) res" where
  "ref_globals pool m [] = Inr ([], m)"
| "ref_globals pool m (Load_Global ci # ops) =
     (case m (pool ! ci) of None \<Rightarrow> Inl unbound
      | Some v \<Rightarrow> rbind (ref_globals pool m ops) (\<lambda>(vs, m'). Inr (v # vs, m')))"
| "ref_globals pool m (Store_Global ci v # ops) =
     ref_globals pool (if pool ! ci \<in> dom m then m(pool ! ci \<mapsto> v) else m) ops"
| "ref_globals pool m (Def_Global ci v # ops) = ref_globals pool (m(pool ! ci \<mapsto> v)) ops"

definition globals_result :: "(val list \<times> root \<times> cache_entry list) res \<Rightarrow> (val list \<times> (val \<rightharpoonup> val)) res" where
  "globals_result r = (case r of Inl e \<Rightarrow> Inl e | Inr (vs, R, _) \<Rightarrow> Inr (vs, root_map R))"

lemma globals_result_simps [simp]:
  "globals_result (Inl e) = Inl e" "globals_result (Inr (vs, R, c)) = Inr (vs, root_map R)"
  by (simp_all add: globals_result_def)

lemma globals_result_cons:
  "globals_result (rbind r (\<lambda>(vs, fin). Inr (v # vs, fin))) = rbind (globals_result r) (\<lambda>(vs, m). Inr (v # vs, m))"
  by (cases r) (auto simp: globals_result_def)

lemma run_globals_simulates:
  assumes "root_ok R" "cache_ok pool cache R" "\<forall>op \<in> set ops. op_index op < length pool"
    and "f_size (r_frame R) + length ops \<le> 2 ^ 28" "f_version (r_frame R) + 2 * length ops < 2 ^ 32"
  shows "globals_result (run_globals pool cache R ops) = ref_globals pool (root_map R) ops"
  using assms
proof (induction pool cache R ops rule: run_globals.induct)
  case (1 pool cache R)
  then show ?case by simp
next
  case (2 pool cache R ci ops)
  show ?case
  proof (cases "root_map R (pool ! ci)")
    case None
    with load_global_spec [OF 2(2,3), of ci] 2(4) show ?thesis by simp
  next
    case (Some v)
    then obtain cache' where c: "load_global_cached pool cache R ci = Inr (v, cache')" "cache_ok pool cache' R"
      using load_global_spec [OF 2(2,3), of ci] 2(4) by auto
    then have "globals_result (run_globals pool cache' R ops) = ref_globals pool (root_map R) ops"
      using 2 by auto
    with c Some show ?thesis by (simp add: globals_result_cons)
  qed
next
  case (3 pool cache R ci v ops)
  obtain R' cache' where s: "store_global pool cache R ci v = Inr (R', cache')" "root_ok R'" "cache_ok pool cache' R'"
    "root_map R' = (if pool ! ci \<in> dom (root_map R) then (root_map R)(pool ! ci \<mapsto> v) else root_map R)"
    "f_version (r_frame R') = f_version (r_frame R)" "f_size (r_frame R') = f_size (r_frame R)"
    using store_global_spec [OF 3(2,3), of ci v] 3(4) by auto
  have "globals_result (run_globals pool cache' R' ops) = ref_globals pool (root_map R') ops"
    using 3(1) [OF s(1) refl s(2,3)] 3(4-6) s(5,6) by auto
  with s show ?case by simp
next
  case (4 pool cache R ci v ops)
  obtain R' cache' where s: "def_global pool cache R ci v = Inr (R', cache')" "root_ok R'" "cache_ok pool cache' R'"
    "root_map R' = (root_map R)(pool ! ci \<mapsto> v)" "f_version (r_frame R') = f_version (r_frame R) + 2"
    "f_size (r_frame R') \<le> f_size (r_frame R) + 1"
    using def_global_spec [OF 4(2,3), of ci v] 4(4-6) by auto
  have "globals_result (run_globals pool cache' R' ops) = ref_globals pool (root_map R') ops"
    using 4(1) [OF s(1) refl s(2,3)] 4(4-6) s(5,6) by auto
  with s show ?case by simp
qed

text \<open>
  C24: The inline cache of global variables is invisible. Any sequence of the global load, store and
  define instructions of a chunk, run through the cache against a root frame from a fresh chunk, pushes
  the values and leaves the bindings that the same accesses on a finite map give; a load of an unbound
  variable raises, an assignment to one has no effect. The bounds keep the frame and its version counter
  from wrapping.
\<close>

theorem global_cache_transparent:
  assumes "root_ok R" "\<forall>op \<in> set ops. op_index op < length pool"
    and "f_size (r_frame R) + length ops \<le> 2 ^ 28" "f_version (r_frame R) + 2 * length ops < 2 ^ 32"
  shows "globals_result (run_globals pool (replicate (length pool) (None, 0)) R ops) = ref_globals pool (root_map R) ops"
  by (rule run_globals_simulates) (use assms in \<open>auto simp: cache_ok_def entry_ok_def\<close>)

definition new_root :: root where
  "new_root = \<lparr>r_frame = frame_new 64 None, r_stale = (\<lambda>_. None)\<rparr>"

lemma new_root_ok: "root_ok new_root" "f_size (r_frame new_root) = 0" "f_version (r_frame new_root) = 0"
  "root_map new_root = Map.empty"
  using frame_new_spec [of 64 None]
  by (auto simp: new_root_def root_ok_def frame_is_global_def) (simp add: frame_new_def Let_def)

theorem global_cache_transparent_witness:
  "globals_result (run_globals [16, 32] [(None, 0), (None, 0)] new_root
     [Def_Global 0 (vfix 1), Load_Global 0, Def_Global 1 (vfix 2), Store_Global 0 (vfix 3), Load_Global 0]) =
   Inr ([vfix 1, vfix 3], [16 \<mapsto> vfix 3, 32 \<mapsto> vfix 2])"
proof -
  have c: "replicate (length [16, 32 :: val]) (None, 0) = [(None, 0), (None, 0)]" by simp
  show ?thesis
    by (subst c [symmetric], subst global_cache_transparent [OF new_root_ok(1)])
      (simp_all add: new_root_ok fun_upd_twist)
qed

section \<open>A store that races a growing frame\<close>

lemma full_define_grows:
  assumes "root_ok R" "f_size (r_frame R) = f_cap (r_frame R)" "f_cap (r_frame R) < 2 ^ 28"
    and "t \<notin> dom (root_map R)" "root_define R t w = Inr R'"
  shows "f_cap (r_frame R') = 2 * f_cap (r_frame R)"
proof -
  let ?f = "r_frame R"
  have fok: "frame_ok ?f" using assms(1) by (simp add: root_ok_def)
  obtain r where r: "frame_find ?f t = Inr r"
    "case r of None \<Rightarrow> \<forall>i < f_size ?f. f_syms ?f ! i \<noteq> t | Some i \<Rightarrow> i < f_size ?f \<and> f_syms ?f ! i = t"
    using frame_find_spec [OF fok] by blast
  have none: "r = None" using r(2) frame_map_None [OF fok, of t] assms(4) by (cases r) auto
  have index: "f_cap g' = f_cap g" if "frame_index g = Inr g'" for g g'
    using that by (auto simp: frame_index_def frame_hash_rehash_def frame_build_hash_def rbind_Inr_iff
        split: if_splits)
  have grow: "f_cap (frame_grow ?f) = 2 * f_cap ?f"
    using assms(3) by (simp add: frame_grow_def Let_def wrap32_def)
  obtain f' where f': "frame_define_unlocked ?f t w = Inr f'" "f_cap (r_frame R') = f_cap f'"
    using assms(5) assms(1)
    by (auto simp: root_define_def frame_define_def root_ok_def rbind_Inr_iff split: if_splits)
  from f'(1) have "f_cap f' = f_cap (frame_grow ?f)"
    unfolding frame_define_unlocked_index using assms(2) r(1) none
    by (auto simp: Let_def dest: index)
  with grow f'(2) show ?thesis by simp
qed

text \<open>
  C30: The value store of \<open>OP_STORE_GLOBAL\<close> is a separate step after the version check. If another thread's
  definition of a new variable grows the full frame in between, the store goes through a slot of the
  array that was replaced: the assignment is lost, the variable keeps its old value for every reader.
\<close>

theorem racing_store_lost:
  assumes "root_ok R" "f_size (r_frame R) = f_cap (r_frame R)" "f_cap (r_frame R) < 2 ^ 28"
    and "cache_ok pool cache R" "ci < length pool" "cache_hit cache R ci = Some p"
    and "t \<notin> dom (root_map R)" "root_define R t w = Inr R'"
  shows "root_map (slot_store R' p v) (pool ! ci) = root_map R' (pool ! ci) \<and>
    root_map (slot_store R p v) (pool ! ci) = Some v"
proof -
  obtain i where i: "p = (f_cap (r_frame R), i)" "i < f_size (r_frame R)" "f_syms (r_frame R) ! i = pool ! ci"
    by (rule cache_hit_slot [OF assms(4,5,6)])
  have "f_cap (r_frame R) \<noteq> f_cap (r_frame R')"
    using full_define_grows [OF assms(1,2,3,7,8)] assms(1) by (auto simp: root_ok_def frame_ok_def)
  then have "r_frame (slot_store R' p v) = r_frame R'" by (simp add: slot_store_def i(1))
  moreover have "root_map (slot_store R p v) (pool ! ci) = Some v"
    using slot_store_spec(2) [OF assms(1) i(2), of v] i by simp
  ultimately show ?thesis by simp
qed

definition full_root :: root where
  "full_root = \<lparr>r_frame = \<lparr>f_size = 1, f_cap = 1, f_syms = [16], f_vals = [vfix 1], f_parent = None,
     f_hidx = [], f_hcap = 0, f_version = 2\<rparr>, r_stale = (\<lambda>_. None)\<rparr>"

theorem racing_store_lost_witness:
  "\<exists>R'. root_define full_root 32 V_NIL = Inr R' \<and> cache_hit [(Some (1, 0), 2)] full_root 0 = Some (1, 0) \<and>
    root_map (slot_store R' (1, 0) (vfix 7)) 16 = root_map R' 16"
proof -
  have ok: "root_ok full_root" by (simp add: root_ok_def frame_ok_def full_root_def FRAME_HASH_THRESHOLD_def frame_is_global_def)
  have m: "root_map full_root = [16 \<mapsto> vfix 1]" by (simp add: full_root_def frame_map_def)
  have h: "cache_hit [(Some (1, 0), 2)] full_root 0 = Some (1, 0)" by (simp add: cache_hit_def full_root_def)
  obtain R' where R': "root_define full_root 32 V_NIL = Inr R'"
    using root_define_spec [OF ok, of 32 V_NIL] by (auto simp: full_root_def)
  have "cache_ok [16] [(Some (1, 0), 2)] full_root" by (simp add: cache_ok_def entry_ok_def full_root_def)
  then show ?thesis
    using racing_store_lost [OF ok _ _ _ _ h _ R', of "[16]" "vfix 7"] h R' m by (simp add: full_root_def)
qed

end
