(* ===== verification/Opcode.thy ===== *)
theory Opcode
  imports Curry_Prelude
begin

text \<open>
  The instruction set of the virtual machine (\<open>src/src/opcode.h\<close>), in the order of the C enumeration, the
  names of the disassembler (\<open>opcode_name\<close> in \<open>src/src/chunk.c\<close>), the byte of each instruction, and the
  operand bytes that follow it (\<open>disasm_one\<close> in \<open>src/src/chunk.c\<close>).
\<close>

datatype (plugins only: size) opcode =
    OP_CONST | OP_CONST_W | OP_TRUE | OP_FALSE | OP_NIL | OP_VOID | OP_LOAD_LOCAL | OP_STORE_LOCAL
    | OP_LOAD_GLOBAL | OP_STORE_GLOBAL | OP_DEF_GLOBAL | OP_DEFINED_GLOBAL | OP_LOAD_UP | OP_STORE_UP
    | OP_POP | OP_DUP | OP_SWAP | OP_SLIDE | OP_ADD | OP_SUB | OP_MUL | OP_DIV | OP_NEG | OP_ABS
    | OP_EXPT | OP_EQ | OP_LT | OP_LE | OP_GT | OP_GE | OP_NUMEQ | OP_EQV | OP_EQUAL | OP_NOT | OP_CONS
    | OP_CAR | OP_CDR | OP_SETCAR | OP_SETCDR | OP_NULLP | OP_PAIRP | OP_STRINGLEN | OP_STRINGREF
    | OP_CHARTOFIX | OP_FIXTOCHAR | OP_NUMBERP | OP_STRINGP | OP_SYMBOLP | OP_CHARP | OP_BOOLP | OP_PROCP
    | OP_VECTORP | OP_MAKEVEC | OP_VECREF | OP_VECSET | OP_VECLEN | OP_JUMP | OP_JUMP_FALSE
    | OP_JUMP_TRUE | OP_CALL | OP_TAIL_CALL | OP_RETURN | OP_SELF_TAIL_CALL | OP_CALL_GLOBAL
    | OP_TAIL_CALL_GLOBAL | OP_TREE_EVAL_CACHED | OP_CLOSURE | OP_CLOSE_UP | OP_APPLY | OP_TAIL_APPLY
    | OP_VALUES | OP_VALUES_REF | OP_CALL_WITH_VALUES | OP_TAIL_CALL_WITH_VALUES | OP_PUSH_HANDLER
    | OP_POP_HANDLER | OP_RAISE | OP_DISPLAY | OP_WRITE | OP_NEWLINE | OP_NOP

primrec opcode_name :: "opcode \<Rightarrow> string" where
  "opcode_name OP_CONST = ''CONST''"
| "opcode_name OP_CONST_W = ''CONST_W''"
| "opcode_name OP_TRUE = ''TRUE''"
| "opcode_name OP_FALSE = ''FALSE''"
| "opcode_name OP_NIL = ''NIL''"
| "opcode_name OP_VOID = ''VOID''"
| "opcode_name OP_LOAD_LOCAL = ''LOAD_LOCAL''"
| "opcode_name OP_STORE_LOCAL = ''STORE_LOCAL''"
| "opcode_name OP_LOAD_GLOBAL = ''LOAD_GLOBAL''"
| "opcode_name OP_STORE_GLOBAL = ''STORE_GLOBAL''"
| "opcode_name OP_DEF_GLOBAL = ''DEF_GLOBAL''"
| "opcode_name OP_DEFINED_GLOBAL = ''DEFINED_GLOBAL''"
| "opcode_name OP_LOAD_UP = ''LOAD_UP''"
| "opcode_name OP_STORE_UP = ''STORE_UP''"
| "opcode_name OP_POP = ''POP''"
| "opcode_name OP_DUP = ''DUP''"
| "opcode_name OP_SWAP = ''SWAP''"
| "opcode_name OP_SLIDE = ''SLIDE''"
| "opcode_name OP_ADD = ''ADD''"
| "opcode_name OP_SUB = ''SUB''"
| "opcode_name OP_MUL = ''MUL''"
| "opcode_name OP_DIV = ''DIV''"
| "opcode_name OP_NEG = ''NEG''"
| "opcode_name OP_ABS = ''ABS''"
| "opcode_name OP_EXPT = ''EXPT''"
| "opcode_name OP_EQ = ''EQ''"
| "opcode_name OP_LT = ''LT''"
| "opcode_name OP_LE = ''LE''"
| "opcode_name OP_GT = ''GT''"
| "opcode_name OP_GE = ''GE''"
| "opcode_name OP_NUMEQ = ''NUMEQ''"
| "opcode_name OP_EQV = ''EQV''"
| "opcode_name OP_EQUAL = ''EQUAL''"
| "opcode_name OP_NOT = ''NOT''"
| "opcode_name OP_CONS = ''CONS''"
| "opcode_name OP_CAR = ''CAR''"
| "opcode_name OP_CDR = ''CDR''"
| "opcode_name OP_SETCAR = ''SETCAR''"
| "opcode_name OP_SETCDR = ''SETCDR''"
| "opcode_name OP_NULLP = ''NULLP''"
| "opcode_name OP_PAIRP = ''PAIRP''"
| "opcode_name OP_STRINGLEN = ''STRINGLEN''"
| "opcode_name OP_STRINGREF = ''STRINGREF''"
| "opcode_name OP_CHARTOFIX = ''CHARTOFIX''"
| "opcode_name OP_FIXTOCHAR = ''FIXTOCHAR''"
| "opcode_name OP_NUMBERP = ''NUMBERP''"
| "opcode_name OP_STRINGP = ''STRINGP''"
| "opcode_name OP_SYMBOLP = ''SYMBOLP''"
| "opcode_name OP_CHARP = ''CHARP''"
| "opcode_name OP_BOOLP = ''BOOLP''"
| "opcode_name OP_PROCP = ''PROCP''"
| "opcode_name OP_VECTORP = ''VECTORP''"
| "opcode_name OP_MAKEVEC = ''MAKEVEC''"
| "opcode_name OP_VECREF = ''VECREF''"
| "opcode_name OP_VECSET = ''VECSET''"
| "opcode_name OP_VECLEN = ''VECLEN''"
| "opcode_name OP_JUMP = ''JUMP''"
| "opcode_name OP_JUMP_FALSE = ''JUMP_FALSE''"
| "opcode_name OP_JUMP_TRUE = ''JUMP_TRUE''"
| "opcode_name OP_CALL = ''CALL''"
| "opcode_name OP_TAIL_CALL = ''TAIL_CALL''"
| "opcode_name OP_RETURN = ''RETURN''"
| "opcode_name OP_SELF_TAIL_CALL = ''SELF_TAIL_CALL''"
| "opcode_name OP_CALL_GLOBAL = ''CALL_GLOBAL''"
| "opcode_name OP_TAIL_CALL_GLOBAL = ''TAIL_CALL_GLOBAL''"
| "opcode_name OP_TREE_EVAL_CACHED = ''TREE_EVAL_CACHED''"
| "opcode_name OP_CLOSURE = ''CLOSURE''"
| "opcode_name OP_CLOSE_UP = ''CLOSE_UP''"
| "opcode_name OP_APPLY = ''APPLY''"
| "opcode_name OP_TAIL_APPLY = ''TAIL_APPLY''"
| "opcode_name OP_VALUES = ''VALUES''"
| "opcode_name OP_VALUES_REF = ''VALUES_REF''"
| "opcode_name OP_CALL_WITH_VALUES = ''CALL_WITH_VALUES''"
| "opcode_name OP_TAIL_CALL_WITH_VALUES = ''TAIL_CALL_WITH_VALUES''"
| "opcode_name OP_PUSH_HANDLER = ''PUSH_HANDLER''"
| "opcode_name OP_POP_HANDLER = ''POP_HANDLER''"
| "opcode_name OP_RAISE = ''RAISE''"
| "opcode_name OP_DISPLAY = ''DISPLAY''"
| "opcode_name OP_WRITE = ''WRITE''"
| "opcode_name OP_NEWLINE = ''NEWLINE''"
| "opcode_name OP_NOP = ''NOP''"

definition opcodes :: "opcode list" where
  "opcodes = [
     OP_CONST, OP_CONST_W, OP_TRUE, OP_FALSE, OP_NIL, OP_VOID, OP_LOAD_LOCAL, OP_STORE_LOCAL,
     OP_LOAD_GLOBAL, OP_STORE_GLOBAL, OP_DEF_GLOBAL, OP_DEFINED_GLOBAL, OP_LOAD_UP, OP_STORE_UP, OP_POP,
     OP_DUP, OP_SWAP, OP_SLIDE, OP_ADD, OP_SUB, OP_MUL, OP_DIV, OP_NEG, OP_ABS, OP_EXPT, OP_EQ, OP_LT,
     OP_LE, OP_GT, OP_GE, OP_NUMEQ, OP_EQV, OP_EQUAL, OP_NOT, OP_CONS, OP_CAR, OP_CDR, OP_SETCAR,
     OP_SETCDR, OP_NULLP, OP_PAIRP, OP_STRINGLEN, OP_STRINGREF, OP_CHARTOFIX, OP_FIXTOCHAR, OP_NUMBERP,
     OP_STRINGP, OP_SYMBOLP, OP_CHARP, OP_BOOLP, OP_PROCP, OP_VECTORP, OP_MAKEVEC, OP_VECREF, OP_VECSET,
     OP_VECLEN, OP_JUMP, OP_JUMP_FALSE, OP_JUMP_TRUE, OP_CALL, OP_TAIL_CALL, OP_RETURN,
     OP_SELF_TAIL_CALL, OP_CALL_GLOBAL, OP_TAIL_CALL_GLOBAL, OP_TREE_EVAL_CACHED, OP_CLOSURE,
     OP_CLOSE_UP, OP_APPLY, OP_TAIL_APPLY, OP_VALUES, OP_VALUES_REF, OP_CALL_WITH_VALUES,
     OP_TAIL_CALL_WITH_VALUES, OP_PUSH_HANDLER, OP_POP_HANDLER, OP_RAISE, OP_DISPLAY, OP_WRITE,
     OP_NEWLINE, OP_NOP]"

definition OP_COUNT :: nat where
  "OP_COUNT = 81"

text \<open>The enumeration values, as the bytes the compiler emits.\<close>

primrec op_byte :: "opcode \<Rightarrow> u8" where
  "op_byte OP_CONST = 0"
| "op_byte OP_CONST_W = 1"
| "op_byte OP_TRUE = 2"
| "op_byte OP_FALSE = 3"
| "op_byte OP_NIL = 4"
| "op_byte OP_VOID = 5"
| "op_byte OP_LOAD_LOCAL = 6"
| "op_byte OP_STORE_LOCAL = 7"
| "op_byte OP_LOAD_GLOBAL = 8"
| "op_byte OP_STORE_GLOBAL = 9"
| "op_byte OP_DEF_GLOBAL = 10"
| "op_byte OP_DEFINED_GLOBAL = 11"
| "op_byte OP_LOAD_UP = 12"
| "op_byte OP_STORE_UP = 13"
| "op_byte OP_POP = 14"
| "op_byte OP_DUP = 15"
| "op_byte OP_SWAP = 16"
| "op_byte OP_SLIDE = 17"
| "op_byte OP_ADD = 18"
| "op_byte OP_SUB = 19"
| "op_byte OP_MUL = 20"
| "op_byte OP_DIV = 21"
| "op_byte OP_NEG = 22"
| "op_byte OP_ABS = 23"
| "op_byte OP_EXPT = 24"
| "op_byte OP_EQ = 25"
| "op_byte OP_LT = 26"
| "op_byte OP_LE = 27"
| "op_byte OP_GT = 28"
| "op_byte OP_GE = 29"
| "op_byte OP_NUMEQ = 30"
| "op_byte OP_EQV = 31"
| "op_byte OP_EQUAL = 32"
| "op_byte OP_NOT = 33"
| "op_byte OP_CONS = 34"
| "op_byte OP_CAR = 35"
| "op_byte OP_CDR = 36"
| "op_byte OP_SETCAR = 37"
| "op_byte OP_SETCDR = 38"
| "op_byte OP_NULLP = 39"
| "op_byte OP_PAIRP = 40"
| "op_byte OP_STRINGLEN = 41"
| "op_byte OP_STRINGREF = 42"
| "op_byte OP_CHARTOFIX = 43"
| "op_byte OP_FIXTOCHAR = 44"
| "op_byte OP_NUMBERP = 45"
| "op_byte OP_STRINGP = 46"
| "op_byte OP_SYMBOLP = 47"
| "op_byte OP_CHARP = 48"
| "op_byte OP_BOOLP = 49"
| "op_byte OP_PROCP = 50"
| "op_byte OP_VECTORP = 51"
| "op_byte OP_MAKEVEC = 52"
| "op_byte OP_VECREF = 53"
| "op_byte OP_VECSET = 54"
| "op_byte OP_VECLEN = 55"
| "op_byte OP_JUMP = 56"
| "op_byte OP_JUMP_FALSE = 57"
| "op_byte OP_JUMP_TRUE = 58"
| "op_byte OP_CALL = 59"
| "op_byte OP_TAIL_CALL = 60"
| "op_byte OP_RETURN = 61"
| "op_byte OP_SELF_TAIL_CALL = 62"
| "op_byte OP_CALL_GLOBAL = 63"
| "op_byte OP_TAIL_CALL_GLOBAL = 64"
| "op_byte OP_TREE_EVAL_CACHED = 65"
| "op_byte OP_CLOSURE = 66"
| "op_byte OP_CLOSE_UP = 67"
| "op_byte OP_APPLY = 68"
| "op_byte OP_TAIL_APPLY = 69"
| "op_byte OP_VALUES = 70"
| "op_byte OP_VALUES_REF = 71"
| "op_byte OP_CALL_WITH_VALUES = 72"
| "op_byte OP_TAIL_CALL_WITH_VALUES = 73"
| "op_byte OP_PUSH_HANDLER = 74"
| "op_byte OP_POP_HANDLER = 75"
| "op_byte OP_RAISE = 76"
| "op_byte OP_DISPLAY = 77"
| "op_byte OP_WRITE = 78"
| "op_byte OP_NEWLINE = 79"
| "op_byte OP_NOP = 80"

definition op_of_byte :: "u8 \<Rightarrow> opcode option" where
  "op_of_byte b = (if unat b < OP_COUNT then Some (opcodes ! unat b) else None)"

lemma op_of_byte_op_byte [simp]: "op_of_byte (op_byte op) = Some op"
  unfolding op_of_byte_def OP_COUNT_def opcodes_def by (cases op) simp_all

lemma op_byte_inject [simp]: "op_byte op = op_byte op' \<longleftrightarrow> op = op'"
  by (metis op_of_byte_op_byte option.inject)

section \<open>Operands\<close>

datatype operands = No_Operand | One_Byte | Two_Byte_Word | Two_Bytes | Capture_Table

definition one_byte_ops :: "opcode list" where
  "one_byte_ops =
     [OP_CONST, OP_LOAD_LOCAL, OP_STORE_LOCAL, OP_LOAD_GLOBAL, OP_STORE_GLOBAL, OP_DEF_GLOBAL, OP_DEFINED_GLOBAL,
      OP_LOAD_UP, OP_STORE_UP, OP_CALL, OP_TAIL_CALL, OP_SELF_TAIL_CALL, OP_CLOSE_UP, OP_VALUES, OP_VALUES_REF,
      OP_MAKEVEC, OP_APPLY, OP_TAIL_APPLY, OP_SLIDE, OP_TREE_EVAL_CACHED, OP_CAR, OP_CDR, OP_CONS, OP_NULLP, OP_PAIRP,
      OP_ADD, OP_SUB, OP_MUL, OP_NUMEQ, OP_LT, OP_LE, OP_GT, OP_GE]"

definition op_operands :: "opcode \<Rightarrow> operands" where
  "op_operands op =
     (if op = OP_CLOSURE then Capture_Table
      else if op \<in> set one_byte_ops then One_Byte
      else if op \<in> set [OP_CONST_W, OP_JUMP, OP_JUMP_FALSE, OP_JUMP_TRUE, OP_PUSH_HANDLER] then Two_Byte_Word
      else if op \<in> set [OP_CALL_GLOBAL, OP_TAIL_CALL_GLOBAL] then Two_Bytes
      else No_Operand)"

text \<open>Two-byte operands are little endian.\<close>

definition u16_bytes :: "u16 \<Rightarrow> u8 list" where
  "u16_bytes w = [ucast w, ucast (drop_bit 8 w)]"

definition u16_of_bytes :: "u8 \<Rightarrow> u8 \<Rightarrow> u16" where
  "u16_of_bytes lo hi = ucast lo OR push_bit 8 (ucast hi)"

lemma u16_of_bytes_ucast [simp]: "u16_of_bytes (ucast w) (ucast (drop_bit 8 w)) = w"
  unfolding u16_of_bytes_def
  by (rule bit_word_eqI) (auto simp: bit_simps)

lemma u16_bytes_length [simp]: "length (u16_bytes w) = 2"
  by (simp add: u16_bytes_def)

end
