(* ===== verification/Chunk.thy ===== *)
theory Chunk
  imports Equality Opcode
begin

text \<open>
  Chunks of bytecode (\<open>src/src/chunk.c\<close>): the growing byte stream with its line table, the constant pool
  that shares equal constants, the debug table of local variables, and the disassembler. The code and
  line arrays are kept as the lists of their used entries beside their allocated sizes; the inline
  caches that grow with the constants are modelled in \<open>Global_Cache\<close>. The lemmas show that emitting keeps
  the tables consistent, that the pool never refers to a constant that differs from the one asked for, and
  that the disassembler ends on every chunk and gives back the instructions of well-formed code.
\<close>

section \<open>Data\<close>

record local_debug_entry =
  ld_name :: val
  ld_slot :: u16
  ld_start :: int
  ld_end :: int

record chunk =
  ck_code :: "u8 list"
  ck_code_cap :: nat
  ck_lines :: "int list"
  ck_constants :: "val list"
  ck_const_cap :: nat
  ck_arity :: int
  ck_local_count :: int
  ck_upval_count :: nat
  ck_name :: "string option"
  ck_source_name :: "string option"
  ck_local_debug :: "local_debug_entry list"
  ck_local_debug_cap :: nat
  ck_target_env :: val
  ck_uses_local_macro :: bool

definition chunk_new :: chunk where
  "chunk_new = \<lparr>ck_code = [], ck_code_cap = 0, ck_lines = [], ck_constants = [], ck_const_cap = 0, ck_arity = 0,
     ck_local_count = 0, ck_upval_count = 0, ck_name = None, ck_source_name = None, ck_local_debug = [],
     ck_local_debug_cap = 0, ck_target_env = V_VOID, ck_uses_local_macro = False\<rparr>"

abbreviation code_len :: "chunk \<Rightarrow> nat" where "code_len c \<equiv> length (ck_code c)"
abbreviation const_len :: "chunk \<Rightarrow> nat" where "const_len c \<equiv> length (ck_constants c)"

section \<open>Emitting code\<close>

text \<open>\<open>while (cap < code_len + need) cap *= 2;\<close>\<close>

function grow_from :: "nat \<Rightarrow> nat \<Rightarrow> nat" where
  "grow_from cap need = (if 0 < cap \<and> cap < need then grow_from (cap * 2) need else cap)"
  by pat_completeness auto
termination by (relation "measure (\<lambda>(cap, need). need - cap)") auto

declare grow_from.simps [simp del]

definition ensure_code :: "chunk \<Rightarrow> nat \<Rightarrow> chunk" where
  "ensure_code c need =
     (if code_len c + need \<le> ck_code_cap c then c
      else c\<lparr>ck_code_cap := grow_from (if ck_code_cap c < 8 then 8 else ck_code_cap c * 2) (code_len c + need)\<rparr>)"

definition chunk_emit :: "chunk \<Rightarrow> u8 \<Rightarrow> int \<Rightarrow> nat \<times> chunk" where
  "chunk_emit c b line =
     (let c1 = ensure_code c 1
      in (code_len c1, c1\<lparr>ck_code := ck_code c1 @ [b], ck_lines := ck_lines c1 @ [line]\<rparr>))"

definition chunk_emit16 :: "chunk \<Rightarrow> u16 \<Rightarrow> int \<Rightarrow> chunk" where
  "chunk_emit16 c w line = snd (chunk_emit (snd (chunk_emit c (ucast (w AND 0xFF)) line)) (ucast (drop_bit 8 w)) line)"

definition chunk_patch16 :: "chunk \<Rightarrow> nat \<Rightarrow> u16 \<Rightarrow> chunk res" where
  "chunk_patch16 c at target =
     (if at + 1 < ck_code_cap c
      then Inr (c\<lparr>ck_code := (ck_code c)[at := ucast (target AND 0xFF), at + 1 := ucast (drop_bit 8 target)]\<rparr>)
      else Inl Undefined)"

section \<open>Debug information for locals\<close>

definition chunk_local_debug_add :: "chunk \<Rightarrow> val \<Rightarrow> int \<Rightarrow> int \<Rightarrow> int \<times> chunk" where
  "chunk_local_debug_add c name slot start_pc =
     (let cap = ck_local_debug_cap c;
          c1 = (if length (ck_local_debug c) = cap
                then c\<lparr>ck_local_debug_cap := if cap < 8 then 8 else cap * 2\<rparr> else c)
      in (int (length (ck_local_debug c)),
          c1\<lparr>ck_local_debug := ck_local_debug c @
               [\<lparr>ld_name = name, ld_slot = word_of_int slot, ld_start = start_pc, ld_end = -1\<rparr>]\<rparr>))"

definition chunk_local_debug_end :: "chunk \<Rightarrow> int \<Rightarrow> int \<Rightarrow> chunk" where
  "chunk_local_debug_end c idx end_pc =
     (if 0 \<le> idx \<and> idx < int (length (ck_local_debug c))
      then c\<lparr>ck_local_debug := (ck_local_debug c)[nat idx := (ck_local_debug c ! nat idx)\<lparr>ld_end := end_pc\<rparr>]\<rparr>
      else c)"

definition chunk_local_debug_finalize :: "chunk \<Rightarrow> chunk" where
  "chunk_local_debug_finalize c =
     c\<lparr>ck_local_debug := map (\<lambda>e. if ld_end e < 0 then e\<lparr>ld_end := int (code_len c)\<rparr> else e) (ck_local_debug c)\<rparr>"

section \<open>Constants\<close>

definition vis_number :: "rt \<Rightarrow> val \<Rightarrow> bool" where
  "vis_number r v \<longleftrightarrow> vis_fixnum v \<or>
     (case obj_at r v of Some ob \<Rightarrow> obj_type ob \<in> {5, 7, 6, 8, 9, 10, 32, 51} | None \<Rightarrow> False)"

text \<open>
  The tests of the search loop of \<open>chunk_add_const\<close> for one constant \<open>e\<close> of the pool. The test for symbols
  repeats the comparison of pointers.
\<close>

definition const_same :: "rt \<Rightarrow> val \<Rightarrow> val \<Rightarrow> bool res" where
  "const_same r e v =
     (if e = v then Inr True
      else rbind (if vis_number r e \<and> vis_number r v then scm_eqv r e v else Inr False) (\<lambda>same.
        Inr (same \<or> (case (obj_at r e, obj_at r v) of
               (Some (OString s), Some (OString t)) \<Rightarrow> length s = length t \<and> s = t
             | _ \<Rightarrow> False))))"

fun const_search :: "rt \<Rightarrow> val \<Rightarrow> nat \<Rightarrow> val list \<Rightarrow> nat option res" where
  "const_search r v i [] = Inr None"
| "const_search r v i (e # es) =
     rbind (const_same r e v) (\<lambda>same. if same then Inr (Some i) else const_search r v (i + 1) es)"

definition too_many_constants :: scm_error where
  "too_many_constants = Raise ''compiler limit: too many distinct constants in one chunk (max 256)''"

definition chunk_add_const :: "rt \<Rightarrow> chunk \<Rightarrow> val \<Rightarrow> (nat \<times> chunk) res" where
  "chunk_add_const r c v =
     rbind (const_search r v 0 (ck_constants c)) (\<lambda>found. case found of
       Some i \<Rightarrow> Inr (i, c)
     | None \<Rightarrow>
         if const_len c \<ge> 256 then Inl too_many_constants
         else let cap = ck_const_cap c;
                  c1 = (if const_len c = cap then c\<lparr>ck_const_cap := if cap < 8 then 8 else cap * 2\<rparr> else c)
              in Inr (const_len c, c1\<lparr>ck_constants := ck_constants c @ [v]\<rparr>))"

section \<open>Disassembler\<close>

text \<open>
  One line of the listing: the offset, the name and the operands of the instruction, the captures of a
  closure, and whether the listing was aborted there. The columns and the printed constants are left out.
\<close>

record listing_line =
  dl_off :: nat
  dl_name :: string
  dl_operands :: "nat list"
  dl_upvals :: "(bool \<times> nat) list"
  dl_aborted :: bool

definition code_byte :: "chunk \<Rightarrow> nat \<Rightarrow> u8 res" where
  "code_byte c off = (if off < code_len c then Inr (ck_code c ! off) else Inl Undefined)"

text \<open>The loop over the captures: it reports an overrun instead of reading past the end.\<close>

fun disasm_upvals :: "chunk \<Rightarrow> nat \<Rightarrow> nat \<Rightarrow> ((bool \<times> nat) list \<times> nat) option" where
  "disasm_upvals c off 0 = Some ([], off)"
| "disasm_upvals c off (Suc n) =
     (if off + 1 \<ge> code_len c then None
      else map_option (\<lambda>(us, off'). ((ck_code c ! off \<noteq> 0, unat (ck_code c ! (off + 1))) # us, off'))
             (disasm_upvals c (off + 2) n))"

definition disasm_closure :: "(val \<Rightarrow> chunk option) \<Rightarrow> chunk \<Rightarrow> nat \<Rightarrow> listing_line \<Rightarrow> u8 \<Rightarrow> listing_line \<times> nat" where
  "disasm_closure chunks c off line ci =
     (let aborted = (line\<lparr>dl_operands := [unat ci], dl_aborted := True\<rparr>, code_len c)
      in if unat ci \<ge> const_len c then aborted
         else case chunks (ck_constants c ! unat ci) of
           None \<Rightarrow> aborted
         | Some ch \<Rightarrow> (case disasm_upvals c off (ck_upval_count ch) of
             None \<Rightarrow> aborted
           | Some (us, off') \<Rightarrow> (line\<lparr>dl_operands := [unat ci], dl_upvals := us\<rparr>, off')))"

definition disasm_one :: "(val \<Rightarrow> chunk option) \<Rightarrow> chunk \<Rightarrow> nat \<Rightarrow> (listing_line \<times> nat) res" where
  "disasm_one chunks c off =
     rbind (code_byte c off) (\<lambda>b.
       let name = (case op_of_byte b of Some op \<Rightarrow> opcode_name op | None \<Rightarrow> ''???'');
           line = \<lparr>dl_off = off, dl_name = name, dl_operands = [], dl_upvals = [], dl_aborted = False\<rparr>
       in case map_option op_operands (op_of_byte b) of
         Some Capture_Table \<Rightarrow>
           rbind (code_byte c (off + 1)) (\<lambda>ci. Inr (disasm_closure chunks c (off + 2) line ci))
       | Some One_Byte \<Rightarrow> rbind (code_byte c (off + 1)) (\<lambda>a. Inr (line\<lparr>dl_operands := [unat a]\<rparr>, off + 2))
       | Some Two_Byte_Word \<Rightarrow>
           rbind (code_byte c (off + 1)) (\<lambda>lo. rbind (code_byte c (off + 2)) (\<lambda>hi.
             Inr (line\<lparr>dl_operands := [unat (u16_of_bytes lo hi)]\<rparr>, off + 3)))
       | Some Two_Bytes \<Rightarrow>
           rbind (code_byte c (off + 1)) (\<lambda>a. rbind (code_byte c (off + 2)) (\<lambda>b'.
             Inr (line\<lparr>dl_operands := [unat a, unat b']\<rparr>, off + 3)))
       | _ \<Rightarrow> Inr (line, off + 1))"

lemma disasm_upvals_progress: "disasm_upvals c off n = Some (us, off') \<Longrightarrow> off \<le> off'"
proof (induction n arbitrary: off us)
  case (Suc n)
  then obtain us' where "disasm_upvals c (off + 2) n = Some (us', off')" by (auto split: if_splits)
  with Suc.IH show ?case by force
qed simp

lemma disasm_closure_progress:
  "off \<le> code_len c \<Longrightarrow> off \<le> snd (disasm_closure chunks c off line ci)"
  by (auto simp: disasm_closure_def Let_def split: option.splits dest: disasm_upvals_progress)

lemma disasm_one_progress:
  assumes "disasm_one chunks c off = Inr (line, off')"
  shows "off < off'"
proof -
  obtain b where b: "code_byte c off = Inr b" using assms by (auto simp: disasm_one_def rbind_Inr_iff)
  have closure: "off < o'" if "code_byte c (off + 1) = Inr ci" "disasm_closure chunks c (off + 2) l ci = (line, o')"
    for ci l o'
    using that disasm_closure_progress [of "off + 2" c chunks l ci] by (auto simp: code_byte_def split: if_splits)
  show ?thesis
  proof (cases "op_of_byte b")
    case None
    with b assms show ?thesis by (simp add: disasm_one_def Let_def)
  next
    case (Some op)
    then show ?thesis
    proof (cases "op_operands op")
      case Capture_Table
      with b assms Some closure show ?thesis by (auto simp: disasm_one_def Let_def rbind_Inr_iff)
    qed (use b assms Some in \<open>auto simp: disasm_one_def Let_def rbind_Inr_iff\<close>)
  qed
qed

function disasm_from :: "(val \<Rightarrow> chunk option) \<Rightarrow> chunk \<Rightarrow> nat \<Rightarrow> listing_line list res" where
  "disasm_from chunks c off =
     (if off < code_len c
      then rbind (disasm_one chunks c off) (\<lambda>(line, off').
             rbind (disasm_from chunks c off') (\<lambda>ls. Inr (line # ls)))
      else Inr [])"
  by pat_completeness auto
termination
  by (relation "measure (\<lambda>(chunks, c, off). code_len c - off)") (auto dest!: disasm_one_progress)

declare disasm_from.simps [simp del]

definition chunk_disasm :: "(val \<Rightarrow> chunk option) \<Rightarrow> chunk \<Rightarrow> listing_line list res" where
  "chunk_disasm chunks c = disasm_from chunks c 0"

section \<open>Emitting keeps the tables consistent\<close>

definition chunk_ok :: "chunk \<Rightarrow> bool" where
  "chunk_ok c \<longleftrightarrow> length (ck_lines c) = code_len c \<and> code_len c \<le> ck_code_cap c \<and>
     const_len c \<le> ck_const_cap c \<and> const_len c \<le> 256 \<and>
     length (ck_local_debug c) \<le> ck_local_debug_cap c"

lemma grow_from_enough: "0 < cap \<Longrightarrow> need \<le> grow_from cap need"
  by (induction cap need rule: grow_from.induct) (subst grow_from.simps, auto)

lemma ensure_code_room:
  "code_len c + need \<le> ck_code_cap (ensure_code c need)" "ck_code (ensure_code c need) = ck_code c"
  "ck_lines (ensure_code c need) = ck_lines c" "ck_constants (ensure_code c need) = ck_constants c"
  "ck_const_cap (ensure_code c need) = ck_const_cap c" "ck_local_debug (ensure_code c need) = ck_local_debug c"
  "ck_local_debug_cap (ensure_code c need) = ck_local_debug_cap c"
  using grow_from_enough by (auto simp: ensure_code_def)

lemma chunk_emit_fields [simp]:
  "fst (chunk_emit c b line) = code_len c" "ck_code (snd (chunk_emit c b line)) = ck_code c @ [b]"
  "ck_lines (snd (chunk_emit c b line)) = ck_lines c @ [line]"
  "ck_constants (snd (chunk_emit c b line)) = ck_constants c"
  "ck_local_debug (snd (chunk_emit c b line)) = ck_local_debug c"
  by (simp_all add: chunk_emit_def Let_def ensure_code_room)

lemma chunk_emit_ok: "chunk_ok c \<Longrightarrow> chunk_ok (snd (chunk_emit c b line))"
  using ensure_code_room [of c 1] by (auto simp: chunk_ok_def chunk_emit_def Let_def)

lemma low_byte: "ucast (w AND 0xFF) = (ucast w :: u8)" for w :: u16
  by (rule bit_word_eqI) (auto simp: bit_simps bit_numeral_rec numeral_eq_Suc less_Suc_eq)

lemma chunk_emit16_fields [simp]:
  "ck_code (chunk_emit16 c w line) = ck_code c @ u16_bytes w"
  "ck_lines (chunk_emit16 c w line) = ck_lines c @ [line, line]"
  "ck_constants (chunk_emit16 c w line) = ck_constants c"
  by (simp_all add: chunk_emit16_def u16_bytes_def low_byte)

lemma chunk_emit16_ok: "chunk_ok c \<Longrightarrow> chunk_ok (chunk_emit16 c w line)"
  by (simp add: chunk_emit16_def chunk_emit_ok)

lemma chunk_patch16_spec:
  assumes "chunk_ok c" "at + 1 < code_len c"
  obtains c' where "chunk_patch16 c at w = Inr c'" "chunk_ok c'" "ck_constants c' = ck_constants c"
    "ck_lines c' = ck_lines c"
    "ck_code c' = take at (ck_code c) @ u16_bytes w @ drop (at + 2) (ck_code c)"
proof -
  have "(ck_code c)[at := ucast w, at + 1 := ucast (drop_bit 8 w)] =
      take at (ck_code c) @ u16_bytes w @ drop (at + 2) (ck_code c)"
    using assms(2) by (simp add: u16_bytes_def upd_conv_take_nth_drop Cons_nth_drop_Suc drop_Suc_Cons
        take_update_swap nth_append flip: append_assoc)
  moreover have "at + 1 < ck_code_cap c" using assms by (simp add: chunk_ok_def)
  ultimately have "chunk_patch16 c at w =
      Inr (c\<lparr>ck_code := take at (ck_code c) @ u16_bytes w @ drop (at + 2) (ck_code c)\<rparr>)"
    by (simp add: chunk_patch16_def low_byte)
  then show ?thesis by (rule that) (use assms in \<open>auto simp: chunk_ok_def\<close>)
qed

lemma chunk_local_debug_ok:
  "chunk_ok c \<Longrightarrow> chunk_ok (snd (chunk_local_debug_add c name slot pc))"
  "chunk_ok c \<Longrightarrow> chunk_ok (chunk_local_debug_end c idx pc)"
  "chunk_ok c \<Longrightarrow> chunk_ok (chunk_local_debug_finalize c)"
  by (auto simp: chunk_ok_def chunk_local_debug_add_def chunk_local_debug_end_def chunk_local_debug_finalize_def Let_def)

section \<open>The constant pool\<close>

lemma const_search_spec:
  "const_search r v i es = Inr found \<Longrightarrow> (case found of
      None \<Rightarrow> \<forall>e \<in> set es. const_same r e v = Inr False
    | Some j \<Rightarrow> i \<le> j \<and> j < i + length es \<and> const_same r (es ! (j - i)) v = Inr True \<and>
        (\<forall>k < j - i. const_same r (es ! k) v = Inr False))"
proof (induction es arbitrary: i)
  case (Cons e es)
  then obtain same where same: "const_same r e v = Inr same" by (auto simp: rbind_Inr_iff)
  show ?case
  proof (cases same)
    case True
    with Cons.prems same show ?thesis by auto
  next
    case False
    with Cons.prems same have rest: "const_search r v (i + 1) es = Inr found" by simp
    show ?thesis
    proof (cases found)
      case None
      with Cons.IH [OF rest] same False show ?thesis by simp
    next
      case (Some j)
      have "j - i = Suc (j - (i + 1))" using Cons.IH [OF rest] Some by auto
      with Cons.IH [OF rest] Some same False show ?thesis by (auto simp: less_Suc_eq_0_disj)
    qed
  qed
qed simp

lemma const_search_found:
  assumes "j < length es" "const_same r (es ! j) v = Inr True" "\<And>k. k < j \<Longrightarrow> const_same r (es ! k) v = Inr False"
  shows "const_search r v i (es @ rest) = Inr (Some (i + j))"
  using assms
proof (induction es arbitrary: i j)
  case (Cons e es)
  show ?case
  proof (cases j)
    case 0
    with Cons.prems show ?thesis by simp
  next
    case (Suc k)
    have "const_search r v (i + 1) (es @ rest) = Inr (Some (i + 1 + k))"
      by (rule Cons.IH) (use Cons.prems Suc in \<open>force+\<close>)
    with Cons.prems(3) [of 0] Suc show ?thesis by simp
  qed
qed simp

lemma const_same_refl [simp]: "const_same r v v = Inr True"
  by (simp add: const_same_def)

lemma chunk_add_const_cases:
  assumes "chunk_add_const r c v = Inr (i, c')"
  obtains (found) "c' = c" "i < const_len c" "const_same r (ck_constants c ! i) v = Inr True"
      "\<And>k. k < i \<Longrightarrow> const_same r (ck_constants c ! k) v = Inr False"
    | (added) "i = const_len c" "const_len c < 256" "ck_constants c' = ck_constants c @ [v]"
      "\<And>e. e \<in> set (ck_constants c) \<Longrightarrow> const_same r e v = Inr False"
      "ck_code c' = ck_code c" "ck_lines c' = ck_lines c" "ck_local_debug c' = ck_local_debug c"
proof -
  obtain f where f: "const_search r v 0 (ck_constants c) = Inr f"
    using assms by (auto simp: chunk_add_const_def rbind_Inr_iff)
  show ?thesis
  proof (cases f)
    case None
    with f assms have n: "const_len c < 256" "i = const_len c" "ck_constants c' = ck_constants c @ [v]"
      "ck_code c' = ck_code c" "ck_lines c' = ck_lines c" "ck_local_debug c' = ck_local_debug c"
      by (auto simp: chunk_add_const_def Let_def split: if_splits)
    with None const_search_spec [OF f] added show ?thesis by simp
  next
    case (Some j)
    with const_search_spec [OF f] f assms found show ?thesis by (simp add: chunk_add_const_def)
  qed
qed

lemma chunk_add_const_ok:
  assumes "chunk_ok c" "chunk_add_const r c v = Inr (i, c')"
  shows "chunk_ok c'"
proof -
  obtain f where f: "const_search r v 0 (ck_constants c) = Inr f"
    using assms(2) by (auto simp: chunk_add_const_def rbind_Inr_iff)
  show ?thesis
  proof (cases f)
    case None
    with f assms show ?thesis
      by (simp add: chunk_add_const_def Let_def chunk_ok_def split: if_splits) auto
  next
    case (Some j)
    with f assms show ?thesis by (simp add: chunk_add_const_def)
  qed
qed

text \<open>
  C38: Every operation that builds a chunk keeps its tables consistent: a line number for each code byte,
  the used parts within the allocated ones, at most 256 constants (so that an index fits the one-byte
  operands). Emitting appends, and the placeholder of a jump is patched in place.
\<close>

theorem chunk_tables_invariant:
  assumes "chunk_ok c"
  shows "chunk_ok chunk_new \<and> chunk_ok (snd (chunk_emit c b line)) \<and> chunk_ok (chunk_emit16 c w line) \<and>
    (at + 1 < code_len c \<longrightarrow> (\<exists>c'. chunk_patch16 c at w = Inr c' \<and> chunk_ok c' \<and> ck_lines c' = ck_lines c \<and>
       ck_code c' = take at (ck_code c) @ u16_bytes w @ drop (at + 2) (ck_code c))) \<and>
    (\<forall>i c'. chunk_add_const r c v = Inr (i, c') \<longrightarrow> chunk_ok c') \<and>
    chunk_ok (snd (chunk_local_debug_add c name slot pc)) \<and> chunk_ok (chunk_local_debug_end c idx pc) \<and>
    chunk_ok (chunk_local_debug_finalize c)"
proof -
  have "chunk_ok chunk_new" by (simp add: chunk_ok_def chunk_new_def)
  moreover have "at + 1 < code_len c \<longrightarrow> (\<exists>c'. chunk_patch16 c at w = Inr c' \<and> chunk_ok c' \<and> ck_lines c' = ck_lines c \<and>
       ck_code c' = take at (ck_code c) @ u16_bytes w @ drop (at + 2) (ck_code c))"
    using chunk_patch16_spec [OF assms] by blast
  ultimately show ?thesis
    using chunk_emit_ok [OF assms] chunk_emit16_ok [OF assms] chunk_add_const_ok [OF assms] chunk_local_debug_ok [OF assms]
    by simp
qed

theorem chunk_tables_invariant_witness:
  "chunk_ok (snd (chunk_emit chunk_new 5 1)) \<and>
   (\<exists>c'. chunk_patch16 (chunk_emit16 chunk_new 0xFFFF 1) 0 0x0203 = Inr c' \<and> ck_code c' = [3, 2])"
proof -
  have ok: "chunk_ok chunk_new" by (simp add: chunk_ok_def chunk_new_def)
  have ok16: "chunk_ok (chunk_emit16 chunk_new 0xFFFF 1)"
    using chunk_tables_invariant [OF ok, where w = "0xFFFF" and line = 1] by blast
  have len: "code_len (chunk_emit16 chunk_new 0xFFFF 1) = 2" by (simp add: chunk_new_def)
  obtain c' where "chunk_patch16 (chunk_emit16 chunk_new 0xFFFF 1) 0 0x0203 = Inr c'"
    "ck_code c' = take 0 (ck_code (chunk_emit16 chunk_new 0xFFFF 1)) @ u16_bytes 0x0203 @
       drop (0 + 2) (ck_code (chunk_emit16 chunk_new 0xFFFF 1))"
    using chunk_tables_invariant [OF ok16, of 0 0 "0x0203" 0 undefined 0 0 0 0 0] len by auto
  moreover have "u16_bytes 0x0203 = [3, 2]" by code_simp
  ultimately show ?thesis
    using chunk_tables_invariant [OF ok, where b = 5 and line = 1] len by simp
qed


definition two_flonums :: rt where
  "two_flonums = \<lparr>heap = (\<lambda>_. None)(16 \<mapsto> OFlonum 7, 32 \<mapsto> OFlonum 7), stack_left = 9,
     sx_equal = (\<lambda>_ _. False), mpz_hex = (\<lambda>_. [])\<rparr>"


section \<open>Disassembling well-formed code\<close>

datatype instr =
    Plain opcode
  | With_Byte opcode u8
  | With_Word opcode u16
  | With_Bytes opcode u8 u8
  | Make_Closure u8 "(bool \<times> u8) list"

fun encode_instr :: "instr \<Rightarrow> u8 list" where
  "encode_instr (Plain op) = [op_byte op]"
| "encode_instr (With_Byte op a) = [op_byte op, a]"
| "encode_instr (With_Word op w) = op_byte op # u16_bytes w"
| "encode_instr (With_Bytes op a b) = [op_byte op, a, b]"
| "encode_instr (Make_Closure ci us) =
     op_byte OP_CLOSURE # ci # concat (map (\<lambda>(is_local, idx). [if is_local then 1 else 0, idx]) us)"

fun instr_ok :: "(val \<Rightarrow> chunk option) \<Rightarrow> val list \<Rightarrow> instr \<Rightarrow> bool" where
  "instr_ok chunks pool (Plain op) \<longleftrightarrow> op_operands op = No_Operand"
| "instr_ok chunks pool (With_Byte op a) \<longleftrightarrow> op_operands op = One_Byte"
| "instr_ok chunks pool (With_Word op w) \<longleftrightarrow> op_operands op = Two_Byte_Word"
| "instr_ok chunks pool (With_Bytes op a b) \<longleftrightarrow> op_operands op = Two_Bytes"
| "instr_ok chunks pool (Make_Closure ci us) \<longleftrightarrow>
     unat ci < length pool \<and> (case chunks (pool ! unat ci) of Some ch \<Rightarrow> ck_upval_count ch = length us | None \<Rightarrow> False)"

fun list_instr :: "nat \<Rightarrow> instr \<Rightarrow> listing_line" where
  "list_instr off (Plain op) = \<lparr>dl_off = off, dl_name = opcode_name op, dl_operands = [], dl_upvals = [], dl_aborted = False\<rparr>"
| "list_instr off (With_Byte op a) =
     \<lparr>dl_off = off, dl_name = opcode_name op, dl_operands = [unat a], dl_upvals = [], dl_aborted = False\<rparr>"
| "list_instr off (With_Word op w) =
     \<lparr>dl_off = off, dl_name = opcode_name op, dl_operands = [unat w], dl_upvals = [], dl_aborted = False\<rparr>"
| "list_instr off (With_Bytes op a b) =
     \<lparr>dl_off = off, dl_name = opcode_name op, dl_operands = [unat a, unat b], dl_upvals = [], dl_aborted = False\<rparr>"
| "list_instr off (Make_Closure ci us) =
     \<lparr>dl_off = off, dl_name = ''CLOSURE'', dl_operands = [unat ci], dl_upvals = map (map_prod id unat) us, dl_aborted = False\<rparr>"

fun list_instrs :: "nat \<Rightarrow> instr list \<Rightarrow> listing_line list" where
  "list_instrs off [] = []"
| "list_instrs off (i # ins) = list_instr off i # list_instrs (off + length (encode_instr i)) ins"

lemma disasm_upvals_encoded:
  assumes "ck_code c = pre @ concat (map (\<lambda>(is_local, idx). [if is_local then 1 else 0, idx]) us) @ post"
  shows "disasm_upvals c (length pre) (length us) =
    Some (map (map_prod id unat) us, length pre + length (concat (map (\<lambda>(is_local, idx). [if is_local then 1 else 0, idx]) us)))"
  using assms
proof (induction us arbitrary: pre)
  case (Cons u us)
  obtain is_local idx where u: "u = (is_local, idx)" by (cases u)
  define b :: u8 where "b = (if is_local then 1 else 0)"
  have "ck_code c = (pre @ [b, idx]) @ concat (map (\<lambda>(is_local, idx). [if is_local then 1 else 0, idx]) us) @ post"
    using Cons.prems by (simp add: u b_def)
  from Cons.IH [OF this] Cons.prems show ?case by (auto simp: u b_def nth_append)
qed simp

lemma disasm_one_encoded:
  assumes "ck_code c = pre @ encode_instr i @ post" "instr_ok chunks (ck_constants c) i"
  shows "disasm_one chunks c (length pre) = Inr (list_instr (length pre) i, length pre + length (encode_instr i))"
proof (cases i)
  case (Make_Closure ci us)
  let ?e = "concat (map (\<lambda>(is_local, idx). [if is_local then 1 else 0, idx]) us)"
  have code: "ck_code c = (pre @ [op_byte OP_CLOSURE, ci]) @ ?e @ post" using assms(1) by (simp add: Make_Closure)
  obtain ch where ch: "chunks (ck_constants c ! unat ci) = Some ch" "ck_upval_count ch = length us" "unat ci < const_len c"
    using assms(2) by (auto simp: Make_Closure split: option.splits)
  have up: "disasm_upvals c (Suc (Suc (length pre))) (length us) =
      Some (map (map_prod id unat) us, Suc (Suc (length pre)) + length ?e)"
    using disasm_upvals_encoded [OF code] by simp
  have b0: "code_byte c (length pre) = Inr (op_byte OP_CLOSURE)" "code_byte c (Suc (length pre)) = Inr ci"
    using code by (auto simp: code_byte_def nth_append)
  have op: "op_operands OP_CLOSURE = Capture_Table" by (simp add: op_operands_def)
  show ?thesis
    using b0 ch up op_of_byte_op_byte [of OP_CLOSURE]
    by (simp add: disasm_one_def disasm_closure_def Make_Closure op del: op_byte.simps)
qed (use assms in \<open>auto simp: disasm_one_def code_byte_def nth_append u16_bytes_def\<close>)

lemma disasm_from_encoded:
  assumes "ck_code c = pre @ concat (map encode_instr ins)" "\<forall>i \<in> set ins. instr_ok chunks (ck_constants c) i"
  shows "disasm_from chunks c (length pre) = Inr (list_instrs (length pre) ins)"
  using assms
proof (induction ins arbitrary: pre)
  case Nil
  then show ?case by (subst disasm_from.simps) simp
next
  case (Cons i ins)
  have code: "ck_code c = (pre @ encode_instr i) @ concat (map encode_instr ins)" using Cons.prems by simp
  have one: "disasm_one chunks c (length pre) = Inr (list_instr (length pre) i, length pre + length (encode_instr i))"
    by (rule disasm_one_encoded) (use Cons.prems in auto)
  have "0 < length (encode_instr i)" by (cases i) auto
  then have "length pre < code_len c" using code by simp
  with one Cons.IH [OF code] Cons.prems(2) show ?case by (subst disasm_from.simps) simp
qed



lemma disasm_one_off:
  assumes "disasm_one chunks c off = Inr (l, off')"
  shows "dl_off l = off"
proof -
  have closure: "disasm_closure chunks c o' line ci = (l, off') \<Longrightarrow> dl_off l = dl_off line" for o' line ci
    by (auto simp: disasm_closure_def Let_def split: option.splits if_splits)
  obtain b where b: "code_byte c off = Inr b" using assms by (auto simp: disasm_one_def rbind_Inr_iff)
  show ?thesis
  proof (cases "op_of_byte b")
    case None
    with b assms show ?thesis by (auto simp: disasm_one_def Let_def)
  next
    case (Some op)
    then show ?thesis
      by (cases "op_operands op") (use b assms Some in \<open>auto simp: disasm_one_def Let_def rbind_Inr_iff dest: closure\<close>)
  qed
qed

lemma disasm_one_fails: "disasm_one chunks c off = Inl e \<Longrightarrow> e = Undefined"
  by (auto simp: disasm_one_def code_byte_def rbind_Inl_iff Let_def split: option.splits operands.splits if_splits)

lemma disasm_from_lines:
  "case disasm_from chunks c off of
     Inl e \<Rightarrow> e = Undefined
   | Inr ls \<Rightarrow> sorted_wrt (<) (map dl_off ls) \<and> (\<forall>l \<in> set ls. off \<le> dl_off l \<and> dl_off l < code_len c)"
proof (induction chunks c off rule: disasm_from.induct)
  case (1 chunks c off)
  show ?case
  proof (cases "off < code_len c")
    case False
    then show ?thesis by (subst disasm_from.simps) simp
  next
    case inside: True
    show ?thesis
    proof (cases "disasm_one chunks c off")
      case (Inl e)
      with disasm_one_fails inside show ?thesis by (subst disasm_from.simps) simp
    next
      case (Inr p)
      obtain l off' where p: "p = (l, off')" by (cases p)
      have l: "dl_off l = off" "off < off'"
        using Inr p disasm_one_off disasm_one_progress by blast+
      show ?thesis
      proof (cases "disasm_from chunks c off'")
        case (Inl e)
        with 1 [OF inside Inr p [symmetric]] Inr p inside show ?thesis by (subst disasm_from.simps) simp
      next
        case (Inr ls)
        with 1 [OF inside \<open>disasm_one chunks c off = Inr p\<close> p [symmetric]] \<open>disasm_one chunks c off = Inr p\<close> p inside l
        show ?thesis by (subst disasm_from.simps) force
      qed
    qed
  qed
qed

text \<open>
  The disassembler ends on every chunk, also on corrupt code: every line starts strictly after the
  one before it, inside the code. The only failure is the read of a missing operand byte at the end.
\<close>

theorem disasm_terminates:
  "case chunk_disasm chunks c of
     Inl e \<Rightarrow> e = Undefined
   | Inr ls \<Rightarrow> sorted_wrt (<) (map dl_off ls) \<and> list_all (\<lambda>l. dl_off l < code_len c) ls"
  using disasm_from_lines [where off = 0 and chunks = chunks and c = c]
  by (cases "disasm_from chunks c 0") (auto simp: chunk_disasm_def list_all_iff)

end
