(* ===== verification/Vm_State.thy ===== *)
theory Vm_State
  imports Chunk
begin

text \<open>
  The state of the virtual machine (\<open>src/src/vm.h\<close>, \<open>src/src/vm.c\<close>): the value stack, the call frames, the
  upvalues that closures share with live stack slots, the saved states of exception handlers, and the
  operations on them that the instructions are built from. The value stack is the list of the slots below
  the stack pointer, bottom first, so that \<open>sp\<close> is its length and a frame's \<open>slots\<close> is an index; an access
  above the stack pointer is \<open>Undefined\<close>.
\<close>

section \<open>State\<close>

record callframe =
  cf_closure :: val
  cf_ip :: nat
  cf_slots :: nat
  cf_slot_count :: nat
  cf_has_callee_slot :: bool

text \<open>An upvalue is open at a stack slot, or closed with its own copy of the value.\<close>

datatype upvalue = Open nat | Closed val

record vm_handler =
  h_frame_count :: nat
  h_sp :: nat
  h_catch_offset :: nat
  h_frame_idx :: nat

text \<open>
  The open upvalues are listed from the highest slot down. \<open>v_globals\<close> gives the bindings of each root
  environment; that the inline caches do not change them is shown in \<open>Global_Cache\<close>. \<open>v_teval\<close> is the
  cache of \<open>OP_TREE_EVAL_CACHED\<close>, by chunk and constant; 0 is an empty entry. \<open>v_out\<close> is what
  \<open>OP_NEWLINE\<close> wrote.
\<close>

record vm =
  v_stack :: "val list"
  v_frames :: "callframe list"
  v_open :: "nat list"
  v_ups :: "nat \<Rightarrow> upvalue"
  v_nups :: nat
  v_handlers :: "vm_handler list"
  v_heap :: "val \<Rightarrow> obj option"
  v_allocs :: nat
  v_globals :: "val \<Rightarrow> val \<Rightarrow> val option"
  v_teval :: "val \<Rightarrow> nat \<Rightarrow> val"
  v_overflowed :: bool
  v_out :: string

text \<open>
  What the machine calls: the chunks of compiled code, the addresses the collector returns for new
  objects, the limits reserved by \<open>vm_init\<close>, \<open>apply_arr\<close> for every callable that is not entered directly
  (with its argument count, which can be negative), the C function of a primitive object and what it
  computes, the tree-walking \<open>eval\<close>, the numeric tower, and the condition object made for a raised error.
\<close>

record vm_ext =
  x_chunks :: "val \<Rightarrow> chunk option"
  x_addr :: "nat \<Rightarrow> val"
  x_stack_max :: nat
  x_frames_max :: nat
  x_apply :: "val \<Rightarrow> int \<Rightarrow> val list \<Rightarrow> vm \<Rightarrow> val res \<times> vm"
  x_prim_fn :: "val \<Rightarrow> string option"
  x_prim :: "string \<Rightarrow> val list \<Rightarrow> vm \<Rightarrow> val res \<times> vm"
  x_eval :: "val \<Rightarrow> vm \<Rightarrow> val res \<times> vm"
  x_num :: "string \<Rightarrow> val list \<Rightarrow> vm \<Rightarrow> val res \<times> vm"
  x_condition :: "scm_error \<Rightarrow> vm \<Rightarrow> val \<times> vm"
  x_rt :: rt
  x_global_env :: val
  x_symbol :: "string \<Rightarrow> val"

text \<open>The outcome of an instruction.\<close>

datatype status = Running | Returned val | Raised scm_error

type_synonym step = "vm \<Rightarrow> status \<times> vm"

definition undefined_step :: step where
  "undefined_step s = (Raised Undefined, s)"

text \<open>The runtime as \<open>scm_eqv\<close> and \<open>scm_equal\<close> see it from the machine.\<close>

definition vm_rt :: "vm_ext \<Rightarrow> vm \<Rightarrow> rt" where
  "vm_rt x s = (x_rt x)\<lparr>heap := v_heap s\<rparr>"

section \<open>The value stack\<close>

definition stack_overflow :: scm_error where
  "stack_overflow = Raise_Code ''stack-overflow'' ''value stack overflow''"

definition frames_overflow :: scm_error where
  "frames_overflow = Raise_Code ''stack-overflow'' ''call stack overflow''"

definition PUSH :: "vm_ext \<Rightarrow> val \<Rightarrow> step" where
  "PUSH x v s =
     (if length (v_stack s) \<ge> x_stack_max x then (Raised stack_overflow, s\<lparr>v_overflowed := True\<rparr>)
      else (Running, s\<lparr>v_stack := v_stack s @ [v]\<rparr>))"

text \<open>Take the top \<open>n\<close> values, in stack order, and continue; \<open>n\<close> calls of \<open>POP\<close>.\<close>

definition POPN :: "nat \<Rightarrow> (val list \<Rightarrow> step) \<Rightarrow> step" where
  "POPN n k s =
     (let len = length (v_stack s)
      in if n \<le> len then k (drop (len - n) (v_stack s)) (s\<lparr>v_stack := take (len - n) (v_stack s)\<rparr>)
         else undefined_step s)"

definition POP :: "(val \<Rightarrow> step) \<Rightarrow> step" where
  "POP k = POPN 1 (\<lambda>vs. k (hd vs))"

text \<open>\<open>b = POP(), a = POP()\<close>, then the values are used as \<open>a\<close> and \<open>b\<close>.\<close>

definition POP2 :: "(val \<Rightarrow> val \<Rightarrow> step) \<Rightarrow> step" where
  "POP2 k = POPN 2 (\<lambda>vs. k (vs ! 0) (vs ! 1))"

definition PEEK :: "nat \<Rightarrow> (val \<Rightarrow> step) \<Rightarrow> step" where
  "PEEK n k s =
     (if n < length (v_stack s) then k (v_stack s ! (length (v_stack s) - 1 - n)) s else undefined_step s)"

definition slot_read :: "nat \<Rightarrow> (val \<Rightarrow> step) \<Rightarrow> step" where
  "slot_read i k s = (if i < length (v_stack s) then k (v_stack s ! i) s else undefined_step s)"

definition slot_write :: "nat \<Rightarrow> val \<Rightarrow> vm \<Rightarrow> status \<times> vm" where
  "slot_write i v s =
     (if i < length (v_stack s) then (Running, s\<lparr>v_stack := (v_stack s)[i := v]\<rparr>) else undefined_step s)"

section \<open>Heap\<close>

definition vm_alloc :: "vm_ext \<Rightarrow> obj \<Rightarrow> vm \<Rightarrow> val \<times> vm" where
  "vm_alloc x ob s =
     (let a = x_addr x (v_allocs s)
      in (a, s\<lparr>v_heap := (v_heap s)(a \<mapsto> ob), v_allocs := v_allocs s + 1\<rparr>))"

definition vm_obj :: "vm \<Rightarrow> val \<Rightarrow> obj option" where
  "vm_obj s v = (if vis_ptr v then v_heap s v else None)"

text \<open>Consing the rest arguments into a list, last first.\<close>

fun cons_list :: "vm_ext \<Rightarrow> val list \<Rightarrow> vm \<Rightarrow> val \<times> vm" where
  "cons_list x [] s = (V_NIL, s)"
| "cons_list x (a # as) s = (case cons_list x as s of (d, s') \<Rightarrow> vm_alloc x (OPair a d) s')"

text \<open>The walk along a list by its pairs; it does not end on a circular list (\<open>None\<close>).\<close>

partial_function (option) list_items :: "(val \<Rightarrow> obj option) \<Rightarrow> val \<Rightarrow> val list option" where
  "list_items h p =
     (case (if vis_ptr p then h p else None) of
        Some (OPair a d) \<Rightarrow> Option.bind (list_items h d) (\<lambda>as. Some (a # as))
      | _ \<Rightarrow> Some [])"

section \<open>Upvalues\<close>

text \<open>The value seen through an upvalue: \<open>*location\<close>.\<close>

definition up_value :: "vm \<Rightarrow> nat \<Rightarrow> val option" where
  "up_value s u = (case v_ups s u of
     Open i \<Rightarrow> if i < length (v_stack s) then Some (v_stack s ! i) else None
   | Closed v \<Rightarrow> Some v)"

definition up_store :: "nat \<Rightarrow> val \<Rightarrow> step" where
  "up_store u v s = (case v_ups s u of
     Open i \<Rightarrow> slot_write i v s
   | Closed _ \<Rightarrow> (Running, s\<lparr>v_ups := (v_ups s)(u := Closed v)\<rparr>))"

definition up_loc :: "vm \<Rightarrow> nat \<Rightarrow> nat" where
  "up_loc s u = (case v_ups s u of Open i \<Rightarrow> i | Closed _ \<Rightarrow> 0)"

text \<open>The part of the open list strictly above the slot, and the rest of the list.\<close>

definition open_upvalue :: "nat \<Rightarrow> vm \<Rightarrow> nat \<times> vm" where
  "open_upvalue slot s =
     (let above = takeWhile (\<lambda>u. up_loc s u > slot) (v_open s);
          below = dropWhile (\<lambda>u. up_loc s u > slot) (v_open s)
      in case below of
           u # _ \<Rightarrow> if up_loc s u = slot then (u, s)
             else (v_nups s, s\<lparr>v_open := above @ v_nups s # below, v_ups := (v_ups s)(v_nups s := Open slot),
                               v_nups := v_nups s + 1\<rparr>)
         | [] \<Rightarrow> (v_nups s, s\<lparr>v_open := above @ [v_nups s], v_ups := (v_ups s)(v_nups s := Open slot),
                              v_nups := v_nups s + 1\<rparr>))"

text \<open>
  Closing copies the slot into the upvalue and unlinks it, from the highest slot down, while the location
  is at or above the given slot. A slot above the stack pointer holds what was last written there; closing one is
  outside the model and keeps the upvalue unread (\<open>V_UNDEF\<close>).
\<close>

definition close_one :: "nat \<Rightarrow> vm \<Rightarrow> vm" where
  "close_one u s = s\<lparr>v_ups := (v_ups s)(u := Closed (case up_value s u of Some v \<Rightarrow> v | None \<Rightarrow> V_UNDEF))\<rparr>"

fun close_from :: "nat \<Rightarrow> nat list \<Rightarrow> vm \<Rightarrow> vm" where
  "close_from low [] s = s\<lparr>v_open := []\<rparr>"
| "close_from low (u # us) s =
     (if up_loc s u \<ge> low then close_from low us (close_one u s) else s\<lparr>v_open := u # us\<rparr>)"

definition vm_close_upvalues :: "nat \<Rightarrow> vm \<Rightarrow> vm" where
  "vm_close_upvalues low s = close_from low (v_open s) s"

text \<open>A copy of a closure whose upvalues are fresh closed snapshots of the current values.\<close>

fun snapshot_upvals :: "nat list \<Rightarrow> vm \<Rightarrow> nat list \<times> vm" where
  "snapshot_upvals [] s = ([], s)"
| "snapshot_upvals (u # us) s =
     (let snap = v_nups s;
          s1 = s\<lparr>v_ups := (v_ups s)(snap := Closed (case up_value s u of Some v \<Rightarrow> v | None \<Rightarrow> V_UNDEF)), v_nups := snap + 1\<rparr>
      in case snapshot_upvals us s1 of (snaps, s2) \<Rightarrow> (snap # snaps, s2))"

definition vm_snapshot_closure_for_escape :: "vm_ext \<Rightarrow> val \<Rightarrow> vm \<Rightarrow> (val \<times> vm) res" where
  "vm_snapshot_closure_for_escape x bc s =
     (case vm_obj s bc of
        Some (OBcClosure ch ups) \<Rightarrow>
          (case snapshot_upvals ups s of (snaps, s1) \<Rightarrow> Inr (vm_alloc x (OBcClosure ch snaps) s1))
      | _ \<Rightarrow> Inl Undefined)"

section \<open>Frames and arguments\<close>

definition arity_error :: "string \<Rightarrow> scm_error" where
  "arity_error msg = Raise_Code ''wrong-number-of-arguments'' msg"

definition vm_check_arity :: "chunk \<Rightarrow> int \<Rightarrow> unit res" where
  "vm_check_arity ck argc =
     (let arity = ck_arity ck
      in if arity \<ge> 0 then
           if argc < arity then Inl (arity_error ''too few arguments'')
           else if argc > arity then Inl (arity_error ''too many arguments'')
           else Inr ()
         else if argc < - arity - 1 then Inl (arity_error ''too few arguments'')
         else Inr ())"

text \<open>
  Bind the \<open>argc\<close> values from slot \<open>base\<close> on: for a variadic chunk the values after the fixed ones become a
  list in the slot after them. With no value there that slot is one above the stack pointer, in the guard
  region; here the list grows by one. The result is the slot count.
\<close>

definition vm_bind_args :: "vm_ext \<Rightarrow> chunk \<Rightarrow> nat \<Rightarrow> nat \<Rightarrow> vm \<Rightarrow> nat res \<times> vm" where
  "vm_bind_args x ck base argc s =
     (case vm_check_arity ck (int argc) of
        Inl e \<Rightarrow> (Inl e, s)
      | Inr _ \<Rightarrow>
          if ck_arity ck \<ge> 0 then (Inr argc, s)
          else let fixed = nat (- ck_arity ck - 1) in
            case cons_list x (take (argc - fixed) (drop (base + fixed) (v_stack s))) s of
              (rest, s1) \<Rightarrow> (Inr (fixed + 1), s1\<lparr>v_stack := take (base + fixed) (v_stack s1) @ [rest]\<rparr>))"

definition set_top_frame :: "(callframe \<Rightarrow> callframe) \<Rightarrow> vm \<Rightarrow> vm" where
  "set_top_frame f s = s\<lparr>v_frames := butlast (v_frames s) @ [f (last (v_frames s))]\<rparr>"

text \<open>Enter a closure with a new frame, as \<open>OP_CALL\<close> and \<open>OP_CALL_GLOBAL\<close> do.\<close>

definition push_frame :: "vm_ext \<Rightarrow> val \<Rightarrow> chunk \<Rightarrow> nat \<Rightarrow> bool \<Rightarrow> step" where
  "push_frame x cl ck argc has_callee s =
     (if length (v_frames s) \<ge> x_frames_max x then (Raised frames_overflow, s\<lparr>v_overflowed := True\<rparr>)
      else
        let base = length (v_stack s) - argc;
            s1 = s\<lparr>v_frames := v_frames s @ [\<lparr>cf_closure = cl, cf_ip = 0, cf_slots = base, cf_slot_count = 0,
                     cf_has_callee_slot = has_callee\<rparr>]\<rparr>
        in case vm_bind_args x ck base argc s1 of
             (Inl e, s2) \<Rightarrow> (Raised e, s2)
           | (Inr n, s2) \<Rightarrow> (Running, set_top_frame (\<lambda>f. f\<lparr>cf_slot_count := n\<rparr>) s2))"

text \<open>
  Reuse the current frame, as the tail calls do: close the upvalues of the frame, move the arguments
  down to its slots, and start the closure there. The callee below the arguments, if any, disappears.
\<close>

definition reuse_frame :: "vm_ext \<Rightarrow> val \<Rightarrow> chunk \<Rightarrow> val list \<Rightarrow> step" where
  "reuse_frame x cl ck args s =
     (let base = cf_slots (last (v_frames s));
          s1 = vm_close_upvalues base s;
          s2 = s1\<lparr>v_stack := take base (v_stack s1) @ args\<rparr>;
          s3 = set_top_frame (\<lambda>f. f\<lparr>cf_closure := cl, cf_ip := 0\<rparr>) s2
      in case vm_bind_args x ck base (length args) s3 of
           (Inl e, s4) \<Rightarrow> (Raised e, s4)
         | (Inr n, s4) \<Rightarrow> (Running, set_top_frame (\<lambda>f. f\<lparr>cf_slot_count := n\<rparr>) s4))"

text \<open>Pop the current frame and leave the result on the caller's stack; true for the outermost frame.\<close>

definition pop_frame :: "val \<Rightarrow> vm \<Rightarrow> bool \<times> vm" where
  "pop_frame result s =
     (let f = last (v_frames s);
          s1 = vm_close_upvalues (cf_slots f) s;
          s2 = s1\<lparr>v_frames := butlast (v_frames s1)\<rparr>
      in if v_frames s2 = [] then (True, s2\<lparr>v_stack := [result]\<rparr>)
         else (False, s2\<lparr>v_stack := take (cf_slots f - (if cf_has_callee_slot f then 1 else 0)) (v_stack s2) @ [result]\<rparr>))"

text \<open>
  What follows every \<open>pop_frame\<close> in \<open>vm_run\<close>: leave with the value on top of the stack if the outermost
  frame was popped or the frames are back at the depth at which this run was entered.
\<close>

definition return_value :: "nat \<Rightarrow> val \<Rightarrow> step" where
  "return_value entry_depth result s =
     (case pop_frame result s of (outermost, s1) \<Rightarrow>
        if outermost \<or> length (v_frames s1) = entry_depth
        then (Returned (last (v_stack s1)), s1\<lparr>v_stack := butlast (v_stack s1)\<rparr>)
        else (Running, s1))"

end
