(* ===== verification/Vm.thy ===== *)
theory Vm
  imports Vm_State
begin

text \<open>
  The dispatch loop of the virtual machine (\<open>vm_run\<close> in \<open>src/src/vm.c\<close>): one equation per instruction, the
  unwinding to an exception handler, and the loop. The build modelled has no native-code compiler, the
  profiler and the debugger are off, and no other thread asks for an interrupt, so the branches for those
  are not taken.
\<close>

section \<open>Helpers of the instructions\<close>

text \<open>What an instruction reads of the current frame: its closure, chunk, captured upvalues and slots.\<close>

record vm_cur =
  u_closure :: val
  u_addr :: val
  u_chunk :: chunk
  u_upvals :: "nat list"
  u_base :: nat

definition READ_U8 :: "vm_cur \<Rightarrow> (nat \<Rightarrow> step) \<Rightarrow> step" where
  "READ_U8 u k s =
     (let ip = cf_ip (last (v_frames s))
      in case code_byte (u_chunk u) ip of
           Inl e \<Rightarrow> (Raised e, s)
         | Inr b \<Rightarrow> k (unat b) (set_top_frame (\<lambda>f. f\<lparr>cf_ip := ip + 1\<rparr>) s))"

definition READ_U16 :: "vm_cur \<Rightarrow> (nat \<Rightarrow> step) \<Rightarrow> step" where
  "READ_U16 u k = READ_U8 u (\<lambda>lo. READ_U8 u (\<lambda>hi. k (unat (u16_of_bytes (word_of_nat lo) (word_of_nat hi)))))"

definition JUMP_ABS :: "nat \<Rightarrow> step" where
  "JUMP_ABS t s = (Running, set_top_frame (\<lambda>f. f\<lparr>cf_ip := t\<rparr>) s)"

definition CONST_AT :: "vm_cur \<Rightarrow> nat \<Rightarrow> (val \<Rightarrow> step) \<Rightarrow> step" where
  "CONST_AT u ci k = (if ci < const_len (u_chunk u) then k (ck_constants (u_chunk u) ! ci) else undefined_step)"

definition NEXT :: step where
  "NEXT s = (Running, s)"

text \<open>Continue with the value of a call, or leave with its error.\<close>

definition with_result :: "val res \<times> vm \<Rightarrow> (val \<Rightarrow> step) \<Rightarrow> status \<times> vm" where
  "with_result r k = (case r of (Inl e, s) \<Rightarrow> (Raised e, s) | (Inr v, s) \<Rightarrow> k v s)"

definition call_foreign :: "vm_ext \<Rightarrow> val \<Rightarrow> int \<Rightarrow> val list \<Rightarrow> (val \<Rightarrow> step) \<Rightarrow> step" where
  "call_foreign x callee argc args k s = with_result (x_apply x callee argc args s) k"

definition target_env :: "vm_ext \<Rightarrow> vm_cur \<Rightarrow> val" where
  "target_env x u = (if ck_target_env (u_chunk u) = V_VOID then x_global_env x else ck_target_env (u_chunk u))"

definition unbound_variable :: scm_error where
  "unbound_variable = Raise_Code ''unbound-variable'' ''unbound variable''"

text \<open>\<open>load_global_cached\<close>, whose cache \<open>Global_Cache\<close> shows to be invisible.\<close>

definition load_global :: "vm_ext \<Rightarrow> vm_cur \<Rightarrow> nat \<Rightarrow> (val \<Rightarrow> step) \<Rightarrow> step" where
  "load_global x u ci k = CONST_AT u ci (\<lambda>sym s. case v_globals s (target_env x u) sym of
     None \<Rightarrow> (Raised unbound_variable, s)
   | Some v \<Rightarrow> k v s)"

definition bind_global :: "val \<Rightarrow> val \<Rightarrow> val \<Rightarrow> vm \<Rightarrow> vm" where
  "bind_global env name v s = s\<lparr>v_globals := (v_globals s)(env := (v_globals s env)(name \<mapsto> v))\<rparr>"

text \<open>\<open>env_lookup(GLOBAL_ENV, sym_intern_cstr(name))\<close>, by which some instructions find a builtin.\<close>

definition builtin :: "vm_ext \<Rightarrow> string \<Rightarrow> (val \<Rightarrow> step) \<Rightarrow> step" where
  "builtin x name k s = (case v_globals s (x_global_env x) (x_symbol x name) of
     None \<Rightarrow> (Raised unbound_variable, s)
   | Some v \<Rightarrow> if v = V_UNDEF then (Raised (Raise ''variable used before initialization''), s) else k v s)"

text \<open>
  An open-coded primitive: the binding of the symbol is looked up at every execution, and the C function
  is called directly only if it is still bound to the primitive; otherwise the binding is called.
\<close>

definition open_coded_unary1 :: "vm_ext \<Rightarrow> vm_cur \<Rightarrow> nat \<Rightarrow> val \<Rightarrow> string \<Rightarrow> (val \<Rightarrow> step) \<Rightarrow> step" where
  "open_coded_unary1 x u ci a expected k = load_global x u ci (\<lambda>current s.
     if x_prim_fn x current = Some expected then with_result (x_prim x expected [a] s) k
     else call_foreign x current 1 [a] k s)"

definition open_coded_binary2 :: "vm_ext \<Rightarrow> vm_cur \<Rightarrow> nat \<Rightarrow> val \<Rightarrow> val \<Rightarrow> string \<Rightarrow> (val \<Rightarrow> step) \<Rightarrow> step" where
  "open_coded_binary2 x u ci a b expected k = load_global x u ci (\<lambda>current s.
     if x_prim_fn x current = Some expected then with_result (x_prim x expected [a, b] s) k
     else call_foreign x current 2 [a, b] k s)"

definition unary_op :: "vm_ext \<Rightarrow> vm_cur \<Rightarrow> string \<Rightarrow> step" where
  "unary_op x u expected = READ_U8 u (\<lambda>ci. POP (\<lambda>a. open_coded_unary1 x u ci a expected (PUSH x)))"

definition binary_op :: "vm_ext \<Rightarrow> vm_cur \<Rightarrow> string \<Rightarrow> step" where
  "binary_op x u expected = READ_U8 u (\<lambda>ci. POP2 (\<lambda>a b. open_coded_binary2 x u ci a b expected (PUSH x)))"

definition as_closure :: "vm_ext \<Rightarrow> val \<Rightarrow> vm \<Rightarrow> chunk option" where
  "as_closure x v s = (case vm_obj s v of Some (OBcClosure ch _) \<Rightarrow> x_chunks x ch | _ \<Rightarrow> None)"

definition vis_bcclosure :: "val \<Rightarrow> vm \<Rightarrow> bool" where
  "vis_bcclosure v s \<longleftrightarrow> (case vm_obj s v of Some (OBcClosure _ _) \<Rightarrow> True | _ \<Rightarrow> False)"

text \<open>
  The two halves of the call instructions: enter a compiled closure, or hand the arguments to
  \<open>apply_arr\<close> and replace them, and the callee if it is on the stack, by the result.
\<close>

definition do_call :: "vm_ext \<Rightarrow> val \<Rightarrow> nat \<Rightarrow> bool \<Rightarrow> step" where
  "do_call x callee argc has_callee s =
     (if vis_bcclosure callee s then
        case as_closure x callee s of None \<Rightarrow> undefined_step s | Some ck \<Rightarrow> push_frame x callee ck argc has_callee s
      else if argc \<le> length (v_stack s) then
        call_foreign x callee (int argc) (drop (length (v_stack s) - argc) (v_stack s))
          (\<lambda>result. POPN (if has_callee then argc + 1 else argc) (\<lambda>_. PUSH x result)) s
      else undefined_step s)"

definition do_tail_call :: "vm_ext \<Rightarrow> nat \<Rightarrow> val \<Rightarrow> nat \<Rightarrow> bool \<Rightarrow> step" where
  "do_tail_call x entry_depth callee argc has_callee s =
     (if argc \<le> length (v_stack s) then
        let args = drop (length (v_stack s) - argc) (v_stack s)
        in if vis_bcclosure callee s then
             case as_closure x callee s of None \<Rightarrow> undefined_step s | Some ck \<Rightarrow> reuse_frame x callee ck args s
           else call_foreign x callee (int argc) args
             (\<lambda>result. POPN (if has_callee then argc + 1 else argc) (\<lambda>_. return_value entry_depth result)) s
      else undefined_step s)"

text \<open>
  The flattening of \<open>OP_APPLY\<close>: the procedure, and the fixed arguments followed by the elements of the last
  argument. With one operand the procedure is also the last argument and the count is one less than the
  list's length.
\<close>

definition flatten_apply :: "nat \<Rightarrow> (val \<Rightarrow> int \<Rightarrow> val list \<Rightarrow> step) \<Rightarrow> step" where
  "flatten_apply n_items k = POPN n_items (\<lambda>base s.
     if base = [] then undefined_step s
     else case list_items (v_heap s) (last base) of
            None \<Rightarrow> (Raised Diverges, s)
          | Some items \<Rightarrow> k (hd base) (int n_items - 2 + int (length items)) (butlast (tl base) @ items) s)"

definition with_values :: "val \<Rightarrow> (val list \<Rightarrow> step) \<Rightarrow> step" where
  "with_values produced k s = (case vm_obj s produced of Some (OValues vs) \<Rightarrow> k vs s | _ \<Rightarrow> k [produced] s)"

fun PUSH_all :: "vm_ext \<Rightarrow> val list \<Rightarrow> step \<Rightarrow> step" where
  "PUSH_all x [] k s = k s"
| "PUSH_all x (v # vs) k s =
     (case PUSH x v s of (Running, s') \<Rightarrow> PUSH_all x vs k s' | other \<Rightarrow> other)"

text \<open>The capture loop of \<open>OP_CLOSURE\<close>.\<close>

fun capture_upvals :: "vm_cur \<Rightarrow> nat \<Rightarrow> (nat list \<Rightarrow> step) \<Rightarrow> step" where
  "capture_upvals u 0 k = k []"
| "capture_upvals u (Suc n) k =
     READ_U8 u (\<lambda>is_local. READ_U8 u (\<lambda>idx s.
       if is_local \<noteq> 0 then
         (case open_upvalue (u_base u + idx) s of (up, s') \<Rightarrow> capture_upvals u n (\<lambda>ups. k (up # ups)) s')
       else if idx < length (u_upvals u) then capture_upvals u n (\<lambda>ups. k (u_upvals u ! idx # ups)) s
       else undefined_step s))"

definition type_test :: "vm_ext \<Rightarrow> (vm \<Rightarrow> val \<Rightarrow> bool) \<Rightarrow> step" where
  "type_test x P = POP (\<lambda>v s. PUSH x (vbool (P s v)) s)"

definition has_type :: "u32 list \<Rightarrow> vm \<Rightarrow> val \<Rightarrow> bool" where
  "has_type ts s v = (case vm_obj s v of Some ob \<Rightarrow> obj_type ob \<in> set ts | None \<Rightarrow> False)"

definition pair_update :: "vm_ext \<Rightarrow> (val \<Rightarrow> val \<Rightarrow> val \<Rightarrow> obj) \<Rightarrow> step" where
  "pair_update x f = POP2 (\<lambda>p v s. case vm_obj s p of
     Some (OPair a d) \<Rightarrow> PUSH x V_VOID (s\<lparr>v_heap := (v_heap s)(p \<mapsto> f v a d)\<rparr>)
   | _ \<Rightarrow> undefined_step s)"

definition vec_index :: "vm \<Rightarrow> val \<Rightarrow> val \<Rightarrow> (val list \<times> nat) option" where
  "vec_index s vec idx = (case vm_obj s vec of
     Some (OVector xs) \<Rightarrow> if 0 \<le> vunfix idx \<and> vunfix idx < int (length xs) then Some (xs, nat (vunfix idx)) else None
   | _ \<Rightarrow> None)"

definition VM_HANDLERS_MAX :: nat where "VM_HANDLERS_MAX = 64"

section \<open>The instructions\<close>

definition do_op_store_global :: "vm_ext \<Rightarrow> vm_cur \<Rightarrow> step" where
  "do_op_store_global x u = READ_U8 u (\<lambda>ci. POP (\<lambda>v. CONST_AT u ci (\<lambda>name s.
     if v_globals s (target_env x u) name = None then NEXT s
     else NEXT (bind_global (target_env x u) name v s))))"

definition do_op_def_global :: "vm_ext \<Rightarrow> vm_cur \<Rightarrow> step" where
  "do_op_def_global x u = READ_U8 u (\<lambda>ci. CONST_AT u ci (\<lambda>name. POP (\<lambda>v s.
     NEXT (bind_global (target_env x u) name v s))))"

definition do_op_defined_global :: "vm_ext \<Rightarrow> vm_cur \<Rightarrow> step" where
  "do_op_defined_global x u = READ_U8 u (\<lambda>ci. CONST_AT u ci (\<lambda>name s.
     PUSH x (vbool (v_globals s (target_env x u) name \<noteq> None)) s))"

definition do_op_load_up :: "vm_ext \<Rightarrow> vm_cur \<Rightarrow> step" where
  "do_op_load_up x u = READ_U8 u (\<lambda>i s.
     if i < length (u_upvals u) then case up_value s (u_upvals u ! i) of None \<Rightarrow> undefined_step s | Some v \<Rightarrow> PUSH x v s
     else undefined_step s)"

definition do_op_store_up :: "vm_cur \<Rightarrow> step" where
  "do_op_store_up u = READ_U8 u (\<lambda>i. POP (\<lambda>v.
     if i < length (u_upvals u) then up_store (u_upvals u ! i) v else undefined_step))"

definition do_op_slide :: "vm_ext \<Rightarrow> vm_cur \<Rightarrow> step" where
  "do_op_slide x u = READ_U8 u (\<lambda>n. POP (\<lambda>result. POPN n (\<lambda>_. PUSH x result)))"

definition do_op_eq :: "vm_ext \<Rightarrow> step" where
  "do_op_eq x = POP2 (\<lambda>a b s.
     if vis_fixnum a \<and> vis_fixnum b then PUSH x (vbool (a = b)) s
     else with_result (x_num x ''num_eq'' [a, b] s) (PUSH x))"

definition do_op_eqv :: "vm_ext \<Rightarrow> step" where
  "do_op_eqv x = POP2 (\<lambda>a b s. case scm_eqv (vm_rt x s) a b of
     Inl e \<Rightarrow> (Raised e, s) | Inr same \<Rightarrow> PUSH x (vbool same) s)"

definition do_op_equal :: "vm_ext \<Rightarrow> step" where
  "do_op_equal x = POP2 (\<lambda>a b s. case scm_equal (vm_rt x s) a b of
     Inl e \<Rightarrow> (Raised e, s) | Inr same \<Rightarrow> PUSH x (vbool same) s)"

definition do_op_cons :: "vm_ext \<Rightarrow> vm_cur \<Rightarrow> step" where
  "do_op_cons x u = READ_U8 u (\<lambda>ci. load_global x u ci (\<lambda>current.
     if x_prim_fn x current = Some ''prim_cons'' then
       POP2 (\<lambda>a b s. case vm_alloc x (OPair a b) s of (p, s') \<Rightarrow> NEXT (s'\<lparr>v_stack := v_stack s' @ [p]\<rparr>))
     else POP2 (\<lambda>a b. call_foreign x current 2 [a, b] (PUSH x))))"

definition do_op_stringlen :: "vm_ext \<Rightarrow> step" where
  "do_op_stringlen x = POP (\<lambda>v. builtin x ''string-length'' (\<lambda>fn. call_foreign x fn 1 [v] (PUSH x)))"

definition do_op_stringref :: "vm_ext \<Rightarrow> step" where
  "do_op_stringref x = POP2 (\<lambda>a b. builtin x ''string-ref'' (\<lambda>fn. call_foreign x fn 2 [a, b] (PUSH x)))"

definition do_op_makevec :: "vm_ext \<Rightarrow> vm_cur \<Rightarrow> step" where
  "do_op_makevec x u = READ_U8 u (\<lambda>argc s.
     if argc \<le> length (v_stack s) then
       builtin x ''make-vector'' (\<lambda>fn. call_foreign x fn (int argc) (drop (length (v_stack s) - argc) (v_stack s))
         (\<lambda>result. POPN argc (\<lambda>_. PUSH x result))) s
     else undefined_step s)"

definition do_op_vecref :: "vm_ext \<Rightarrow> step" where
  "do_op_vecref x = POP2 (\<lambda>vec idx s. case vec_index s vec idx of
     None \<Rightarrow> undefined_step s | Some (xs, i) \<Rightarrow> PUSH x (xs ! i) s)"

definition do_op_vecset :: "vm_ext \<Rightarrow> step" where
  "do_op_vecset x = POPN 3 (\<lambda>vs s. case vec_index s (vs ! 0) (vs ! 1) of
     None \<Rightarrow> undefined_step s
   | Some (xs, i) \<Rightarrow> PUSH x V_VOID (s\<lparr>v_heap := (v_heap s)(vs ! 0 \<mapsto> OVector (xs[i := vs ! 2]))\<rparr>))"

definition do_op_veclen :: "vm_ext \<Rightarrow> step" where
  "do_op_veclen x = POP (\<lambda>v s. case vm_obj s v of
     Some (OVector xs) \<Rightarrow> PUSH x (vfix (int (length xs))) s | _ \<Rightarrow> undefined_step s)"

definition do_op_jump_false :: "vm_cur \<Rightarrow> step" where
  "do_op_jump_false u = READ_U16 u (\<lambda>target. POP (\<lambda>v. if v = V_FALSE then JUMP_ABS target else NEXT))"

definition do_op_jump_true :: "vm_cur \<Rightarrow> step" where
  "do_op_jump_true u = READ_U16 u (\<lambda>target. POP (\<lambda>v. if v \<noteq> V_FALSE then JUMP_ABS target else NEXT))"

definition do_op_call :: "vm_ext \<Rightarrow> vm_cur \<Rightarrow> step" where
  "do_op_call x u = READ_U8 u (\<lambda>argc. PEEK argc (\<lambda>callee. do_call x callee argc True))"

definition do_op_tail_call :: "vm_ext \<Rightarrow> nat \<Rightarrow> vm_cur \<Rightarrow> step" where
  "do_op_tail_call x d u = READ_U8 u (\<lambda>argc. PEEK argc (\<lambda>callee. do_tail_call x d callee argc True))"

definition do_op_return :: "nat \<Rightarrow> step" where
  "do_op_return d = POP (return_value d)"

definition do_op_self_tail_call :: "vm_ext \<Rightarrow> vm_cur \<Rightarrow> step" where
  "do_op_self_tail_call x u = READ_U8 u (\<lambda>argc s.
     if argc \<le> length (v_stack s)
     then reuse_frame x (u_closure u) (u_chunk u) (drop (length (v_stack s) - argc) (v_stack s)) s
     else undefined_step s)"

definition do_op_call_global :: "vm_ext \<Rightarrow> vm_cur \<Rightarrow> step" where
  "do_op_call_global x u = READ_U8 u (\<lambda>ci. READ_U8 u (\<lambda>argc.
     load_global x u ci (\<lambda>callee. do_call x callee argc False)))"

definition do_op_tail_call_global :: "vm_ext \<Rightarrow> nat \<Rightarrow> vm_cur \<Rightarrow> step" where
  "do_op_tail_call_global x d u = READ_U8 u (\<lambda>ci. READ_U8 u (\<lambda>argc.
     load_global x u ci (\<lambda>callee. do_tail_call x d callee argc False)))"

definition do_op_tree_eval_cached :: "vm_ext \<Rightarrow> vm_cur \<Rightarrow> step" where
  "do_op_tree_eval_cached x u = READ_U8 u (\<lambda>ci. CONST_AT u ci (\<lambda>form s.
     if v_teval s (u_addr u) ci \<noteq> 0 then PUSH x (v_teval s (u_addr u) ci) s
     else with_result (x_eval x form s) (\<lambda>result s'.
       PUSH x result (s'\<lparr>v_teval := (v_teval s')(u_addr u := (v_teval s' (u_addr u))(ci := result))\<rparr>))))"

definition do_op_closure :: "vm_ext \<Rightarrow> vm_cur \<Rightarrow> step" where
  "do_op_closure x u = READ_U8 u (\<lambda>ci. CONST_AT u ci (\<lambda>ch s. case x_chunks x ch of
     None \<Rightarrow> undefined_step s
   | Some ck \<Rightarrow> capture_upvals u (ck_upval_count ck) (\<lambda>ups s'.
       case vm_alloc x (OBcClosure ch ups) s' of (cl, s'') \<Rightarrow> PUSH x cl s'') s))"

definition do_op_close_up :: "vm_cur \<Rightarrow> step" where
  "do_op_close_up u = READ_U8 u (\<lambda>slot s. NEXT (vm_close_upvalues (u_base u + slot) s))"

definition do_op_apply :: "vm_ext \<Rightarrow> vm_cur \<Rightarrow> step" where
  "do_op_apply x u = READ_U8 u (\<lambda>n_items. flatten_apply n_items (\<lambda>fn n args. call_foreign x fn n args (PUSH x)))"

definition do_op_tail_apply :: "vm_ext \<Rightarrow> nat \<Rightarrow> vm_cur \<Rightarrow> step" where
  "do_op_tail_apply x d u = READ_U8 u (\<lambda>n_items. flatten_apply n_items (\<lambda>fn n args s.
     if vis_bcclosure fn s then
       (case as_closure x fn s of
          None \<Rightarrow> undefined_step s
        | Some ck \<Rightarrow> (case vm_check_arity ck n of
            Inl e \<Rightarrow> (Raised e, s)
          | Inr _ \<Rightarrow>
              if n < 0 \<or> int (u_base u) + n > int (x_stack_max x)
              then (Raised stack_overflow, s\<lparr>v_overflowed := True\<rparr>)
              else reuse_frame x fn ck args s))
     else call_foreign x fn n args (return_value d) s))"

definition do_op_values :: "vm_ext \<Rightarrow> vm_cur \<Rightarrow> step" where
  "do_op_values x u = READ_U8 u (\<lambda>n. if n = 1 then NEXT
     else POPN n (\<lambda>vs s. case vm_alloc x (OValues vs) s of (mv, s') \<Rightarrow> PUSH x mv s'))"

definition do_op_values_ref :: "vm_ext \<Rightarrow> vm_cur \<Rightarrow> step" where
  "do_op_values_ref x u = READ_U8 u (\<lambda>a. POP (\<lambda>v s. case vm_obj s v of
     Some (OValues vs) \<Rightarrow> if a \<ge> length vs then (Raised (Raise ''too few values''), s) else PUSH x (vs ! a) s
   | _ \<Rightarrow> if a \<noteq> 0 then (Raised (Raise ''too few values''), s) else PUSH x v s))"

definition do_op_call_with_values :: "vm_ext \<Rightarrow> step" where
  "do_op_call_with_values x = POP2 (\<lambda>thunk consumer. call_foreign x thunk 0 [] (\<lambda>produced.
     with_values produced (\<lambda>vs. call_foreign x consumer (int (length vs)) vs (PUSH x))))"

definition do_op_tail_call_with_values :: "vm_ext \<Rightarrow> nat \<Rightarrow> step" where
  "do_op_tail_call_with_values x d = POP2 (\<lambda>thunk consumer. call_foreign x thunk 0 [] (\<lambda>produced.
     with_values produced (\<lambda>vs. PUSH_all x vs (do_tail_call x d consumer (length vs) False))))"

definition do_op_push_handler :: "vm_cur \<Rightarrow> step" where
  "do_op_push_handler u = READ_U16 u (\<lambda>catch s.
     if length (v_handlers s) \<ge> VM_HANDLERS_MAX then (Raised (Raise_Code ''stack-overflow'' ''handler stack overflow''), s)
     else NEXT (s\<lparr>v_handlers := v_handlers s @ [\<lparr>h_frame_count = length (v_frames s), h_sp = length (v_stack s),
                    h_catch_offset = catch, h_frame_idx = length (v_frames s) - 1\<rparr>]\<rparr>))"

definition do_op_pop_handler :: "step" where
  "do_op_pop_handler = (\<lambda>s. NEXT (s\<lparr>v_handlers := butlast (v_handlers s)\<rparr>))"

definition do_op_raise :: "step" where
  "do_op_raise = POP (\<lambda>exn s. (Raised (Raise_Val exn), s))"

definition do_op_display :: "vm_ext \<Rightarrow> step" where
  "do_op_display x = POP (\<lambda>v. builtin x ''display'' (\<lambda>fn. call_foreign x fn 1 [v] (\<lambda>_. PUSH x V_VOID)))"

definition do_op_write :: "vm_ext \<Rightarrow> step" where
  "do_op_write x = POP (\<lambda>v. builtin x ''write'' (\<lambda>fn. call_foreign x fn 1 [v] (\<lambda>_. PUSH x V_VOID)))"

definition do_op_newline :: "vm_ext \<Rightarrow> step" where
  "do_op_newline x = (\<lambda>s. PUSH x V_VOID (s\<lparr>v_out := v_out s @ ''\<newline>''\<rparr>))"

primrec exec_op :: "opcode \<Rightarrow> vm_ext \<Rightarrow> nat \<Rightarrow> vm_cur \<Rightarrow> step" where
  "exec_op OP_CONST x d u = READ_U8 u (\<lambda>ci. CONST_AT u ci (PUSH x))"
| "exec_op OP_CONST_W x d u = READ_U16 u (\<lambda>ci. CONST_AT u ci (PUSH x))"
| "exec_op OP_TRUE x d u = PUSH x V_TRUE"
| "exec_op OP_FALSE x d u = PUSH x V_FALSE"
| "exec_op OP_NIL x d u = PUSH x V_NIL"
| "exec_op OP_VOID x d u = PUSH x V_VOID"
| "exec_op OP_LOAD_LOCAL x d u = READ_U8 u (\<lambda>i. slot_read (u_base u + i) (PUSH x))"
| "exec_op OP_STORE_LOCAL x d u = READ_U8 u (\<lambda>i. POP (slot_write (u_base u + i)))"
| "exec_op OP_LOAD_GLOBAL x d u = READ_U8 u (\<lambda>ci. load_global x u ci (PUSH x))"
| "exec_op OP_STORE_GLOBAL x d u = do_op_store_global x u"
| "exec_op OP_DEF_GLOBAL x d u = do_op_def_global x u"
| "exec_op OP_DEFINED_GLOBAL x d u = do_op_defined_global x u"
| "exec_op OP_LOAD_UP x d u = do_op_load_up x u"
| "exec_op OP_STORE_UP x d u = do_op_store_up u"
| "exec_op OP_POP x d u = POP (\<lambda>_. NEXT)"
| "exec_op OP_DUP x d u = PEEK 0 (PUSH x)"
| "exec_op OP_SWAP x d u = POP2 (\<lambda>b a. PUSH_all x [a, b] NEXT)"
| "exec_op OP_SLIDE x d u = do_op_slide x u"
| "exec_op OP_ADD x d u = binary_op x u ''prim_add''"
| "exec_op OP_SUB x d u = binary_op x u ''prim_sub''"
| "exec_op OP_MUL x d u = binary_op x u ''prim_mul''"
| "exec_op OP_DIV x d u = POP2 (\<lambda>a b s. with_result (x_num x ''num_div'' [a, b] s) (PUSH x))"
| "exec_op OP_NEG x d u = POP (\<lambda>a s. with_result (x_num x ''num_neg'' [a] s) (PUSH x))"
| "exec_op OP_ABS x d u = POP (\<lambda>a s. with_result (x_num x ''num_abs'' [a] s) (PUSH x))"
| "exec_op OP_EXPT x d u = POP2 (\<lambda>a b s. with_result (x_num x ''num_expt'' [a, b] s) (PUSH x))"
| "exec_op OP_EQ x d u = do_op_eq x"
| "exec_op OP_LT x d u = binary_op x u ''prim_num_lt''"
| "exec_op OP_LE x d u = binary_op x u ''prim_num_le''"
| "exec_op OP_GT x d u = binary_op x u ''prim_num_gt''"
| "exec_op OP_GE x d u = binary_op x u ''prim_num_ge''"
| "exec_op OP_NUMEQ x d u = binary_op x u ''prim_num_eq''"
| "exec_op OP_EQV x d u = do_op_eqv x"
| "exec_op OP_EQUAL x d u = do_op_equal x"
| "exec_op OP_NOT x d u = POP (\<lambda>v. PUSH x (vbool (v = V_FALSE)))"
| "exec_op OP_CONS x d u = do_op_cons x u"
| "exec_op OP_CAR x d u = unary_op x u ''prim_car''"
| "exec_op OP_CDR x d u = unary_op x u ''prim_cdr''"
| "exec_op OP_SETCAR x d u = pair_update x (\<lambda>v a d. OPair v d)"
| "exec_op OP_SETCDR x d u = pair_update x (\<lambda>v a d. OPair a v)"
| "exec_op OP_NULLP x d u = unary_op x u ''prim_null_p''"
| "exec_op OP_PAIRP x d u = unary_op x u ''prim_pair_p''"
| "exec_op OP_STRINGLEN x d u = do_op_stringlen x"
| "exec_op OP_STRINGREF x d u = do_op_stringref x"
| "exec_op OP_CHARTOFIX x d u = POP (\<lambda>v. PUSH x (vfix (uint (vunchr v))))"
| "exec_op OP_FIXTOCHAR x d u = POP (\<lambda>v. PUSH x (vchr (word_of_int (vunfix v))))"
| "exec_op OP_NUMBERP x d u = type_test x (\<lambda>s v. vis_number (vm_rt x s) v)"
| "exec_op OP_STRINGP x d u = type_test x (has_type [3])"
| "exec_op OP_SYMBOLP x d u = type_test x (has_type [4])"
| "exec_op OP_CHARP x d u = type_test x (\<lambda>s. vis_char)"
| "exec_op OP_BOOLP x d u = type_test x (\<lambda>s v. v = V_TRUE \<or> v = V_FALSE)"
| "exec_op OP_PROCP x d u = type_test x (has_type [13, 41, 14, 15, 34, 44])"
| "exec_op OP_VECTORP x d u = type_test x (has_type [2])"
| "exec_op OP_MAKEVEC x d u = do_op_makevec x u"
| "exec_op OP_VECREF x d u = do_op_vecref x"
| "exec_op OP_VECSET x d u = do_op_vecset x"
| "exec_op OP_VECLEN x d u = do_op_veclen x"
| "exec_op OP_JUMP x d u = READ_U16 u JUMP_ABS"
| "exec_op OP_JUMP_FALSE x d u = do_op_jump_false u"
| "exec_op OP_JUMP_TRUE x d u = do_op_jump_true u"
| "exec_op OP_CALL x d u = do_op_call x u"
| "exec_op OP_TAIL_CALL x d u = do_op_tail_call x d u"
| "exec_op OP_RETURN x d u = do_op_return d"
| "exec_op OP_SELF_TAIL_CALL x d u = do_op_self_tail_call x u"
| "exec_op OP_CALL_GLOBAL x d u = do_op_call_global x u"
| "exec_op OP_TAIL_CALL_GLOBAL x d u = do_op_tail_call_global x d u"
| "exec_op OP_TREE_EVAL_CACHED x d u = do_op_tree_eval_cached x u"
| "exec_op OP_CLOSURE x d u = do_op_closure x u"
| "exec_op OP_CLOSE_UP x d u = do_op_close_up u"
| "exec_op OP_APPLY x d u = do_op_apply x u"
| "exec_op OP_TAIL_APPLY x d u = do_op_tail_apply x d u"
| "exec_op OP_VALUES x d u = do_op_values x u"
| "exec_op OP_VALUES_REF x d u = do_op_values_ref x u"
| "exec_op OP_CALL_WITH_VALUES x d u = do_op_call_with_values x"
| "exec_op OP_TAIL_CALL_WITH_VALUES x d u = do_op_tail_call_with_values x d"
| "exec_op OP_PUSH_HANDLER x d u = do_op_push_handler u"
| "exec_op OP_POP_HANDLER x d u = do_op_pop_handler"
| "exec_op OP_RAISE x d u = do_op_raise"
| "exec_op OP_DISPLAY x d u = do_op_display x"
| "exec_op OP_WRITE x d u = do_op_write x"
| "exec_op OP_NEWLINE x d u = do_op_newline x"
| "exec_op OP_NOP x d u = NEXT"

section \<open>The loop\<close>

definition current :: "vm_ext \<Rightarrow> vm \<Rightarrow> vm_cur option" where
  "current x s =
     (if v_frames s = [] then None
      else let f = last (v_frames s)
           in case vm_obj s (cf_closure f) of
                Some (OBcClosure ch ups) \<Rightarrow> map_option (\<lambda>ck.
                  \<lparr>u_closure = cf_closure f, u_addr = ch, u_chunk = ck, u_upvals = ups, u_base = cf_slots f\<rparr>) (x_chunks x ch)
              | _ \<Rightarrow> None)"

text \<open>One instruction; a byte that is no instruction jumps through an entry the table does not have.\<close>

definition vm_step :: "vm_ext \<Rightarrow> nat \<Rightarrow> step" where
  "vm_step x entry_depth s =
     (case current x s of
        None \<Rightarrow> undefined_step s
      | Some u \<Rightarrow> READ_U8 u (\<lambda>b. case op_of_byte (word_of_nat b) of
          None \<Rightarrow> undefined_step
        | Some op \<Rightarrow> exec_op op x entry_depth u) s)"

text \<open>
  A raised error goes to the innermost handler of this run: the upvalues above the saved stack pointer are
  closed, the frames and the stack cut back, the condition pushed, and the handler's frame continues at the
  catch offset. \<open>Diverges\<close> and \<open>Undefined\<close> are not raised errors.
\<close>

definition vm_unwind :: "vm_ext \<Rightarrow> scm_error \<Rightarrow> step" where
  "vm_unwind x e s =
     (let h = last (v_handlers s);
          (caught, s1) = (case e of Raise_Val v \<Rightarrow> (v, s) | _ \<Rightarrow> x_condition x e s);
          s2 = vm_close_upvalues (h_sp h) s1;
          s3 = s2\<lparr>v_handlers := butlast (v_handlers s2), v_frames := take (h_frame_count h) (v_frames s2),
                  v_stack := take (h_sp h) (v_stack s2), v_overflowed := False\<rparr>
      in case PUSH x caught s3 of
           (Running, s4) \<Rightarrow> (Running, s4\<lparr>v_frames := (v_frames s4)[h_frame_idx h := (v_frames s4 ! h_frame_idx h)\<lparr>cf_ip := h_catch_offset h\<rparr>]\<rparr>)
         | other \<Rightarrow> other)"

definition caught_by_scheme :: "scm_error \<Rightarrow> bool" where
  "caught_by_scheme e \<longleftrightarrow> e \<noteq> Diverges \<and> e \<noteq> Undefined"

definition vm_next :: "vm_ext \<Rightarrow> nat \<Rightarrow> nat \<Rightarrow> step" where
  "vm_next x entry_depth entry_handlers s =
     (case vm_step x entry_depth s of
        (Raised e, s') \<Rightarrow>
          if caught_by_scheme e \<and> length (v_handlers s') > entry_handlers then vm_unwind x e s' else (Raised e, s')
      | other \<Rightarrow> other)"

fun vm_loop :: "nat \<Rightarrow> vm_ext \<Rightarrow> nat \<Rightarrow> nat \<Rightarrow> step" where
  "vm_loop 0 x d h s = (Running, s)"
| "vm_loop (Suc n) x d h s =
     (case vm_next x d h s of (Running, s') \<Rightarrow> vm_loop n x d h s' | other \<Rightarrow> other)"

text \<open>\<open>vm_run\<close> on a closure whose arguments are on the stack, for at most \<open>n\<close> instructions.\<close>

definition vm_run :: "nat \<Rightarrow> vm_ext \<Rightarrow> val \<Rightarrow> nat \<Rightarrow> step" where
  "vm_run n x closure argc s =
     (case as_closure x closure s of
        None \<Rightarrow> undefined_step s
      | Some ck \<Rightarrow>
          (case push_frame x closure ck argc True s of
             (Running, s') \<Rightarrow> vm_loop n x (length (v_frames s)) (length (v_handlers s)) s'
           | other \<Rightarrow> other))"

definition vm_reset :: "vm \<Rightarrow> vm" where
  "vm_reset s = (vm_close_upvalues 0 s)\<lparr>v_stack := [], v_frames := [], v_open := [], v_handlers := [], v_overflowed := False\<rparr>"

definition vm_exn_state_restore :: "nat \<Rightarrow> nat \<Rightarrow> vm \<Rightarrow> vm" where
  "vm_exn_state_restore frame_count sp s =
     (let s1 = vm_close_upvalues sp s
      in s1\<lparr>v_frames := take frame_count (v_frames s1), v_stack := take sp (v_stack s1), v_overflowed := False\<rparr>)"

end
