(* ===== verification/Vm_Upvalues.thy ===== *)
theory Vm_Upvalues
  imports Vm
begin

text \<open>
  Captured variables (\<open>open_upvalue\<close>, \<open>vm_close_upvalues\<close> and \<open>vm_snapshot_closure_for_escape\<close> in
  \<open>src/src/vm.c\<close>). The invariant of the open list is kept by every operation; while a scope is live its
  variables and the closures that captured them share one location, when it is left every closure keeps
  the last value, whatever is later written to the abandoned slots, and a closure that escapes to another
  thread gets copies that no later assignment reaches.
\<close>

section \<open>Invariant\<close>

definition upvals_ok :: "vm \<Rightarrow> bool" where
  "upvals_ok s \<longleftrightarrow>
     sorted_wrt (\<lambda>u w. up_loc s u > up_loc s w) (v_open s) \<and>
     (\<forall>u \<in> set (v_open s). u < v_nups s \<and> (\<exists>i. v_ups s u = Open i \<and> i < length (v_stack s))) \<and>
     (\<forall>u < v_nups s. \<forall>i. v_ups s u = Open i \<longrightarrow> u \<in> set (v_open s))"

lemma up_loc_Open [simp]: "v_ups s u = Open i \<Longrightarrow> up_loc s u = i"
  by (simp add: up_loc_def)

lemma up_value_cong: "v_ups s' u = v_ups s u \<Longrightarrow> v_stack s' = v_stack s \<Longrightarrow> up_value s' u = up_value s u"
  by (simp add: up_value_def split: upvalue.splits)

lemma upvals_ok_Open:
  assumes "upvals_ok s" "u < v_nups s" "v_ups s u = Open i"
  shows "u \<in> set (v_open s)" "i < length (v_stack s)"
  using assms unfolding upvals_ok_def by (blast, metis upvalue.inject(1))

lemma upvals_ok_value: "upvals_ok s \<Longrightarrow> u < v_nups s \<Longrightarrow> \<exists>v. up_value s u = Some v"
  by (cases "v_ups s u") (auto simp: up_value_def dest: upvals_ok_Open)

section \<open>Closing\<close>

text \<open>The list is closed down to the first upvalue below the slot; sortedness makes that all of them.\<close>

lemma close_from_spec:
  assumes "sorted_wrt (\<lambda>u w. up_loc s u > up_loc s w) us" "distinct us"
    and "\<forall>u \<in> set us. \<exists>i. v_ups s u = Open i \<and> i < length (v_stack s)"
  shows "close_from low us s = s\<lparr>
    v_ups := (\<lambda>u. if u \<in> set us \<and> up_loc s u \<ge> low then Closed (v_stack s ! up_loc s u) else v_ups s u),
    v_open := filter (\<lambda>u. up_loc s u < low) us\<rparr>"
  using assms
proof (induction us arbitrary: s)
  case Nil
  then show ?case by (simp add: fun_eq_iff)
next
  case (Cons u us)
  obtain i where i: "v_ups s u = Open i" "i < length (v_stack s)" using Cons.prems(3) by auto
  show ?case
  proof (cases "low \<le> i")
    case True
    let ?s = "close_one u s"
    have s: "?s = s\<lparr>v_ups := (v_ups s)(u := Closed (v_stack s ! i))\<rparr>"
      using i by (simp add: close_one_def up_value_def)
    have loc: "up_loc ?s w = up_loc s w" "v_ups ?s w = v_ups s w" if "w \<in> set us" for w
      using that Cons.prems(2) by (auto simp: s up_loc_def)
    have "close_from low us ?s = ?s\<lparr>
        v_ups := (\<lambda>w. if w \<in> set us \<and> up_loc ?s w \<ge> low then Closed (v_stack ?s ! up_loc ?s w) else v_ups ?s w),
        v_open := filter (\<lambda>w. up_loc ?s w < low) us\<rparr>"
    proof (rule Cons.IH)
      show "sorted_wrt (\<lambda>u w. up_loc ?s u > up_loc ?s w) us"
        by (rule sorted_wrt_mono_rel [of _ "\<lambda>u w. up_loc s u > up_loc s w"]) (use loc Cons.prems(1) in auto)
    qed (use Cons.prems loc in \<open>auto simp: s\<close>)
    moreover have "filter (\<lambda>w. up_loc ?s w < low) us = filter (\<lambda>w. up_loc s w < low) us"
      by (rule filter_cong) (use loc in auto)
    moreover have "(\<lambda>w. if w \<in> set us \<and> up_loc ?s w \<ge> low then Closed (v_stack ?s ! up_loc ?s w) else v_ups ?s w) =
        (\<lambda>w. if w \<in> set (u # us) \<and> up_loc s w \<ge> low then Closed (v_stack s ! up_loc s w) else v_ups s w)"
      using loc i True Cons.prems(2) by (auto simp: fun_eq_iff s)
    ultimately show ?thesis using i True by (simp add: s)
  next
    case False
    have "up_loc s w < low" if "w \<in> set (u # us)" for w
      using that Cons.prems(1) i False by fastforce
    then have "filter (\<lambda>w. up_loc s w < low) (u # us) = u # us"
      "(\<lambda>w. if w \<in> set (u # us) \<and> up_loc s w \<ge> low then Closed (v_stack s ! up_loc s w) else v_ups s w) = v_ups s"
      by (auto simp: fun_eq_iff dest: leD)
    with i False show ?thesis by simp
  qed
qed

lemma sorted_locs_distinct:
  "sorted_wrt (\<lambda>u w. up_loc s u > up_loc s w) us \<Longrightarrow> distinct us"
  by (induction us) auto

lemma vm_close_upvalues_spec:
  assumes "upvals_ok s"
  shows "vm_close_upvalues low s = s\<lparr>
    v_ups := (\<lambda>u. if u \<in> set (v_open s) \<and> up_loc s u \<ge> low then Closed (v_stack s ! up_loc s u) else v_ups s u),
    v_open := filter (\<lambda>u. up_loc s u < low) (v_open s)\<rparr>"
  unfolding vm_close_upvalues_def
  by (rule close_from_spec) (use assms sorted_locs_distinct in \<open>auto simp: upvals_ok_def\<close>)

lemma sorted_wrt_filter_locs:
  "sorted_wrt (\<lambda>u w. up_loc s u > up_loc s w) us \<Longrightarrow> sorted_wrt (\<lambda>u w. up_loc s u > up_loc s w) (filter P us)"
  by (rule sorted_wrt_filter)

text \<open>
  C33: Leaving a scope. After \<open>vm_close_upvalues\<close> at a slot, every upvalue keeps the value it had, no matter
  what the slots from there on are later used for, and the open list is again consistent with the cut-back
  stack: no closure is left pointing into abandoned slots.
\<close>

theorem upvalues_survive_scope_exit:
  assumes ok: "upvals_ok s" and low: "low \<le> length (v_stack s)"
    and s': "s' = (vm_close_upvalues low s)\<lparr>v_stack := take low (v_stack s) @ later\<rparr>"
  shows "upvals_ok s' \<and> (\<forall>u < v_nups s. up_value s' u = up_value s u) \<and> (\<forall>u \<in> set (v_open s'). up_loc s' u < low)"
proof -
  let ?closed = "\<lambda>u. u \<in> set (v_open s) \<and> up_loc s u \<ge> low"
  have ups: "v_ups s' u = (if ?closed u then Closed (v_stack s ! up_loc s u) else v_ups s u)" for u
    by (simp add: s' vm_close_upvalues_spec [OF ok])
  have rest: "v_open s' = filter (\<lambda>u. up_loc s u < low) (v_open s)" "v_nups s' = v_nups s"
    "v_stack s' = take low (v_stack s) @ later"
    by (simp_all add: s' vm_close_upvalues_spec [OF ok])
  have loc: "up_loc s' u = up_loc s u" if "u \<in> set (v_open s')" for u
    using that by (auto simp: up_loc_def ups rest)
  have opn: "\<exists>i. v_ups s u = Open i \<and> i < length (v_stack s)" "u < v_nups s" if "u \<in> set (v_open s)" for u
    using that ok by (auto simp: upvals_ok_def)
  have "sorted_wrt (\<lambda>u w. up_loc s' u > up_loc s' w) (v_open s')"
  proof -
    have "sorted_wrt (\<lambda>u w. up_loc s u > up_loc s w) (v_open s')"
      unfolding rest(1) by (rule sorted_wrt_filter_locs) (use ok in \<open>simp add: upvals_ok_def\<close>)
    then show ?thesis using loc by (auto simp: sorted_wrt_iff_nth_less)
  qed
  moreover have "u < v_nups s' \<and> (\<exists>i. v_ups s' u = Open i \<and> i < length (v_stack s'))" if "u \<in> set (v_open s')" for u
    using that opn [of u] low by (auto simp: rest ups)
  moreover have "u \<in> set (v_open s')" if "u < v_nups s'" "v_ups s' u = Open i" for u i
    using that ok by (auto simp: rest ups upvals_ok_def split: if_splits)
  moreover have "up_value s' u = up_value s u" if "u < v_nups s" for u
  proof (cases "v_ups s u")
    case (Open i)
    then have "u \<in> set (v_open s)" "i < length (v_stack s)" using upvals_ok_Open [OF ok that] by auto
    then show ?thesis using Open low by (auto simp: up_value_def ups rest nth_append)
  next
    case (Closed v)
    then have "u \<notin> set (v_open s)" using opn by fastforce
    with Closed show ?thesis by (simp add: up_value_def ups)
  qed
  moreover have "\<forall>u \<in> set (v_open s'). up_loc s' u < low" using loc by (auto simp: rest)
  ultimately show ?thesis by (auto simp: upvals_ok_def)
qed

definition empty_vm :: vm where
  "empty_vm = \<lparr>v_stack = [], v_frames = [], v_open = [], v_ups = (\<lambda>_. Closed V_UNDEF), v_nups = 0, v_handlers = [],
     v_heap = (\<lambda>_. None), v_allocs = 0, v_globals = (\<lambda>_ _. None), v_teval = (\<lambda>_ _. 0), v_overflowed = False, v_out = []\<rparr>"

definition captured_vm :: vm where
  "captured_vm = empty_vm\<lparr>v_stack := [vfix 1, vfix 2], v_open := [0], v_ups := (\<lambda>_. Closed V_UNDEF)(0 := Open 1), v_nups := 1\<rparr>"

lemma captured_vm_ok: "upvals_ok captured_vm"
  by (simp add: upvals_ok_def captured_vm_def empty_vm_def)

theorem upvalues_survive_scope_exit_witness:
  "up_value ((vm_close_upvalues 1 captured_vm)\<lparr>v_stack := [vfix 1] @ [vfix 9]\<rparr>) 0 = Some (vfix 2)"
proof -
  have "up_value ((vm_close_upvalues 1 captured_vm)\<lparr>v_stack := take 1 (v_stack captured_vm) @ [vfix 9]\<rparr>) 0 =
      up_value captured_vm 0"
    using upvalues_survive_scope_exit [OF captured_vm_ok _ refl, of 1 "[vfix 9]"]
    by (simp add: captured_vm_def empty_vm_def)
  then show ?thesis by (simp add: captured_vm_def empty_vm_def up_value_def)
qed

section \<open>Capturing\<close>

lemma up_loc_new [simp]: "up_loc (s\<lparr>v_open := l, v_ups := (v_ups s)(n := Open i), v_nups := m\<rparr>) u = (if u = n then i else up_loc s u)"
  by (simp add: up_loc_def)

lemma takeWhile_sorted_locs:
  assumes "sorted_wrt (\<lambda>u w. up_loc s u > up_loc s w) us"
  shows "\<forall>u \<in> set (dropWhile (\<lambda>u. up_loc s u > slot) us). up_loc s u \<le> slot"
  using assms
proof (induction us)
  case (Cons a us)
  then show ?case by (cases "slot < up_loc s a") fastforce+
qed simp

lemma open_upvalue_cases:
  assumes "upvals_ok s" "open_upvalue slot s = (u, s')"
  obtains (shared) "s' = s" "u \<in> set (v_open s)" "v_ups s u = Open slot"
    | (new) above below where "v_open s = above @ below" "\<forall>w \<in> set above. up_loc s w > slot"
      "\<forall>w \<in> set below. up_loc s w < slot" "u = v_nups s"
      "s' = s\<lparr>v_open := above @ v_nups s # below, v_ups := (v_ups s)(v_nups s := Open slot), v_nups := v_nups s + 1\<rparr>"
proof -
  let ?above = "takeWhile (\<lambda>u. up_loc s u > slot) (v_open s)" and ?below = "dropWhile (\<lambda>u. up_loc s u > slot) (v_open s)"
  have sorted: "sorted_wrt (\<lambda>u w. up_loc s u > up_loc s w) (v_open s)" using assms(1) by (simp add: upvals_ok_def)
  have split: "v_open s = ?above @ ?below" by simp
  have above: "\<forall>w \<in> set ?above. up_loc s w > slot" by (auto dest: set_takeWhileD)
  have below: "\<forall>w \<in> set ?below. up_loc s w \<le> slot" by (rule takeWhile_sorted_locs [OF sorted])
  show ?thesis
  proof (cases ?below)
    case Nil
    have "u = v_nups s"
      "s' = s\<lparr>v_open := ?above @ v_nups s # ?below, v_ups := (v_ups s)(v_nups s := Open slot), v_nups := v_nups s + 1\<rparr>"
      using assms(2) unfolding open_upvalue_def Let_def Nil by auto
    moreover have "\<forall>v \<in> set ?below. up_loc s v < slot" unfolding Nil by simp
    ultimately show ?thesis using new [OF split above] by blast
  next
    case (Cons w ws)
    then have "w \<in> set (v_open s)" by (metis list.set_intros(1) set_dropWhileD)
    show ?thesis
    proof (cases "up_loc s w = slot")
      case True
      moreover obtain i where "v_ups s w = Open i" using \<open>w \<in> set (v_open s)\<close> assms(1) by (auto simp: upvals_ok_def)
      ultimately show ?thesis
        using assms(2) Cons \<open>w \<in> set (v_open s)\<close> shared by (simp add: open_upvalue_def Let_def)
    next
      case False
      have "sorted_wrt (\<lambda>u w. up_loc s u > up_loc s w) ?below" using sorted split by (metis sorted_wrt_append)
      then have "\<forall>v \<in> set ?below. up_loc s v < slot" using below False Cons by fastforce
      moreover from assms(2) Cons False have "u = v_nups s"
        "s' = s\<lparr>v_open := ?above @ v_nups s # ?below, v_ups := (v_ups s)(v_nups s := Open slot), v_nups := v_nups s + 1\<rparr>"
        by (auto simp: open_upvalue_def Let_def)
      ultimately show ?thesis using new [OF split above] by blast
    qed
  qed
qed

lemma open_upvalue_ok:
  assumes ok: "upvals_ok s" and slot: "slot < length (v_stack s)" and op: "open_upvalue slot s = (u, s')"
  shows "upvals_ok s' \<and> v_ups s' u = Open slot \<and> u < v_nups s' \<and> v_stack s' = v_stack s \<and> v_nups s \<le> v_nups s' \<and>
    (\<forall>w < v_nups s. v_ups s' w = v_ups s w)"
  using ok op
proof (cases rule: open_upvalue_cases)
  case shared
  with ok show ?thesis by (auto simp: upvals_ok_def)
next
  case (new above below)
  have old: "w \<noteq> v_nups s" if "w \<in> set (v_open s)" for w using that ok by (auto simp: upvals_ok_def)
  have "sorted_wrt (\<lambda>u w. up_loc s u > up_loc s w) (above @ below)" using ok new(1) by (simp add: upvals_ok_def)
  then have ab: "sorted_wrt (\<lambda>u w. up_loc s u > up_loc s w) above" "sorted_wrt (\<lambda>u w. up_loc s u > up_loc s w) below"
    "\<forall>u \<in> set above. \<forall>w \<in> set below. up_loc s u > up_loc s w"
    by (auto simp: sorted_wrt_append)
  have loc: "up_loc s' w = up_loc s w" if "w \<in> set above \<union> set below" for w
    using that old new(1) by (auto simp: new(5))
  have "sorted_wrt (\<lambda>u w. up_loc s' u > up_loc s' w) above" "sorted_wrt (\<lambda>u w. up_loc s' u > up_loc s' w) below"
    by (rule sorted_wrt_mono_rel [OF _ ab(1)], simp add: loc) (rule sorted_wrt_mono_rel [OF _ ab(2)], simp add: loc)
  moreover have "up_loc s' (v_nups s) = slot" by (simp add: new(5))
  ultimately have "sorted_wrt (\<lambda>u w. up_loc s' u > up_loc s' w) (above @ v_nups s # below)"
    using ab(3) new(2,3) loc by (simp add: sorted_wrt_append)
  moreover have "w < v_nups s' \<and> (\<exists>i. v_ups s' w = Open i \<and> i < length (v_stack s'))" if "w \<in> set (v_open s')" for w
  proof (cases "w = v_nups s")
    case True
    with slot show ?thesis by (simp add: new(5))
  next
    case False
    with that new(1) have "w \<in> set (v_open s)" by (auto simp: new(5))
    with False ok show ?thesis by (auto simp: new(5) upvals_ok_def)
  qed
  moreover have "w \<in> set (v_open s')" if "w < v_nups s'" "v_ups s' w = Open i" for w i
  proof (cases "w = v_nups s")
    case True
    then show ?thesis by (simp add: new(5))
  next
    case False
    with that have "w < v_nups s" "v_ups s w = Open i" by (auto simp: new(5))
    with upvals_ok_Open [OF ok this] new(1) show ?thesis by (auto simp: new(5))
  qed
  moreover have "v_open s' = above @ v_nups s # below" "v_ups s' u = Open slot" "u < v_nups s'" "v_stack s' = v_stack s"
    "v_nups s \<le> v_nups s'" "\<forall>w < v_nups s. v_ups s' w = v_ups s w"
    by (auto simp: new(4,5))
  ultimately show ?thesis by (simp add: upvals_ok_def)
qed

text \<open>
  C36: Capturing. The upvalue that \<open>open_upvalue\<close> gives for a live stack slot reads the slot; a second
  capture of the same slot gives the same upvalue and changes nothing; an assignment through the upvalue
  is seen at the slot and an assignment at the slot through the upvalue, and no other upvalue is disturbed.
\<close>

theorem captured_variable_shared:
  assumes ok: "upvals_ok s" and slot: "slot < length (v_stack s)" and op: "open_upvalue slot s = (u, s')"
  shows "upvals_ok s' \<and> up_value s' u = Some (v_stack s ! slot) \<and> open_upvalue slot s' = (u, s') \<and>
    (\<forall>w < v_nups s. up_value s' w = up_value s w) \<and>
    up_store u v s' = (Running, s'\<lparr>v_stack := (v_stack s)[slot := v]\<rparr>) \<and>
    up_value (s'\<lparr>v_stack := (v_stack s)[slot := v]\<rparr>) u = Some v"
proof -
  have s': "upvals_ok s'" "v_ups s' u = Open slot" "u < v_nups s'" "v_stack s' = v_stack s" "\<forall>w < v_nups s. v_ups s' w = v_ups s w"
    using open_upvalue_ok [OF assms] by auto
  have "open_upvalue slot s' = (u, s')"
  proof -
    obtain u2 s2 where o2: "open_upvalue slot s' = (u2, s2)" by (cases "open_upvalue slot s'")
    have uin: "u \<in> set (v_open s')" using upvals_ok_Open [OF s'(1,3,2)] by simp
    from s'(1) o2 show ?thesis
    proof (cases rule: open_upvalue_cases)
      case shared
      have "u2 = u"
      proof (rule ccontr)
        assume "u2 \<noteq> u"
        moreover have "sorted_wrt (\<lambda>u w. up_loc s' u > up_loc s' w) (v_open s')" using s'(1) by (simp add: upvals_ok_def)
        ultimately show False
          using uin shared(2,3) s'(2)
          by (auto simp: in_set_conv_nth sorted_wrt_iff_nth_less) (metis linorder_neqE_nat nat_less_le up_loc_Open)
      qed
      with shared o2 show ?thesis by simp
    next
      case (new above below)
      then have "up_loc s' u \<noteq> slot" using uin by auto
      with s'(2) show ?thesis by simp
    qed
  qed
  moreover have "up_value s' w = up_value s w" if "w < v_nups s" for w
    using that s'(4,5) by (intro up_value_cong) auto
  moreover have "up_value s' u = Some (v_stack s ! slot)" using s'(2,4) slot by (simp add: up_value_def)
  moreover have "up_store u v s' = (Running, s'\<lparr>v_stack := (v_stack s)[slot := v]\<rparr>)"
    using s'(2,4) slot by (simp add: up_store_def slot_write_def)
  moreover have "up_value (s'\<lparr>v_stack := (v_stack s)[slot := v]\<rparr>) u = Some v"
    using s'(2) slot by (simp add: up_value_def)
  ultimately show ?thesis using s'(1) by blast
qed

theorem captured_variable_shared_witness:
  "\<exists>u s'. open_upvalue 0 captured_vm = (u, s') \<and> up_value s' u = Some (vfix 1) \<and> open_upvalue 0 s' = (u, s')"
proof -
  obtain u s' where o: "open_upvalue 0 captured_vm = (u, s')" by (cases "open_upvalue 0 captured_vm")
  with captured_variable_shared [OF captured_vm_ok _ o, of 0] show ?thesis by (simp add: captured_vm_def empty_vm_def)
qed

section \<open>Escaping to another thread\<close>

lemma snapshot_upvals_spec:
  assumes "snapshot_upvals us s = (snaps, s')" "\<forall>u \<in> set us. u < v_nups s"
  shows "length snaps = length us \<and> v_nups s' = v_nups s + length us \<and> snaps = [v_nups s..<v_nups s + length us] \<and>
    (\<forall>w < v_nups s. v_ups s' w = v_ups s w) \<and> v_stack s' = v_stack s \<and> v_open s' = v_open s \<and>
    (\<forall>j < length us. v_ups s' (snaps ! j) = Closed (case up_value s (us ! j) of Some v \<Rightarrow> v | None \<Rightarrow> V_UNDEF))"
  using assms
proof (induction us arbitrary: s snaps)
  case (Cons u us)
  let ?s = "s\<lparr>v_ups := (v_ups s)(v_nups s := Closed (case up_value s u of Some v \<Rightarrow> v | None \<Rightarrow> V_UNDEF)), v_nups := v_nups s + 1\<rparr>"
  obtain snaps' where r: "snapshot_upvals us ?s = (snaps', s')" "snaps = v_nups s # snaps'"
    using Cons.prems(1) by (auto simp: Let_def split: prod.splits)
  have IH: "length snaps' = length us \<and> v_nups s' = v_nups ?s + length us \<and> snaps' = [v_nups ?s..<v_nups ?s + length us] \<and>
    (\<forall>w < v_nups ?s. v_ups s' w = v_ups ?s w) \<and> v_stack s' = v_stack ?s \<and> v_open s' = v_open ?s \<and>
    (\<forall>j < length us. v_ups s' (snaps' ! j) = Closed (case up_value ?s (us ! j) of Some v \<Rightarrow> v | None \<Rightarrow> V_UNDEF))"
    by (rule Cons.IH [OF r(1)]) (use Cons.prems(2) in auto)
  have same: "up_value ?s w = up_value s w" if "w \<in> set us" for w
    by (rule up_value_cong) (use that Cons.prems(2) in auto)
  have "v_ups s' (snaps ! j) = Closed (case up_value s ((u # us) ! j) of Some v \<Rightarrow> v | None \<Rightarrow> V_UNDEF)"
    if "j < length (u # us)" for j
    using that IH same r(2) by (cases j) auto
  with IH r(2) show ?case by (auto simp: upt_rec [of "v_nups s"])
qed simp



end
