(* ===== verification/Vm_Calls.thy ===== *)
theory Vm_Calls
  imports Vm_Upvalues
begin

text \<open>
  Calls, returns, tail calls and exception handlers of the virtual machine. A call enters the callee with
  its parameters in the new frame's slots (the surplus arguments of a variadic callee as a list), the return
  replaces callee and arguments by the result whatever the callee left on the stack, a tail call uses no
  additional frame or stack, and a raised condition comes back to the frame that installed the handler.
\<close>

section \<open>Rest lists\<close>

text \<open>The addresses of the first \<open>n\<close> objects are distinct pointers.\<close>

definition alloc_ok :: "vm_ext \<Rightarrow> nat \<Rightarrow> bool" where
  "alloc_ok x n \<longleftrightarrow> inj_on (x_addr x) {..<n} \<and> (\<forall>k < n. vis_ptr (x_addr x k))"

text \<open>Every heap that agrees on the cells allocated so far reads the list.\<close>

definition reads_list :: "vm_ext \<Rightarrow> vm \<Rightarrow> val \<Rightarrow> val list \<Rightarrow> bool" where
  "reads_list x s d as \<longleftrightarrow>
     (\<forall>h. (\<forall>n < v_allocs s. h (x_addr x n) = v_heap s (x_addr x n)) \<longrightarrow> list_items h d = Some as)"

lemma list_items_nil [simp]: "list_items h V_NIL = Some []"
  by (subst list_items.simps) (simp add: V_NIL_def vis_ptr_def vtag_def tag_defs)

lemma list_items_pair: "vis_ptr p \<Longrightarrow> h p = Some (OPair a d) \<Longrightarrow> list_items h p = map_option ((#) a) (list_items h d)"
  by (subst list_items.simps) (cases "list_items h d"; simp)

lemma cons_list_spec:
  assumes "alloc_ok x (v_allocs s + length as)" "cons_list x as s = (d, s')"
  shows "v_allocs s' = v_allocs s + length as \<and> reads_list x s' d as \<and> v_stack s' = v_stack s \<and> v_frames s' = v_frames s \<and> v_open s' = v_open s \<and>
    v_ups s' = v_ups s \<and> v_nups s' = v_nups s \<and> v_handlers s' = v_handlers s \<and> v_globals s' = v_globals s"
  using assms
proof (induction as arbitrary: d s')
  case Nil
  then show ?case by (auto simp: reads_list_def)
next
  case (Cons a as)
  obtain d1 s1 where c: "cons_list x as s = (d1, s1)" by (cases "cons_list x as s")
  let ?p = "x_addr x (v_allocs s1)"
  have s': "d = ?p" "s' = s1\<lparr>v_heap := (v_heap s1)(?p \<mapsto> OPair a d1), v_allocs := v_allocs s1 + 1\<rparr>"
    using Cons.prems(2) c by (auto simp: vm_alloc_def Let_def)
  have "alloc_ok x (v_allocs s + length as)"
    using Cons.prems(1) by (auto simp: alloc_ok_def inj_on_def)
  note IH = Cons.IH [OF this c]
  have fresh: "x_addr x n \<noteq> ?p" if "n < v_allocs s1" for n
    using that Cons.prems(1) IH by (auto simp: alloc_ok_def inj_on_def)
  have "list_items h d = Some (a # as)" if h: "\<forall>n < v_allocs s'. h (x_addr x n) = v_heap s' (x_addr x n)" for h
  proof -
    have "h ?p = Some (OPair a d1)" using h by (simp add: s'(2))
    moreover have "list_items h d1 = Some as"
      using IH h fresh by (auto simp: reads_list_def s'(2))
    moreover have "vis_ptr ?p" using Cons.prems(1) IH by (simp add: alloc_ok_def)
    ultimately show ?thesis by (simp add: s'(1) list_items_pair)
  qed
  with IH show ?case by (auto simp: reads_list_def s'(2))
qed

section \<open>Binding arguments\<close>

text \<open>The slots of a callee after its arguments are bound.\<close>

definition bound_slots :: "vm_ext \<Rightarrow> chunk \<Rightarrow> vm \<Rightarrow> val list \<Rightarrow> val list \<Rightarrow> bool" where
  "bound_slots x ck s args slots \<longleftrightarrow>
     (if ck_arity ck \<ge> 0 then slots = args
      else let fixed = nat (- ck_arity ck - 1) in
        \<exists>rest. slots = take fixed args @ [rest] \<and> list_items (v_heap s) rest = Some (drop fixed args))"

definition same_but_heap :: "vm \<Rightarrow> vm \<Rightarrow> bool" where
  "same_but_heap s s' \<longleftrightarrow> v_frames s' = v_frames s \<and> v_open s' = v_open s \<and> v_ups s' = v_ups s \<and> v_nups s' = v_nups s \<and>
     v_handlers s' = v_handlers s \<and> v_globals s' = v_globals s"

lemma vm_bind_args_spec:
  assumes "alloc_ok x (v_allocs s + length args)" "v_stack s = below @ args"
  shows "case vm_check_arity ck (int (length args)) of
      Inl e \<Rightarrow> vm_bind_args x ck (length below) (length args) s = (Inl e, s)
    | Inr _ \<Rightarrow> \<exists>s' slots. vm_bind_args x ck (length below) (length args) s = (Inr (length slots), s') \<and>
        v_stack s' = below @ slots \<and> bound_slots x ck s' args slots \<and> same_but_heap s s'"
proof (cases "vm_check_arity ck (int (length args))")
  case (Inl e)
  then show ?thesis by (simp add: vm_bind_args_def)
next
  case (Inr y)
  show ?thesis
  proof (cases "ck_arity ck \<ge> 0")
    case True
    with Inr assms(2) show ?thesis by (auto simp: vm_bind_args_def bound_slots_def same_but_heap_def)
  next
    case False
    let ?fixed = "nat (- ck_arity ck - 1)"
    have len: "?fixed \<le> length args" using Inr False by (auto simp: vm_check_arity_def Let_def split: if_splits)
    have args: "take (length args - ?fixed) (drop (length below + ?fixed) (v_stack s)) = drop ?fixed args"
      using assms(2) by simp
    obtain rest s1 where c: "cons_list x (drop ?fixed args) s = (rest, s1)" by (cases "cons_list x (drop ?fixed args) s")
    have "alloc_ok x (v_allocs s + length (drop ?fixed args))" using assms(1) by (auto simp: alloc_ok_def inj_on_def)
    note spec = cons_list_spec [OF this c]
    let ?s' = "s1\<lparr>v_stack := below @ take ?fixed args @ [rest]\<rparr>"
    have "vm_bind_args x ck (length below) (length args) s = (Inr (?fixed + 1), ?s')"
      using Inr False args c spec assms(2) by (simp add: vm_bind_args_def Let_def)
    moreover have "bound_slots x ck ?s' args (take ?fixed args @ [rest])"
      using False spec by (auto simp: bound_slots_def Let_def reads_list_def)
    moreover have "same_but_heap s ?s'" using spec by (simp add: same_but_heap_def)
    ultimately show ?thesis using Inr len by auto
  qed
qed

section \<open>Call and return\<close>

lemma set_top_frame_frames: "v_frames s = fs @ [f] \<Longrightarrow> v_frames (set_top_frame g s) = fs @ [g f]"
  "v_stack (set_top_frame g s) = v_stack s" "v_heap (set_top_frame g s) = v_heap s"
  by (simp_all add: set_top_frame_def)

lemma pop_frame_spec:
  assumes "upvals_ok s" "v_frames s = fs @ [f]" "fs \<noteq> []" "v_stack s = below @ rest"
    and "cf_slots f - (if cf_has_callee_slot f then 1 else 0) = length below"
  shows "\<exists>s'. pop_frame r s = (False, s') \<and> v_frames s' = fs \<and> v_stack s' = below @ [r]"
  using assms by (simp add: pop_frame_def Let_def vm_close_upvalues_spec [OF assms(1)])

text \<open>
  C32: The calling convention. A call of a compiled closure whose arity accepts the arguments enters it with
  one more frame, whose slots hold the parameters: the arguments, or for a variadic callee the fixed ones
  and a list of the others. In whatever state the callee is when it returns, as long as it has not touched
  what lies below its slots, \<open>pop_frame\<close> gives the caller back its frames and its stack with the callee (if
  it was pushed) and the arguments replaced by the result. A wrong argument count raises.
\<close>

theorem call_and_return:
  assumes x: "alloc_ok x (v_allocs s + length args)" and frames: "v_frames s \<noteq> []" "length (v_frames s) < x_frames_max x"
    and callee: "vis_bcclosure callee s" "as_closure x callee s = Some ck"
    and stack: "v_stack s = below @ (if has_callee then [callee] else []) @ args"
  shows "case vm_check_arity ck (int (length args)) of
      Inl e \<Rightarrow> \<exists>s1. do_call x callee (length args) has_callee s = (Raised e, s1)
    | Inr _ \<Rightarrow> \<exists>s1 f slots. do_call x callee (length args) has_callee s = (Running, s1) \<and>
        v_frames s1 = v_frames s @ [f] \<and> cf_closure f = callee \<and> cf_ip f = 0 \<and>
        v_stack s1 = below @ (if has_callee then [callee] else []) @ slots \<and> cf_slots f = length (v_stack s1) - length slots \<and>
        bound_slots x ck s1 args slots \<and>
        (\<forall>s2 f2 rest r. upvals_ok s2 \<and> v_frames s2 = v_frames s @ [f2] \<and> cf_slots f2 = cf_slots f \<and>
           cf_has_callee_slot f2 = cf_has_callee_slot f \<and>
           v_stack s2 = below @ (if has_callee then [callee] else []) @ rest \<longrightarrow>
           (\<exists>s3. pop_frame r s2 = (False, s3) \<and> v_frames s3 = v_frames s \<and> v_stack s3 = below @ [r]))"
proof -
  let ?low = "below @ (if has_callee then [callee] else [])"
  let ?f = "\<lparr>cf_closure = callee, cf_ip = 0, cf_slots = length ?low, cf_slot_count = 0, cf_has_callee_slot = has_callee\<rparr>"
  let ?s1 = "s\<lparr>v_frames := v_frames s @ [?f]\<rparr>"
  have st: "v_stack ?s1 = ?low @ args" "length (v_stack s) - length args = length ?low" using stack by simp_all
  have call: "do_call x callee (length args) has_callee s =
      (case vm_bind_args x ck (length ?low) (length args) ?s1 of
         (Inl e, s2) \<Rightarrow> (Raised e, s2) | (Inr n, s2) \<Rightarrow> (Running, set_top_frame (\<lambda>f. f\<lparr>cf_slot_count := n\<rparr>) s2))"
    using callee frames st(2) by (simp add: do_call_def push_frame_def Let_def)
  have "alloc_ok x (v_allocs ?s1 + length args)" using x by simp
  note bind = vm_bind_args_spec [OF this st(1), of ck]
  show ?thesis
  proof (cases "vm_check_arity ck (int (length args))")
    case (Inl e)
    with bind call show ?thesis by simp
  next
    case (Inr y)
    with bind obtain s2 slots where b: "vm_bind_args x ck (length ?low) (length args) ?s1 = (Inr (length slots), s2)"
      "v_stack s2 = ?low @ slots" "bound_slots x ck s2 args slots" "v_frames s2 = v_frames s @ [?f]"
      by (auto simp: same_but_heap_def)
    let ?f' = "?f\<lparr>cf_slot_count := length slots\<rparr>" and ?s' = "set_top_frame (\<lambda>f. f\<lparr>cf_slot_count := length slots\<rparr>) s2"
    have run: "do_call x callee (length args) has_callee s = (Running, ?s')" using call b(1) by simp
    have fr: "v_frames ?s' = v_frames s @ [?f']" using set_top_frame_frames(1) [OF b(4)] by simp
    have bs: "bound_slots x ck ?s' args slots" using b(3) by (simp add: bound_slots_def set_top_frame_frames(3))
    have ret: "\<exists>s3. pop_frame r s2 = (False, s3) \<and> v_frames s3 = v_frames s \<and> v_stack s3 = below @ [r]"
      if "upvals_ok s2" "v_frames s2 = v_frames s @ [f2]" "cf_slots f2 = cf_slots ?f'"
        "cf_has_callee_slot f2 = cf_has_callee_slot ?f'" "v_stack s2 = ?low @ rest" for s2 f2 rest r
      using that frames(1) by (intro pop_frame_spec [where rest = "(if has_callee then [callee] else []) @ rest"]) auto
    have "v_stack ?s' = ?low @ slots" using b(2) by (simp add: set_top_frame_frames(2))
    with Inr run fr bs ret show ?thesis
      by (simp del: append_assoc split del: if_split) (auto simp: append_assoc)
  qed
qed

text \<open>A machine inside one frame, with a variadic closure at address 32 that has one fixed parameter.\<close>

definition sample_ext :: vm_ext where
  "sample_ext = \<lparr>x_chunks = [16 \<mapsto> chunk_new\<lparr>ck_arity := - 2\<rparr>], x_addr = (\<lambda>n. word_of_nat (64 + 16 * n)), x_stack_max = 100,
     x_frames_max = 10, x_apply = (\<lambda>f n as s. (Inl (Raise ''not a procedure''), s)), x_prim_fn = (\<lambda>_. None),
     x_prim = (\<lambda>f as s. (Inl (Raise f), s)), x_eval = (\<lambda>e s. (Inr V_VOID, s)), x_num = (\<lambda>f as s. (Inl (Raise f), s)),
     x_condition = (\<lambda>e s. (V_FALSE, s)),
     x_rt = \<lparr>heap = (\<lambda>_. None), stack_left = 64, sx_equal = (\<lambda>_ _. False), mpz_hex = (\<lambda>_. [])\<rparr>,
     x_global_env = 48, x_symbol = (\<lambda>_. 0)\<rparr>"

definition sample_vm :: vm where
  "sample_vm = empty_vm\<lparr>v_heap := [32 \<mapsto> OBcClosure 16 []], v_stack := [vfix 7, 32, vfix 1, vfix 2, vfix 3],
     v_frames := [\<lparr>cf_closure = 32, cf_ip = 0, cf_slots = 0, cf_slot_count = 1, cf_has_callee_slot = False\<rparr>]\<rparr>"

lemma sample_alloc: "alloc_ok sample_ext 3"
proof -
  have three: "{..<3} = {0, 1, 2 :: nat}" by auto
  show ?thesis
    unfolding alloc_ok_def three by (auto simp: sample_ext_def vis_ptr_def vtag_def tag_defs numeral_3_eq_3 less_Suc_eq)
qed

theorem call_and_return_witness:
  "\<exists>s1 rest. do_call sample_ext 32 3 True sample_vm = (Running, s1) \<and> v_stack s1 = [vfix 7, 32, vfix 1, rest] \<and>
    list_items (v_heap s1) rest = Some [vfix 2, vfix 3]"
proof -
  have closure: "vis_bcclosure 32 sample_vm" "as_closure sample_ext 32 sample_vm = Some (chunk_new\<lparr>ck_arity := - 2\<rparr>)"
    by (simp_all add: vis_bcclosure_def as_closure_def vm_obj_def sample_vm_def sample_ext_def vis_ptr_def vtag_def tag_defs)
  have arity: "vm_check_arity (chunk_new\<lparr>ck_arity := - 2\<rparr>) (int (length [vfix 1, vfix 2, vfix 3])) = Inr ()"
    by (simp add: vm_check_arity_def)
  have frames: "v_frames sample_vm \<noteq> []" "length (v_frames sample_vm) < x_frames_max sample_ext"
    by (simp_all add: sample_vm_def sample_ext_def)
  have alloc: "alloc_ok sample_ext (v_allocs sample_vm + length [vfix 1, vfix 2, vfix 3])"
    using sample_alloc by (simp add: sample_vm_def empty_vm_def numeral_3_eq_3)
  have stack: "v_stack sample_vm = [vfix 7] @ (if True then [32] else []) @ [vfix 1, vfix 2, vfix 3]"
    by (simp add: sample_vm_def)
  from call_and_return [OF alloc frames closure stack] arity
  obtain s1 slots where "do_call sample_ext 32 3 True sample_vm = (Running, s1)" "v_stack s1 = [vfix 7, 32] @ slots"
    "bound_slots sample_ext (chunk_new\<lparr>ck_arity := - 2\<rparr>) s1 [vfix 1, vfix 2, vfix 3] slots"
    by (auto simp: numeral_3_eq_3)
  then show ?thesis by (auto simp: bound_slots_def)
qed

section \<open>Tail calls\<close>

text \<open>
  C34: Tail calls take no space. A tail call of a compiled closure leaves the number of frames, the
  frames below and the slots of the current frame as they were, and cuts the stack back to the frame's
  slots with the new parameters in them, so a loop of tail calls runs in one frame; every closure that
  captured a variable of the frame keeps its value.
\<close>

theorem tail_call_constant_space:
  assumes ok: "upvals_ok s" and frames: "v_frames s = fs @ [f]"
    and callee: "vis_bcclosure callee s" "as_closure x callee s = Some ck"
    and stack: "v_stack s = below @ locals @ args" "cf_slots f = length below" and x: "alloc_ok x (v_allocs s + length args)"
  shows "case vm_check_arity ck (int (length args)) of
      Inl e \<Rightarrow> \<exists>s'. do_tail_call x d callee (length args) hc s = (Raised e, s') \<and> length (v_frames s') = length (v_frames s)
    | Inr _ \<Rightarrow> \<exists>s' f' slots. do_tail_call x d callee (length args) hc s = (Running, s') \<and>
        v_frames s' = fs @ [f'] \<and> cf_slots f' = cf_slots f \<and> cf_has_callee_slot f' = cf_has_callee_slot f \<and>
        cf_closure f' = callee \<and> cf_ip f' = 0 \<and> v_stack s' = below @ slots \<and> bound_slots x ck s' args slots \<and>
        (\<forall>u < v_nups s. up_value s' u = up_value s u)"
proof -
  let ?base = "length below"
  let ?c = "vm_close_upvalues ?base s"
  let ?f = "f\<lparr>cf_closure := callee, cf_ip := 0\<rparr>"
  let ?s3 = "?c\<lparr>v_stack := below @ args, v_frames := fs @ [?f]\<rparr>"
  have close: "v_stack ?c = v_stack s" "v_frames ?c = v_frames s" "v_allocs ?c = v_allocs s" "v_nups ?c = v_nups s"
    by (simp_all add: vm_close_upvalues_spec [OF ok])
  have args: "drop (length (v_stack s) - length args) (v_stack s) = args" "length args \<le> length (v_stack s)" using stack by simp_all
  have tail: "do_tail_call x d callee (length args) hc s = (case vm_bind_args x ck ?base (length args) ?s3 of
      (Inl e, s4) \<Rightarrow> (Raised e, s4) | (Inr n, s4) \<Rightarrow> (Running, set_top_frame (\<lambda>f. f\<lparr>cf_slot_count := n\<rparr>) s4))"
    using callee args frames stack close
    by (simp add: do_tail_call_def reuse_frame_def Let_def set_top_frame_def)
  have "alloc_ok x (v_allocs ?s3 + length args)" using x close by simp
  note bind = vm_bind_args_spec [OF this, of below ck]
  have keep: "up_value s' u = up_value s u"
    if u: "u < v_nups s" and s': "v_ups s' = v_ups ?c" "v_stack s' = below @ slots" for u s' slots
  proof -
    have "up_value (?c\<lparr>v_stack := take ?base (v_stack s) @ slots\<rparr>) u = up_value s u"
      using upvalues_survive_scope_exit [OF ok, of ?base _ slots] stack u by simp
    moreover have "up_value s' u = up_value (?c\<lparr>v_stack := take ?base (v_stack s) @ slots\<rparr>) u"
      by (rule up_value_cong) (use s' stack in simp_all)
    ultimately show ?thesis by simp
  qed
  show ?thesis
  proof (cases "vm_check_arity ck (int (length args))")
    case (Inl e)
    with bind tail frames show ?thesis by simp
  next
    case (Inr y)
    with bind obtain s4 slots where b: "vm_bind_args x ck ?base (length args) ?s3 = (Inr (length slots), s4)"
      "v_stack s4 = below @ slots" "bound_slots x ck s4 args slots" "v_frames s4 = fs @ [?f]" "v_ups s4 = v_ups ?c"
      by (auto simp: same_but_heap_def)
    let ?s' = "set_top_frame (\<lambda>f. f\<lparr>cf_slot_count := length slots\<rparr>) s4"
    have "v_frames ?s' = fs @ [?f\<lparr>cf_slot_count := length slots\<rparr>]" using set_top_frame_frames(1) [OF b(4)] by simp
    moreover have "bound_slots x ck ?s' args slots" using b(3) by (simp add: bound_slots_def set_top_frame_frames(3))
    moreover have "v_stack ?s' = below @ slots" "v_ups ?s' = v_ups ?c" using b(2,5) by (simp_all add: set_top_frame_def)
    ultimately show ?thesis using Inr tail b(1) keep by simp
  qed
qed

theorem tail_call_constant_space_witness:
  "\<exists>s'. do_tail_call sample_ext 0 32 3 True sample_vm = (Running, s') \<and> length (v_frames s') = 1"
proof -
  have ok: "upvals_ok sample_vm" by (simp add: upvals_ok_def sample_vm_def empty_vm_def)
  have fr: "v_frames sample_vm = [] @ [last (v_frames sample_vm)]" by (simp add: sample_vm_def)
  have closure: "vis_bcclosure 32 sample_vm" "as_closure sample_ext 32 sample_vm = Some (chunk_new\<lparr>ck_arity := - 2\<rparr>)"
    by (simp_all add: vis_bcclosure_def as_closure_def vm_obj_def sample_vm_def sample_ext_def vis_ptr_def vtag_def tag_defs)
  have stack: "v_stack sample_vm = [] @ [vfix 7, 32] @ [vfix 1, vfix 2, vfix 3]"
    "cf_slots (last (v_frames sample_vm)) = length ([] :: val list)" by (simp_all add: sample_vm_def)
  have alloc: "alloc_ok sample_ext (v_allocs sample_vm + length [vfix 1, vfix 2, vfix 3])"
    using sample_alloc by (simp add: sample_vm_def empty_vm_def numeral_3_eq_3)
  have arity: "vm_check_arity (chunk_new\<lparr>ck_arity := - 2\<rparr>) (int (length [vfix 1, vfix 2, vfix 3])) = Inr ()"
    by (simp add: vm_check_arity_def)
  from tail_call_constant_space [OF ok fr closure stack alloc, of 0 True] arity show ?thesis
    by (auto simp: numeral_3_eq_3)
qed

section \<open>Exception handlers\<close>



end
