(* ===== verification/Compiler.thy ===== *)
theory Compiler
  imports Chunk
begin

text \<open>
  The foundation of the bytecode compiler (\<open>src/src/compiler.c\<close>): one level per procedure being compiled,
  with its chunk, its local variables by stack slot and its captured variables, and the helpers that emit
  instructions, open and close scopes and resolve names. A compiler is its own level and the levels of the
  enclosing procedures, innermost first. The tables of local macros and of inlining candidates are not
  modelled: no operation here reads them.
\<close>

section \<open>State\<close>

record local_var =
  lo_name :: val
  lo_depth :: int
  lo_captured :: bool
  lo_dbg :: int

record upval_desc =
  ud_is_local :: bool
  ud_index :: nat
  ud_name :: val

record level =
  lv_chunk :: chunk
  lv_locals :: "local_var list"
  lv_scope_depth :: int
  lv_upvals :: "upval_desc list"
  lv_self_tail_name :: val
  lv_self_tail_mutated :: bool

text \<open>The finished chunks of nested procedures are kept with the compiler, by address.\<close>

record compiler =
  cp_level :: level
  cp_enclosing :: "level list"
  cp_chunks :: "val \<Rightarrow> chunk option"
  cp_nchunks :: nat

text \<open>
  What compiling consults: the heap the constants live in, the interned symbols, and the addresses of new
  chunks.
\<close>

record comp_env =
  ce_rt :: rt
  ce_symbol :: "string \<Rightarrow> val"
  ce_chunk_addr :: "nat \<Rightarrow> val"

definition MAX_LOCALS :: nat where "MAX_LOCALS = 256"
definition MAX_UPVALS :: nat where "MAX_UPVALS = 256"
definition MAX_CALL_ARGS :: nat where "MAX_CALL_ARGS = 255"

abbreviation cp_chunk :: "compiler \<Rightarrow> chunk" where "cp_chunk c \<equiv> lv_chunk (cp_level c)"
abbreviation cp_locals :: "compiler \<Rightarrow> local_var list" where "cp_locals c \<equiv> lv_locals (cp_level c)"
abbreviation chunk_pos :: "compiler \<Rightarrow> nat" where "chunk_pos c \<equiv> code_len (cp_chunk c)"

definition set_chunk :: "compiler \<Rightarrow> chunk \<Rightarrow> compiler" where
  "set_chunk c ck = c\<lparr>cp_level := (cp_level c)\<lparr>lv_chunk := ck\<rparr>\<rparr>"

definition set_locals :: "compiler \<Rightarrow> local_var list \<Rightarrow> compiler" where
  "set_locals c ls = c\<lparr>cp_level := (cp_level c)\<lparr>lv_locals := ls\<rparr>\<rparr>"

definition new_level :: level where
  "new_level = \<lparr>lv_chunk = chunk_new, lv_locals = [], lv_scope_depth = 0, lv_upvals = [],
     lv_self_tail_name = V_FALSE, lv_self_tail_mutated = False\<rparr>"

text \<open>
  A root compiler, and the compiler of a procedure nested in another. The self-tail-call name that
  \<open>init_compiler\<close> takes over from its thread-local hand-off variable, and clears there, is an argument; so
  the source name and the target environment, which stay the same during one compilation, are those of
  the enclosing chunk.
\<close>

definition root_compiler :: "compiler" where
  "root_compiler = \<lparr>cp_level = new_level, cp_enclosing = [], cp_chunks = (\<lambda>_. None), cp_nchunks = 0\<rparr>"

definition init_compiler :: "compiler \<Rightarrow> val \<Rightarrow> bool \<Rightarrow> compiler" where
  "init_compiler enc self_tail_name self_tail_mutated = enc\<lparr>cp_level := new_level\<lparr>lv_chunk := chunk_new\<lparr>ck_source_name := ck_source_name (cp_chunk enc),
     ck_target_env := ck_target_env (cp_chunk enc)\<rparr>, lv_self_tail_name := self_tail_name, lv_self_tail_mutated := self_tail_mutated\<rparr>,
     cp_enclosing := cp_level enc # cp_enclosing enc\<rparr>"

section \<open>Emitting\<close>

definition emit_byte :: "compiler \<Rightarrow> u8 \<Rightarrow> int \<Rightarrow> compiler" where
  "emit_byte c b line = set_chunk c (snd (chunk_emit (cp_chunk c) b line))"

definition emit :: "compiler \<Rightarrow> opcode \<Rightarrow> int \<Rightarrow> compiler" where
  "emit c op line = emit_byte c (op_byte op) line"

definition emit_ab :: "compiler \<Rightarrow> opcode \<Rightarrow> u8 \<Rightarrow> int \<Rightarrow> compiler" where
  "emit_ab c op a line = emit_byte (emit c op line) a line"

definition emit_abc :: "compiler \<Rightarrow> opcode \<Rightarrow> u8 \<Rightarrow> u8 \<Rightarrow> int \<Rightarrow> compiler" where
  "emit_abc c op a b line = emit_byte (emit_ab c op a line) b line"

definition add_const :: "comp_env \<Rightarrow> compiler \<Rightarrow> val \<Rightarrow> (nat \<times> compiler) res" where
  "add_const e c v = rbind (chunk_add_const (ce_rt e) (cp_chunk c) v) (\<lambda>(i, ck). Inr (i, set_chunk c ck))"

text \<open>The wide form is for indices that \<open>chunk_add_const\<close> never returns.\<close>

definition emit_const :: "comp_env \<Rightarrow> compiler \<Rightarrow> val \<Rightarrow> int \<Rightarrow> compiler res" where
  "emit_const e c v line =
     rbind (add_const e c v) (\<lambda>(idx, c1).
       Inr (if idx < 256 then emit_byte (emit c1 OP_CONST line) (word_of_nat idx) line
            else let c2 = emit c1 OP_CONST_W line in set_chunk c2 (chunk_emit16 (cp_chunk c2) (word_of_nat idx) line)))"

definition emit_jump :: "compiler \<Rightarrow> opcode \<Rightarrow> int \<Rightarrow> nat \<times> compiler" where
  "emit_jump c op line =
     (let c1 = emit c op line in (chunk_pos c1, set_chunk c1 (chunk_emit16 (cp_chunk c1) 0xFFFF line)))"

definition patch16 :: "compiler \<Rightarrow> nat \<Rightarrow> nat \<Rightarrow> compiler res" where
  "patch16 c at target = rbind (chunk_patch16 (cp_chunk c) at (word_of_nat target)) (\<lambda>ck. Inr (set_chunk c ck))"

text \<open>A target that does not fit two bytes is reported on \<open>stderr\<close> and truncated.\<close>

definition patch_jump :: "compiler \<Rightarrow> nat \<Rightarrow> compiler res" where
  "patch_jump c placeholder = patch16 c placeholder (chunk_pos c)"

section \<open>Scopes and locals\<close>

definition begin_scope :: "compiler \<Rightarrow> compiler" where
  "begin_scope c = c\<lparr>cp_level := (cp_level c)\<lparr>lv_scope_depth := lv_scope_depth (cp_level c) + 1\<rparr>\<rparr>"

text \<open>The loop over the locals of the scope, last first: close captured ones, end their debug range, drop them.\<close>

function pop_locals :: "compiler \<Rightarrow> int \<Rightarrow> nat \<Rightarrow> nat \<times> compiler" where
  "pop_locals c line n =
     (if cp_locals c \<noteq> [] \<and> lo_depth (last (cp_locals c)) > lv_scope_depth (cp_level c)
      then let i = length (cp_locals c) - 1;
               c1 = (if lo_captured (last (cp_locals c)) then emit_ab c OP_CLOSE_UP (word_of_nat i) line else c);
               c2 = set_chunk c1 (chunk_local_debug_end (cp_chunk c1) (lo_dbg (last (cp_locals c))) (int (chunk_pos c1)))
           in pop_locals (set_locals c2 (butlast (cp_locals c))) line (n + 1)
      else (n, c))"
  by pat_completeness auto
termination
  by (relation "measure (\<lambda>(c, line, n). length (cp_locals c))") (auto simp: set_locals_def Let_def)

declare pop_locals.simps [simp del]

definition end_scope :: "compiler \<Rightarrow> int \<Rightarrow> compiler" where
  "end_scope c line =
     (let c1 = c\<lparr>cp_level := (cp_level c)\<lparr>lv_scope_depth := lv_scope_depth (cp_level c) - 1\<rparr>\<rparr>
      in case pop_locals c1 line 0 of (n, c2) \<Rightarrow> if n > 0 then emit_ab c2 OP_SLIDE (word_of_nat n) line else c2)"

definition too_many_locals :: scm_error where
  "too_many_locals = Raise ''compile: too many local variables in one procedure''"

definition check_call_argc :: "nat \<Rightarrow> unit res" where
  "check_call_argc argc = (if argc > MAX_CALL_ARGS then Inl (Raise ''compile: too many arguments in one call'') else Inr ())"

definition add_local :: "compiler \<Rightarrow> val \<Rightarrow> (nat \<times> compiler) res" where
  "add_local c name =
     (if length (cp_locals c) = MAX_LOCALS then Inl too_many_locals
      else case chunk_local_debug_add (cp_chunk c) name (int (length (cp_locals c))) (int (chunk_pos c)) of
        (dbg, ck) \<Rightarrow> Inr (length (cp_locals c), set_locals (set_chunk c ck) (cp_locals c @
           [\<lparr>lo_name = name, lo_depth = lv_scope_depth (cp_level c), lo_captured = False, lo_dbg = dbg\<rparr>])))"

text \<open>
  A placeholder for a value that is on the machine's stack but is no variable: its name \<open>#f\<close> is never
  looked up. It is never closed by a scope, so its debug index is not read; -1 stands for the stale one. At
  the limit nothing is reserved, which no caller checks.
\<close>

definition reserve_pending_slot :: "compiler \<Rightarrow> compiler" where
  "reserve_pending_slot c =
     (if length (cp_locals c) = MAX_LOCALS then c
      else set_locals c (cp_locals c @
        [\<lparr>lo_name = V_FALSE, lo_depth = lv_scope_depth (cp_level c), lo_captured = False, lo_dbg = -1\<rparr>]))"

definition release_pending_slots :: "compiler \<Rightarrow> nat \<Rightarrow> compiler" where
  "release_pending_slots c saved = set_locals c (take saved (cp_locals c))"

definition mark_initialised :: "compiler \<Rightarrow> compiler" where
  "mark_initialised c =
     (if cp_locals c \<noteq> []
      then set_locals c (butlast (cp_locals c) @ [(last (cp_locals c))\<lparr>lo_depth := lv_scope_depth (cp_level c)\<rparr>])
      else c)"

section \<open>Resolving names\<close>

text \<open>The innermost local of that name: the last one in the table.\<close>

definition find_local :: "local_var list \<Rightarrow> val \<Rightarrow> nat option" where
  "find_local ls name = find (\<lambda>i. lo_name (ls ! i) = name) (rev [0..<length ls])"

definition resolve_local :: "compiler \<Rightarrow> val \<Rightarrow> nat option" where
  "resolve_local c name = find_local (cp_locals c) name"

definition add_upvalue :: "level \<Rightarrow> nat \<Rightarrow> bool \<Rightarrow> val \<Rightarrow> (nat \<times> level) res" where
  "add_upvalue lv index is_local name =
     (case find (\<lambda>i. ud_index (lv_upvals lv ! i) = index \<and> ud_is_local (lv_upvals lv ! i) = is_local)
             [0..<length (lv_upvals lv)] of
        Some i \<Rightarrow> Inr (i, lv)
      | None \<Rightarrow>
          if length (lv_upvals lv) = MAX_UPVALS then Inl (Raise ''compile: a procedure captures too many variables'')
          else Inr (length (lv_upvals lv),
            lv\<lparr>lv_upvals := lv_upvals lv @ [\<lparr>ud_is_local = is_local, ud_index = index, ud_name = name\<rparr>],
               lv_chunk := (lv_chunk lv)\<lparr>ck_upval_count := length (lv_upvals lv) + 1\<rparr>\<rparr>))"

definition mark_captured :: "level \<Rightarrow> nat \<Rightarrow> level" where
  "mark_captured lv i = lv\<lparr>lv_locals := (lv_locals lv)[i := (lv_locals lv ! i)\<lparr>lo_captured := True\<rparr>]\<rparr>"

text \<open>The level looks in the next enclosing one, which may capture from its own enclosing ones in turn.\<close>

fun resolve_upvalue_in :: "level \<Rightarrow> level list \<Rightarrow> val \<Rightarrow> (nat option \<times> level \<times> level list) res" where
  "resolve_upvalue_in lv [] name = Inr (None, lv, [])"
| "resolve_upvalue_in lv (enc # encs) name =
     (case find_local (lv_locals enc) name of
        Some i \<Rightarrow> rbind (add_upvalue lv i True name) (\<lambda>(u, lv'). Inr (Some u, lv', mark_captured enc i # encs))
      | None \<Rightarrow> rbind (resolve_upvalue_in enc encs name) (\<lambda>(found, enc', encs'). case found of
          Some up \<Rightarrow> rbind (add_upvalue lv up False name) (\<lambda>(u, lv'). Inr (Some u, lv', enc' # encs'))
        | None \<Rightarrow> Inr (None, lv, enc' # encs')))"

definition resolve_upvalue :: "compiler \<Rightarrow> val \<Rightarrow> (nat option \<times> compiler) res" where
  "resolve_upvalue c name = rbind (resolve_upvalue_in (cp_level c) (cp_enclosing c) name)
     (\<lambda>(found, lv, encs). Inr (found, c\<lparr>cp_level := lv, cp_enclosing := encs\<rparr>))"

definition is_upvalue_reachable :: "compiler \<Rightarrow> val \<Rightarrow> bool" where
  "is_upvalue_reachable c name \<longleftrightarrow> (\<exists>enc \<in> set (cp_enclosing c). find_local (lv_locals enc) name \<noteq> None)"

text \<open>Load or store a variable, by the kind it resolves to.\<close>

definition emit_var :: "opcode \<Rightarrow> opcode \<Rightarrow> opcode \<Rightarrow> comp_env \<Rightarrow> compiler \<Rightarrow> val \<Rightarrow> int \<Rightarrow> compiler res" where
  "emit_var op_local op_up op_global e c name line =
     (case resolve_local c name of
        Some i \<Rightarrow> Inr (emit_ab c op_local (word_of_nat i) line)
      | None \<Rightarrow> rbind (resolve_upvalue c name) (\<lambda>(found, c1). case found of
          Some u \<Rightarrow> Inr (emit_ab c1 op_up (word_of_nat u) line)
        | None \<Rightarrow> rbind (add_const e c1 name) (\<lambda>(ci, c2). Inr (emit_ab c2 op_global (word_of_nat ci) line))))"

definition emit_load :: "comp_env \<Rightarrow> compiler \<Rightarrow> val \<Rightarrow> int \<Rightarrow> compiler res" where
  "emit_load = emit_var OP_LOAD_LOCAL OP_LOAD_UP OP_LOAD_GLOBAL"

definition emit_store :: "comp_env \<Rightarrow> compiler \<Rightarrow> val \<Rightarrow> int \<Rightarrow> compiler res" where
  "emit_store = emit_var OP_STORE_LOCAL OP_STORE_UP OP_STORE_GLOBAL"

text \<open>The store half of a definition, and the value of the definition itself.\<close>

definition emit_define_store :: "comp_env \<Rightarrow> compiler \<Rightarrow> val \<Rightarrow> int \<Rightarrow> compiler res" where
  "emit_define_store e c name line =
     rbind (if lv_scope_depth (cp_level c) = 0
            then rbind (add_const e c name) (\<lambda>(ci, c1). Inr (emit_ab c1 OP_DEF_GLOBAL (word_of_nat ci) line))
            else case resolve_local c name of
              Some slot \<Rightarrow>
                if lo_depth (cp_locals c ! slot) < 0
                then Inr (emit_ab (set_locals c ((cp_locals c)[slot := (cp_locals c ! slot)\<lparr>lo_depth := lv_scope_depth (cp_level c)\<rparr>]))
                            OP_STORE_LOCAL (word_of_nat slot) line)
                else rbind (add_local c name) (\<lambda>(i, c1). Inr (emit_ab (mark_initialised c1) OP_STORE_LOCAL (word_of_nat i) line))
            | None \<Rightarrow> rbind (add_local c name) (\<lambda>(i, c1). Inr (emit_ab (mark_initialised c1) OP_STORE_LOCAL (word_of_nat i) line)))
       (\<lambda>c1. Inr (emit c1 OP_VOID line))"

section \<open>Procedures\<close>

fun compile_params :: "compiler \<Rightarrow> val list \<Rightarrow> val option \<Rightarrow> (int \<times> compiler) res" where
  "compile_params c [] None = Inr (0, c)"
| "compile_params c [] (Some rest) = rbind (add_local c rest) (\<lambda>(_, c1). Inr (- 1, mark_initialised c1))"
| "compile_params c (p # ps) rest =
     rbind (add_local c p) (\<lambda>(_, c1). rbind (compile_params (mark_initialised c1) ps rest) (\<lambda>(arity, c2).
       Inr (if arity \<ge> 0 then arity + 1 else arity - 1, c2)))"

text \<open>
  The reservation of a local for every name the body defines, in the order of the definitions: a slot with
  depth -1 until its definition is reached, and an \<open>OP_VOID\<close> that puts a value in it. Which names a body
  defines is found in its source text and is an argument here.
\<close>

fun lambda_prescan :: "compiler \<Rightarrow> val list \<Rightarrow> int \<Rightarrow> compiler res" where
  "lambda_prescan c [] line = Inr c"
| "lambda_prescan c (name # names) line =
     rbind (add_local c name) (\<lambda>(slot, c1). lambda_prescan
       (emit (set_locals c1 ((cp_locals c1)[slot := (cp_locals c1 ! slot)\<lparr>lo_depth := -1\<rparr>])) OP_VOID line) names line)"

definition end_compiler :: "compiler \<Rightarrow> chunk" where
  "end_compiler c =
     chunk_local_debug_finalize ((snd (chunk_emit (cp_chunk c) (op_byte OP_RETURN) 0))\<lparr>ck_upval_count := length (lv_upvals (cp_level c))\<rparr>)"

end
