(* ===== verification/Ir_Emit.thy ===== *)
theory Ir_Emit
  imports Compiler
begin

text \<open>
  The tree representation of expressions (\<open>src/src/ir.h\<close>), its optimiser (\<open>ir_optimize\<close> in
  \<open>src/src/ir_lower.c\<close>) and the emission of bytecode from it (\<open>src/src/ir_emit.c\<close>).

  A node is as \<open>ir_lower\<close> builds it, with two differences. The \<open>tail\<close> field of a node is not stored but
  passed down by the emission, with the rule by which \<open>ir_lower\<close> sets it. The bodies of procedures and of
  \<open>begin\<close>, which the code keeps as source lists and lowers one form at a time during emission, are the
  lists of the lowered forms, each with its source line, beside the names that the body defines.
  \<open>IR_FALLBACK\<close>, which hands a form to the classic compiler, and the inlining of known local procedures are
  not modelled.
\<close>

section \<open>Nodes\<close>

datatype ir =
    IR_CONST int val bool
  | IR_VAR_REF int val
  | IR_IF int ir ir ir
  | IR_SEQ int "(int \<times> ir) list"
  | IR_SET int val ir
  | IR_AND int "ir list"
  | IR_OR int "ir list"
  | IR_DEFINE int val ir
  | IR_CALL int val ir "ir list"
  | IR_LAMBDA int "val list" "val option" "val list" "(int \<times> ir) list"
  | IR_NAMED_LET int val "val list" "ir list" bool "val list" "(int \<times> ir) list"

text \<open>
  The fields are: of a constant, whether it was quoted; of a call, its head as written, or \<open>#f\<close> for the
  call that a \<open>let\<close> is lowered to, the lowered head and the arguments; of a procedure, its parameters, its
  rest parameter, the names its body defines and the body; of a named \<open>let\<close>, the loop's name, the variables,
  their initial values, whether the body assigns the loop's name (\<open>body_mentions_set_target\<close>), the names
  the body defines and the body.
\<close>

section \<open>Optimisation\<close>

definition is_const :: "ir \<Rightarrow> val option" where
  "is_const n = (case n of IR_CONST _ v _ \<Rightarrow> Some v | _ \<Rightarrow> None)"

text \<open>The loop of \<open>ir_optimize_andor\<close> over the optimised items.\<close>

fun optimize_andor :: "bool \<Rightarrow> ir list \<Rightarrow> ir list" where
  "optimize_andor falsy_ends [] = []"
| "optimize_andor falsy_ends [n] = [n]"
| "optimize_andor falsy_ends (n # m # ns) =
     (case is_const n of
        Some v \<Rightarrow> if (v = V_FALSE) = falsy_ends then [n] else optimize_andor falsy_ends (m # ns)
      | None \<Rightarrow> n # optimize_andor falsy_ends (m # ns))"

fun ir_optimize :: "ir \<Rightarrow> ir" where
  "ir_optimize (IR_IF line test thn els) =
     (let test' = ir_optimize test
      in case is_const test' of
           Some v \<Rightarrow> if v \<noteq> V_FALSE then ir_optimize thn else ir_optimize els
         | None \<Rightarrow> IR_IF line test' (ir_optimize thn) (ir_optimize els))"
| "ir_optimize (IR_SET line name n) = IR_SET line name (ir_optimize n)"
| "ir_optimize (IR_AND line ns) = IR_AND line (optimize_andor True (map ir_optimize ns))"
| "ir_optimize (IR_OR line ns) = IR_OR line (optimize_andor False (map ir_optimize ns))"
| "ir_optimize (IR_DEFINE line name n) = IR_DEFINE line name (ir_optimize n)"
| "ir_optimize (IR_CALL line head callee args) = IR_CALL line head (ir_optimize callee) (map ir_optimize args)"
| "ir_optimize n = n"

section \<open>Emission\<close>

type_synonym emitter = "bool \<Rightarrow> compiler \<Rightarrow> ir \<Rightarrow> compiler res"

text \<open>The argument loop of every kind of call: each value is reserved before the next one is emitted.\<close>

fun emit_args :: "emitter \<Rightarrow> ir list \<Rightarrow> compiler \<Rightarrow> compiler res" where
  "emit_args f [] c = Inr c"
| "emit_args f (n # ns) c = rbind (f False c n) (\<lambda>c1. emit_args f ns (reserve_pending_slot c1))"

text \<open>The forms of a body, with an \<open>OP_POP\<close> after every form but the last.\<close>

fun emit_forms :: "emitter \<Rightarrow> bool \<Rightarrow> (int \<times> ir) list \<Rightarrow> compiler \<Rightarrow> compiler res" where
  "emit_forms f tail [] c = Inr c"
| "emit_forms f tail [(line, n)] c = f tail c n"
| "emit_forms f tail ((line, n) # p # ps) c =
     rbind (f False c n) (\<lambda>c1. emit_forms f tail (p # ps) (emit c1 OP_POP line))"

definition emit_body :: "emitter \<Rightarrow> bool \<Rightarrow> int \<Rightarrow> (int \<times> ir) list \<Rightarrow> compiler \<Rightarrow> compiler res" where
  "emit_body f tail line body c = (if body = [] then Inr (emit c OP_VOID line) else emit_forms f tail body c)"

text \<open>The items of \<open>and\<close> and \<open>or\<close>, with the placeholders of the jumps after all but the last.\<close>

fun emit_and :: "emitter \<Rightarrow> bool \<Rightarrow> int \<Rightarrow> ir list \<Rightarrow> compiler \<Rightarrow> (nat list \<times> compiler) res" where
  "emit_and f tail line [] c = Inr ([], c)"
| "emit_and f tail line [n] c = rbind (f tail c n) (\<lambda>c1. Inr ([], c1))"
| "emit_and f tail line (n # m # ns) c =
     rbind (f False c n) (\<lambda>c1. case emit_jump c1 OP_JUMP_FALSE line of
       (at, c2) \<Rightarrow> rbind (emit_and f tail line (m # ns) c2) (\<lambda>(ats, c3). Inr (at # ats, c3)))"

fun emit_or :: "emitter \<Rightarrow> int \<Rightarrow> ir list \<Rightarrow> compiler \<Rightarrow> (nat list \<times> compiler) res" where
  "emit_or f line [] c = Inr ([], c)"
| "emit_or f line [n] c = rbind (f False c n) (\<lambda>c1. Inr ([], c1))"
| "emit_or f line (n # m # ns) c =
     rbind (f False c n) (\<lambda>c1. case emit_jump (emit c1 OP_DUP line) OP_JUMP_TRUE line of
       (at, c2) \<Rightarrow> rbind (emit_or f line (m # ns) (emit c2 OP_POP line)) (\<lambda>(ats, c3). Inr (at # ats, c3)))"

fun patch_all :: "nat \<Rightarrow> nat list \<Rightarrow> compiler \<Rightarrow> compiler res" where
  "patch_all target [] c = Inr c"
| "patch_all target (at # ats) c = rbind (patch16 c at target) (\<lambda>c1. patch_all target ats c1)"

section \<open>Calls\<close>

text \<open>Give the reserved slots from \<open>base\<close> on the names of the parameters, with fresh debug entries.\<close>

fun claim_params :: "nat \<Rightarrow> val list \<Rightarrow> compiler \<Rightarrow> compiler" where
  "claim_params slot [] c = c"
| "claim_params slot (name # names) c =
     (case chunk_local_debug_add (cp_chunk c) name (int slot) (int (chunk_pos c)) of
        (dbg, ck) \<Rightarrow> claim_params (slot + 1) names
          (set_locals (set_chunk c ck) ((cp_locals c)[slot := (cp_locals c ! slot)\<lparr>lo_name := name, lo_dbg := dbg\<rparr>])))"

definition ir_emit_inline_call :: "emitter \<Rightarrow> bool \<Rightarrow> compiler \<Rightarrow> val list \<Rightarrow> val list \<Rightarrow> (int \<times> ir) list \<Rightarrow> ir list \<Rightarrow> int \<Rightarrow> compiler res" where
  "ir_emit_inline_call f tail c params defs body args line =
     rbind (emit_args f args (begin_scope c)) (\<lambda>c1.
     rbind (lambda_prescan (claim_params (length (cp_locals c)) (take (length args) params) c1) defs line) (\<lambda>c2.
     rbind (emit_body f tail line body c2) (\<lambda>c3. Inr (end_scope c3 line))))"

definition open_code_table :: "(string \<times> opcode \<times> nat) list" where
  "open_code_table = [(''car'', OP_CAR, 1), (''cdr'', OP_CDR, 1), (''pair?'', OP_PAIRP, 1), (''null?'', OP_NULLP, 1),
     (''cons'', OP_CONS, 2), (''+'', OP_ADD, 2), (''-'', OP_SUB, 2), (''*'', OP_MUL, 2), (''='', OP_NUMEQ, 2),
     (''<'', OP_LT, 2), (''<='', OP_LE, 2), (''>'', OP_GT, 2), (''>='', OP_GE, 2)]"

definition open_code :: "comp_env \<Rightarrow> val \<Rightarrow> nat \<Rightarrow> opcode option" where
  "open_code e head argc =
     map_option (\<lambda>(_, opc, _). opc) (find (\<lambda>(name, opc, arity). arity = argc \<and> ce_symbol e name = head) open_code_table)"

definition vis_symbol :: "rt \<Rightarrow> val \<Rightarrow> bool" where
  "vis_symbol r v \<longleftrightarrow> (case obj_at r v of Some (OSymbol _ _) \<Rightarrow> True | _ \<Rightarrow> False)"

text \<open>A keyword symbol is one whose name starts with \<open>#:\<close> (bytes 35 and 58).\<close>

definition is_keyword_symbol :: "rt \<Rightarrow> val \<Rightarrow> bool" where
  "is_keyword_symbol r v \<longleftrightarrow> (case obj_at r v of Some (OSymbol name _) \<Rightarrow> length name \<ge> 2 \<and> name ! 0 = 35 \<and> name ! 1 = 58 | _ \<Rightarrow> False)"

text \<open>Arguments bracketed by the release of their reservations.\<close>

definition emit_pending :: "emitter \<Rightarrow> ir list \<Rightarrow> compiler \<Rightarrow> compiler res" where
  "emit_pending f args c = rbind (emit_args f args c) (\<lambda>c1. Inr (release_pending_slots c1 (length (cp_locals c))))"

text \<open>The branch for a head that is no local and no captured variable.\<close>

definition emit_call_global :: "comp_env \<Rightarrow> emitter \<Rightarrow> bool \<Rightarrow> compiler \<Rightarrow> val \<Rightarrow> ir list \<Rightarrow> int \<Rightarrow> compiler res" where
  "emit_call_global e f tail c head args line =
     (case (if \<not> tail \<and> length args \<in> {1, 2} then open_code e head (length args) else None) of
        Some opc \<Rightarrow> rbind (add_const e c head) (\<lambda>(sym_ci, c1).
          rbind (if length args = 1 then f False c1 (args ! 0) else emit_pending f args c1) (\<lambda>c2.
            Inr (emit_ab c2 opc (word_of_nat sym_ci) line)))
      | None \<Rightarrow> rbind (add_const e c head) (\<lambda>(ci, c1). rbind (emit_pending f args c1) (\<lambda>c2.
          Inr (emit_abc c2 (if tail then OP_TAIL_CALL_GLOBAL else OP_CALL_GLOBAL) (word_of_nat ci) (word_of_nat (length args)) line))))"

definition emit_call_generic :: "emitter \<Rightarrow> bool \<Rightarrow> compiler \<Rightarrow> ir \<Rightarrow> ir list \<Rightarrow> int \<Rightarrow> compiler res" where
  "emit_call_generic f tail c callee args line =
     rbind (emit_pending f (callee # args) c) (\<lambda>c1.
       Inr (emit_ab c1 (if tail then OP_TAIL_CALL else OP_CALL) (word_of_nat (length args)) line))"

definition is_self_tail_call :: "comp_env \<Rightarrow> bool \<Rightarrow> compiler \<Rightarrow> val \<Rightarrow> bool" where
  "is_self_tail_call e tail c head \<longleftrightarrow>
     tail \<and> vis_symbol (ce_rt e) head \<and> lv_self_tail_name (cp_level c) \<noteq> V_FALSE \<and>
     head = lv_self_tail_name (cp_level c) \<and> \<not> lv_self_tail_mutated (cp_level c) \<and> resolve_local c head = None"

text \<open>The branches of a call that is not the call of a \<open>let\<close>, in the order of the code.\<close>

definition emit_call_by_head :: "comp_env \<Rightarrow> emitter \<Rightarrow> bool \<Rightarrow> compiler \<Rightarrow> val \<Rightarrow> ir \<Rightarrow> ir list \<Rightarrow> int \<Rightarrow> compiler res" where
  "emit_call_by_head e f tail c head callee args line =
     (if is_self_tail_call e tail c head
      then rbind (resolve_upvalue c head) (\<lambda>(_, c1). rbind (emit_pending f args c1) (\<lambda>c2.
             Inr (emit_ab c2 OP_SELF_TAIL_CALL (word_of_nat (length args)) line)))
      else if vis_symbol (ce_rt e) head \<and> \<not> is_keyword_symbol (ce_rt e) head \<and> resolve_local c head = None
      then rbind (resolve_upvalue c head) (\<lambda>(found, c1).
             if found = None then emit_call_global e f tail c1 head args line
             else emit_call_generic f tail c1 callee args line)
      else emit_call_generic f tail c callee args line)"

definition emit_call :: "comp_env \<Rightarrow> emitter \<Rightarrow> bool \<Rightarrow> compiler \<Rightarrow> val \<Rightarrow> ir \<Rightarrow> ir list \<Rightarrow> int \<Rightarrow> compiler res" where
  "emit_call e f tail c head callee args line =
     (case callee of
        IR_LAMBDA _ params rest defs body \<Rightarrow>
          if head = V_FALSE \<and> length (cp_locals c) + length args < MAX_LOCALS
          then ir_emit_inline_call f tail c params defs body args line
          else emit_call_by_head e f tail c head callee args line
      | _ \<Rightarrow> emit_call_by_head e f tail c head callee args line)"

section \<open>Procedures\<close>

text \<open>Leave the compiler of a nested procedure: the chunk gets an address, the enclosing level continues.\<close>

definition leave_compiler :: "comp_env \<Rightarrow> compiler \<Rightarrow> val \<times> compiler" where
  "leave_compiler e child =
     (let addr = ce_chunk_addr e (cp_nchunks child)
      in (addr, \<lparr>cp_level = hd (cp_enclosing child), cp_enclosing = tl (cp_enclosing child),
                 cp_chunks = (cp_chunks child)(addr \<mapsto> end_compiler child), cp_nchunks = cp_nchunks child + 1\<rparr>))"

fun emit_captures :: "upval_desc list \<Rightarrow> int \<Rightarrow> compiler \<Rightarrow> compiler" where
  "emit_captures [] line c = c"
| "emit_captures (u # us) line c =
     emit_captures us line (emit_byte (emit_byte c (if ud_is_local u then 1 else 0) line) (word_of_nat (ud_index u)) line)"

definition emit_closure :: "comp_env \<Rightarrow> compiler \<Rightarrow> int \<Rightarrow> compiler res" where
  "emit_closure e child line =
     (case leave_compiler e child of (ch, c) \<Rightarrow> rbind (add_const e c ch) (\<lambda>(ci, c1).
        Inr (emit_captures (lv_upvals (cp_level child)) line (emit_ab c1 OP_CLOSURE (word_of_nat ci) line))))"

definition set_arity :: "compiler \<Rightarrow> int \<Rightarrow> compiler" where
  "set_arity c arity = set_chunk c ((cp_chunk c)\<lparr>ck_arity := arity\<rparr>)"

definition emit_lambda :: "comp_env \<Rightarrow> emitter \<Rightarrow> val \<Rightarrow> bool \<Rightarrow> compiler \<Rightarrow> int \<Rightarrow> val list \<Rightarrow> val option \<Rightarrow> val list \<Rightarrow> (int \<times> ir) list \<Rightarrow> compiler res" where
  "emit_lambda e f self mutated c line params rest defs body =
     rbind (compile_params (init_compiler c self mutated) params rest) (\<lambda>(arity, child).
     rbind (lambda_prescan (begin_scope (set_arity child arity)) defs line) (\<lambda>child1.
     rbind (emit_body f True line body child1) (\<lambda>child2. emit_closure e child2 line)))"

fun emit_reloads :: "nat \<Rightarrow> nat \<Rightarrow> int \<Rightarrow> compiler \<Rightarrow> compiler" where
  "emit_reloads slot 0 line c = c"
| "emit_reloads slot (Suc n) line c =
     emit_reloads (slot + 1) n line (reserve_pending_slot (emit_ab c OP_LOAD_LOCAL (word_of_nat slot) line))"

text \<open>
  A named \<open>let\<close>. With room for its slots it is compiled in place: the initial values, a slot for the loop
  procedure, the procedure stored there, then the procedure and the values pushed again for the call.
  Otherwise a wrapper procedure takes the initial values as parameters.
\<close>

definition emit_named_let :: "comp_env \<Rightarrow> emitter \<Rightarrow> bool \<Rightarrow> compiler \<Rightarrow> int \<Rightarrow> val \<Rightarrow> val list \<Rightarrow> ir list \<Rightarrow> bool \<Rightarrow> val list \<Rightarrow> (int \<times> ir) list \<Rightarrow> compiler res" where
  "emit_named_let e f tail c line loop vars inits mutated defs body =
     (let argc = length inits; base = length (cp_locals c) in
      if base + 2 * argc + 2 \<ge> MAX_LOCALS then
        rbind (compile_params (init_compiler c V_FALSE False) vars None) (\<lambda>(arity, w).
        rbind (add_local (set_arity w arity) loop) (\<lambda>(_, w1).
        rbind (emit_lambda e f loop mutated (emit (mark_initialised w1) OP_VOID line) line vars None defs body) (\<lambda>w2.
        let w3 = emit_ab (emit_ab w2 OP_STORE_LOCAL (word_of_nat argc) line) OP_LOAD_LOCAL (word_of_nat argc) line;
            w4 = fold (\<lambda>i w. emit_ab w OP_LOAD_LOCAL (word_of_nat i) line) [0..<argc] w3;
            w5 = emit_ab w4 OP_TAIL_CALL (word_of_nat argc) line
        in rbind (emit_closure e w5 line) (\<lambda>c1.
           rbind (emit_args f inits (reserve_pending_slot c1)) (\<lambda>c2.
           Inr (emit_ab (release_pending_slots c2 (length (cp_locals c1))) (if tail then OP_TAIL_CALL else OP_CALL) (word_of_nat argc) line))))))
      else
        rbind (emit_args f inits c) (\<lambda>c1.
        rbind (add_local c1 loop) (\<lambda>(slot, c2).
        rbind (emit_lambda e f loop mutated (emit (mark_initialised c2) OP_VOID line) line vars None defs body) (\<lambda>c3.
        let c4 = reserve_pending_slot (emit_ab (emit_ab c3 OP_STORE_LOCAL (word_of_nat slot) line) OP_LOAD_LOCAL (word_of_nat slot) line);
            c5 = release_pending_slots (emit_reloads base argc line c4) base
        in Inr (if tail then emit_ab c5 OP_TAIL_CALL (word_of_nat argc) line
                else emit_ab (emit_ab (emit_ab c5 OP_CALL (word_of_nat argc) line) OP_CLOSE_UP (word_of_nat base) line)
                       OP_SLIDE (word_of_nat (argc + 1)) line)))))"

section \<open>The nodes\<close>

definition emit_immediate :: "val \<Rightarrow> opcode option" where
  "emit_immediate v =
     (if v = V_TRUE then Some OP_TRUE else if v = V_FALSE then Some OP_FALSE
      else if v = V_NIL then Some OP_NIL else if v = V_VOID then Some OP_VOID else None)"

definition emit_node :: "comp_env \<Rightarrow> emitter \<Rightarrow> emitter" where
  "emit_node e f tail c n =
     (case n of
        IR_CONST line v quoted \<Rightarrow>
          (case (if quoted then None else emit_immediate v) of
             Some opc \<Rightarrow> Inr (emit c opc line)
           | None \<Rightarrow> emit_const e c v line)
      | IR_VAR_REF line name \<Rightarrow> emit_load e c name line
      | IR_IF line test thn els \<Rightarrow>
          rbind (f False c test) (\<lambda>c1. case emit_jump c1 OP_JUMP_FALSE line of
            (else_jmp, c2) \<Rightarrow> rbind (f tail c2 thn) (\<lambda>c3. case emit_jump c3 OP_JUMP line of
              (end_jmp, c4) \<Rightarrow> rbind (patch_jump c4 else_jmp) (\<lambda>c5. rbind (f tail c5 els) (\<lambda>c6. patch_jump c6 end_jmp))))
      | IR_SEQ line forms \<Rightarrow> emit_forms f tail forms c
      | IR_SET line name value \<Rightarrow>
          rbind (f False c value) (\<lambda>c1. rbind (emit_store e c1 name line) (\<lambda>c2. Inr (emit c2 OP_VOID line)))
      | IR_AND line ns \<Rightarrow>
          if ns = [] then Inr (emit c OP_TRUE line)
          else rbind (emit_and f tail line ns c) (\<lambda>(ats, c1). case emit_jump c1 OP_JUMP line of
            (end_jmp, c2) \<Rightarrow> rbind (patch_jump (emit c2 OP_FALSE line) end_jmp) (\<lambda>c3. patch_all (chunk_pos c2) ats c3))
      | IR_OR line ns \<Rightarrow>
          if ns = [] then Inr (emit c OP_FALSE line)
          else rbind (emit_or f line ns c) (\<lambda>(ats, c1). patch_all (chunk_pos c1) ats c1)
      | IR_DEFINE line name value \<Rightarrow> rbind (f False c value) (\<lambda>c1. emit_define_store e c1 name line)
      | IR_CALL line head callee args \<Rightarrow> emit_call e f tail c head callee args line
      | IR_LAMBDA line params rest defs body \<Rightarrow> emit_lambda e f V_FALSE False c line params rest defs body
      | IR_NAMED_LET line loop vars inits mutated defs body \<Rightarrow> emit_named_let e f tail c line loop vars inits mutated defs body)"

text \<open>Every call of \<open>ir_emit\<close> first checks the C stack; \<open>d\<close> is the number of nested calls that still fit.\<close>

primrec ir_emit :: "nat \<Rightarrow> comp_env \<Rightarrow> emitter" where
  "ir_emit 0 e tail c n = rbind (check_c_stack_depth 0 ''compile'') (\<lambda>_. Inr c)"
| "ir_emit (Suc d) e tail c n = rbind (check_c_stack_depth (Suc d) ''compile'') (\<lambda>_. emit_node e (ir_emit d e) tail c n)"

text \<open>\<open>compiler_compile\<close>: a lowered top-level form is optimised and emitted, not in tail position, before the final return.\<close>

definition compiler_compile :: "nat \<Rightarrow> comp_env \<Rightarrow> compiler \<Rightarrow> ir \<Rightarrow> int \<Rightarrow> compiler res" where
  "compiler_compile d e c n line =
     rbind (ir_emit d e False c (ir_optimize n)) (\<lambda>c1. Inr (set_chunk c1 ((snd (chunk_emit (cp_chunk c1) (op_byte OP_RETURN) line))\<lparr>ck_upval_count := 0\<rparr>)))"

end
