(* ===== verification/Ir_Semantics.thy ===== *)
theory Ir_Semantics
  imports Ir_Emit Vm_Calls
begin

text \<open>
  A reference evaluation of the tree representation, to compare the optimiser and the emitted code with:
  local variables are an environment of names and values, innermost last, and everything else is the state
  of the machine without its stacks. It covers the forms that create no procedure. The value of a heap
  constant is given by \<open>rep\<close>, because a chunk may load another constant that is equal to it. A call is
  \<open>apply_arr\<close>; \<open>compiled\<close> marks the callees that the machine does not hand to \<open>apply_arr\<close> but enters itself,
  and calling one is left undefined here.
\<close>

section \<open>Environments\<close>

type_synonym locals = "(val \<times> val) list"
type_synonym 'a ev = "locals \<Rightarrow> vm \<Rightarrow> 'a res \<times> locals \<times> vm"

definition ebind :: "'a ev \<Rightarrow> ('a \<Rightarrow> 'b ev) \<Rightarrow> 'b ev" where
  "ebind m k env w = (case m env w of (Inl e, env', w') \<Rightarrow> (Inl e, env', w') | (Inr v, env', w') \<Rightarrow> k v env' w')"

definition eret :: "'a \<Rightarrow> 'a ev" where
  "eret v env w = (Inr v, env, w)"

definition local_index :: "locals \<Rightarrow> val \<Rightarrow> nat option" where
  "local_index env name = find (\<lambda>i. fst (env ! i) = name) (rev [0..<length env])"

record sem =
  m_vm :: vm_ext
  m_rt :: rt
  m_env :: val
  m_rep :: "val \<Rightarrow> val"

definition global_value :: "sem \<Rightarrow> val \<Rightarrow> val ev" where
  "global_value m name env w =
     (case v_globals w (m_env m) name of None \<Rightarrow> (Inl unbound_variable, env, w) | Some v \<Rightarrow> (Inr v, env, w))"

definition variable_value :: "sem \<Rightarrow> val \<Rightarrow> val ev" where
  "variable_value m name env w =
     (case local_index env name of Some i \<Rightarrow> (Inr (snd (env ! i)), env, w) | None \<Rightarrow> global_value m name env w)"

text \<open>Assigning an unbound global has no effect but a message on \<open>stderr\<close>.\<close>

definition assign :: "sem \<Rightarrow> val \<Rightarrow> val \<Rightarrow> val ev" where
  "assign m name v env w =
     (case local_index env name of
        Some i \<Rightarrow> (Inr V_VOID, env[i := (name, v)], w)
      | None \<Rightarrow> (Inr V_VOID, env, if v_globals w (m_env m) name = None then w else bind_global (m_env m) name v w))"

definition call_value :: "sem \<Rightarrow> val \<Rightarrow> val list \<Rightarrow> val ev" where
  "call_value m f args env w =
     (if vis_bcclosure f w then (Inl Undefined, env, w)
      else case x_apply (m_vm m) f (int (length args)) args w of (r, w') \<Rightarrow> (r, env, w'))"

section \<open>Evaluation\<close>

text \<open>The value of a form inside a \<open>let\<close>: the variables are added to the environment, and dropped after.\<close>

definition with_locals :: "val list \<Rightarrow> val list \<Rightarrow> 'a ev \<Rightarrow> 'a ev" where
  "with_locals names vs m env w =
     (case m (env @ zip names vs) w of (r, env', w') \<Rightarrow> (r, take (length env) env', w'))"

definition const_value :: "sem \<Rightarrow> val \<Rightarrow> bool \<Rightarrow> val" where
  "const_value m v quoted = (if \<not> quoted \<and> emit_immediate v \<noteq> None then v else m_rep m v)"

definition head_is_global :: "sem \<Rightarrow> locals \<Rightarrow> val \<Rightarrow> bool" where
  "head_is_global m env head \<longleftrightarrow>
     vis_symbol (m_rt m) head \<and> \<not> is_keyword_symbol (m_rt m) head \<and> local_index env head = None"

definition eval_call :: "sem \<Rightarrow> val \<Rightarrow> val ev \<Rightarrow> val list ev \<Rightarrow> val ev" where
  "eval_call m head callee args env w =
     (if head_is_global m env head
      then ebind args (\<lambda>vs. ebind (global_value m head) (\<lambda>f. call_value m f vs)) env w
      else ebind callee (\<lambda>f. ebind args (\<lambda>vs. call_value m f vs)) env w)"

fun ir_eval :: "sem \<Rightarrow> ir \<Rightarrow> val ev"
  and eval_args :: "sem \<Rightarrow> ir list \<Rightarrow> val list ev"
  and eval_forms :: "sem \<Rightarrow> (int \<times> ir) list \<Rightarrow> val ev"
  and eval_and :: "sem \<Rightarrow> ir list \<Rightarrow> val ev"
  and eval_or :: "sem \<Rightarrow> ir list \<Rightarrow> val ev" where
  "ir_eval m (IR_CONST line v quoted) = eret (const_value m v quoted)"
| "ir_eval m (IR_VAR_REF line name) = variable_value m name"
| "ir_eval m (IR_IF line test thn els) = ebind (ir_eval m test) (\<lambda>v. if v = V_FALSE then ir_eval m els else ir_eval m thn)"
| "ir_eval m (IR_SEQ line forms) = eval_forms m forms"
| "ir_eval m (IR_SET line name n) = ebind (ir_eval m n) (\<lambda>v. assign m name v)"
| "ir_eval m (IR_AND line ns) = eval_and m ns"
| "ir_eval m (IR_OR line ns) = eval_or m ns"
| "ir_eval m (IR_DEFINE line name n) =
     ebind (ir_eval m n) (\<lambda>v env w. (Inr V_VOID, env, bind_global (m_env m) name v w))"
| "ir_eval m (IR_CALL line head callee args) =
     (case callee of
        IR_LAMBDA _ params rest defs body \<Rightarrow>
          if head = V_FALSE then ebind (eval_args m args) (\<lambda>vs. with_locals params vs (eval_forms m body))
          else eval_call m head (ir_eval m callee) (eval_args m args)
      | _ \<Rightarrow> eval_call m head (ir_eval m callee) (eval_args m args))"
| "ir_eval m (IR_LAMBDA line params rest defs body) = (\<lambda>env w. (Inl Undefined, env, w))"
| "ir_eval m (IR_NAMED_LET line loop vars inits mutated defs body) = (\<lambda>env w. (Inl Undefined, env, w))"
| "eval_args m [] = eret []"
| "eval_args m (n # ns) = ebind (ir_eval m n) (\<lambda>v. ebind (eval_args m ns) (\<lambda>vs. eret (v # vs)))"
| "eval_forms m [] = eret V_VOID"
| "eval_forms m [(line, n)] = ir_eval m n"
| "eval_forms m ((line, n) # p # ps) = ebind (ir_eval m n) (\<lambda>_. eval_forms m (p # ps))"
| "eval_and m [] = eret V_TRUE"
| "eval_and m [n] = ir_eval m n"
| "eval_and m (n # k # ns) = ebind (ir_eval m n) (\<lambda>v. if v = V_FALSE then eret V_FALSE else eval_and m (k # ns))"
| "eval_or m [] = eret V_FALSE"
| "eval_or m [n] = ir_eval m n"
| "eval_or m (n # k # ns) = ebind (ir_eval m n) (\<lambda>v. if v = V_FALSE then eval_or m (k # ns) else eret v)"

section \<open>The optimiser\<close>

text \<open>
  What \<open>ir_lower\<close> guarantees of the calls outside procedure bodies and \<open>begin\<close> forms: the head \<open>#f\<close> is only
  written for the call of a \<open>let\<close>, whose callee is a procedure.
\<close>

definition is_lambda :: "ir \<Rightarrow> bool" where
  "is_lambda n = (case n of IR_LAMBDA _ _ _ _ _ \<Rightarrow> True | _ \<Rightarrow> False)"

fun lowered :: "ir \<Rightarrow> bool" where
  "lowered (IR_IF line test thn els) \<longleftrightarrow> lowered test \<and> lowered thn \<and> lowered els"
| "lowered (IR_SET line name n) \<longleftrightarrow> lowered n"
| "lowered (IR_AND line ns) \<longleftrightarrow> list_all lowered ns"
| "lowered (IR_OR line ns) \<longleftrightarrow> list_all lowered ns"
| "lowered (IR_DEFINE line name n) \<longleftrightarrow> lowered n"
| "lowered (IR_CALL line head callee args) \<longleftrightarrow>
     (head = V_FALSE \<longrightarrow> is_lambda callee) \<and> lowered callee \<and> list_all lowered args"
| "lowered n \<longleftrightarrow> True"

definition rep_keeps_false :: "sem \<Rightarrow> bool" where
  "rep_keeps_false m \<longleftrightarrow> (\<forall>v. m_rep m v = V_FALSE \<longleftrightarrow> v = V_FALSE)"

lemma ebind_eret [simp]: "ebind (eret v) k = k v"
  by (rule ext)+ (simp add: ebind_def eret_def)

lemma is_const_eval:
  assumes "rep_keeps_false m" "is_const n = Some v"
  obtains v' where "ir_eval m n = eret v'" "v' = V_FALSE \<longleftrightarrow> v = V_FALSE"
  using assms by (cases n) (auto simp: is_const_def const_value_def rep_keeps_false_def)

lemma is_lambda_optimize: "is_lambda n \<Longrightarrow> ir_optimize n = n"
  by (cases n) (auto simp: is_lambda_def)

lemma eval_call_node:
  "head \<noteq> V_FALSE \<Longrightarrow> ir_eval m (IR_CALL line head callee args) = eval_call m head (ir_eval m callee) (eval_args m args)"
  by (cases callee) auto

lemma optimize_andor_Nil [simp]: "optimize_andor b ns = [] \<longleftrightarrow> ns = []"
  by (induction b ns rule: optimize_andor.induct) (auto split: option.splits)

lemma eval_and_Cons:
  "ns \<noteq> [] \<Longrightarrow> eval_and m (n # ns) = ebind (ir_eval m n) (\<lambda>v. if v = V_FALSE then eret V_FALSE else eval_and m ns)"
  by (cases ns) auto

lemma eval_or_Cons:
  "ns \<noteq> [] \<Longrightarrow> eval_or m (n # ns) = ebind (ir_eval m n) (\<lambda>v. if v = V_FALSE then eval_or m ns else eret v)"
  by (cases ns) auto

lemma optimize_and_correct:
  assumes "rep_keeps_false m"
  shows "eval_and m (optimize_andor True ns) = eval_and m ns"
proof (induction True ns rule: optimize_andor.induct)
  case (3 n k ns)
  show ?case
  proof (cases "is_const n")
    case None
    with 3 show ?thesis by (simp add: eval_and_Cons cong: if_cong)
  next
    case (Some v)
    with assms obtain v' where "ir_eval m n = eret v'" "v' = V_FALSE \<longleftrightarrow> v = V_FALSE" by (rule is_const_eval)
    with Some 3 show ?thesis by auto
  qed
qed simp_all

lemma optimize_or_correct:
  assumes "rep_keeps_false m"
  shows "eval_or m (optimize_andor False ns) = eval_or m ns"
proof (induction False ns rule: optimize_andor.induct)
  case (3 n k ns)
  show ?case
  proof (cases "is_const n")
    case None
    with 3 show ?thesis by (simp add: eval_or_Cons cong: if_cong)
  next
    case (Some v)
    with assms obtain v' where "ir_eval m n = eret v'" "v' = V_FALSE \<longleftrightarrow> v = V_FALSE" by (rule is_const_eval)
    with Some 3 show ?thesis by auto
  qed
qed simp_all

lemma eval_lists_cong:
  assumes "\<And>n. n \<in> set ns \<Longrightarrow> ir_eval m (g n) = ir_eval m n"
  shows "eval_args m (map g ns) = eval_args m ns" "eval_and m (map g ns) = eval_and m ns" "eval_or m (map g ns) = eval_or m ns"
proof -
  show "eval_args m (map g ns) = eval_args m ns" using assms by (induction ns) auto
  show "eval_and m (map g ns) = eval_and m ns" using assms by (induction ns rule: induct_list012) (auto cong: if_cong)
  show "eval_or m (map g ns) = eval_or m ns" using assms by (induction ns rule: induct_list012) (auto cong: if_cong)
qed

lemma ir_optimize_correct:
  assumes "rep_keeps_false m"
  shows "lowered n \<Longrightarrow> ir_eval m (ir_optimize n) = ir_eval m n"
proof (induction n rule: ir_optimize.induct)
  case (1 line test thn els)
  show ?case
  proof (cases "is_const (ir_optimize test)")
    case None
    with 1 show ?thesis by (simp cong: if_cong)
  next
    case (Some v)
    with assms obtain v' where "ir_eval m (ir_optimize test) = eret v'" "v' = V_FALSE \<longleftrightarrow> v = V_FALSE" by (rule is_const_eval)
    moreover from this 1 have "ir_eval m test = eret v'" by simp
    ultimately show ?thesis using 1 Some by auto
  qed
next
  case (3 line ns)
  then have "ir_eval m (ir_optimize n) = ir_eval m n" if "n \<in> set ns" for n using that by (auto simp: list_all_iff)
  with assms show ?case by (simp add: optimize_and_correct eval_lists_cong)
next
  case (4 line ns)
  then have "ir_eval m (ir_optimize n) = ir_eval m n" if "n \<in> set ns" for n using that by (auto simp: list_all_iff)
  with assms show ?case by (simp add: optimize_or_correct eval_lists_cong)
next
  case (6 line head callee args)
  then have args: "eval_args m (map ir_optimize args) = eval_args m args"
    by (intro eval_lists_cong) (auto simp: list_all_iff)
  show ?case
  proof (cases "head = V_FALSE")
    case True
    with 6 have "is_lambda callee" by simp
    with args show ?thesis by (cases callee) (auto simp: is_lambda_def)
  next
    case False
    with 6 args show ?thesis by (simp add: eval_call_node del: ir_eval.simps(9))
  qed
qed auto

text \<open>
  C2: The optimiser is correct. Whatever a lowered expression evaluates to, in every environment and
  machine state - its value or the error it raises, the variables it assigns and its effects - the optimised
  expression evaluates to the same: dropping a branch of an \<open>if\<close> with a constant test, cutting \<open>and\<close> and \<open>or\<close>
  after a constant that decides them, and removing constants that do not. Constants are assumed to
  be loaded as false exactly if they are \<open>#f\<close>.
\<close>

theorem ir_optimize_preserves_meaning:
  assumes "lowered n" "rep_keeps_false m"
  shows "ir_eval m (ir_optimize n) env w = ir_eval m n env w"
  using ir_optimize_correct [OF assms(2,1)] by simp

text \<open>\<open>(or #f y 1)\<close> becomes \<open>(or y 1)\<close>, which is the value of \<open>y\<close>.\<close>

definition sample_sem :: sem where
  "sample_sem = \<lparr>m_vm = sample_ext, m_rt = two_flonums, m_env = 0, m_rep = id\<rparr>"

theorem ir_optimize_preserves_meaning_witness:
  "ir_optimize (IR_OR 1 [IR_CONST 1 V_FALSE False, IR_VAR_REF 1 24, IR_CONST 1 (vfix 1) False])
     = IR_OR 1 [IR_VAR_REF 1 24, IR_CONST 1 (vfix 1) False]
   \<and> ir_eval sample_sem (ir_optimize (IR_OR 1 [IR_CONST 1 V_FALSE False, IR_VAR_REF 1 24, IR_CONST 1 (vfix 1) False])) [(24, V_TRUE)] empty_vm
     = (Inr V_TRUE, [(24, V_TRUE)], empty_vm)"
proof -
  have rep: "rep_keeps_false sample_sem" by (simp add: rep_keeps_false_def sample_sem_def)
  have opt: "ir_optimize (IR_OR 1 [IR_CONST 1 V_FALSE False, IR_VAR_REF 1 24, IR_CONST 1 (vfix 1) False])
      = IR_OR 1 [IR_VAR_REF 1 24, IR_CONST 1 (vfix 1) False]"
    by (simp add: is_const_def)
  have "ir_eval sample_sem (IR_OR 1 [IR_CONST 1 V_FALSE False, IR_VAR_REF 1 24, IR_CONST 1 (vfix 1) False]) [(24, V_TRUE)] empty_vm
      = (Inr V_TRUE, [(24, V_TRUE)], empty_vm)"
    by (simp add: ebind_def eret_def const_value_def emit_immediate_def variable_value_def local_index_def V_TRUE_def V_FALSE_def)
  with opt show ?thesis by (subst ir_optimize_preserves_meaning [OF _ rep]) simp_all
qed

end
