(* ===== verification/Emit_Layout.thy ===== *)
theory Emit_Layout
  imports Ir_Emit
begin

text \<open>
  What the emission helpers do to a compiler, as rewrite rules on the parts that later proofs read: the
  code, the constant pool, the table of locals, the scope depth and the enclosing levels. The constant pool
  only grows at its end, so the constant that a name or datum stands for (\<open>pool_value\<close>) is fixed once it is
  in the pool.
\<close>

abbreviation code_of :: "compiler \<Rightarrow> u8 list" where "code_of c \<equiv> ck_code (cp_chunk c)"
abbreviation pool_of :: "compiler \<Rightarrow> val list" where "pool_of c \<equiv> ck_constants (cp_chunk c)"
abbreviation depth_of :: "compiler \<Rightarrow> int" where "depth_of c \<equiv> lv_scope_depth (cp_level c)"

section \<open>Rewrite rules\<close>

lemma set_chunk_simps [simp]:
  "cp_chunk (set_chunk c ck) = ck" "cp_locals (set_chunk c ck) = cp_locals c" "depth_of (set_chunk c ck) = depth_of c"
  "cp_enclosing (set_chunk c ck) = cp_enclosing c"
  by (simp_all add: set_chunk_def)

lemma set_locals_simps [simp]:
  "cp_chunk (set_locals c ls) = cp_chunk c" "cp_locals (set_locals c ls) = ls" "depth_of (set_locals c ls) = depth_of c"
  "cp_enclosing (set_locals c ls) = cp_enclosing c"
  by (simp_all add: set_locals_def)

lemma emit_byte_simps [simp]:
  "code_of (emit_byte c b line) = code_of c @ [b]" "pool_of (emit_byte c b line) = pool_of c"
  "cp_locals (emit_byte c b line) = cp_locals c" "depth_of (emit_byte c b line) = depth_of c"
  "cp_enclosing (emit_byte c b line) = cp_enclosing c"
  by (simp_all add: emit_byte_def)

lemma emit_simps [simp]:
  "code_of (emit c opc line) = code_of c @ [op_byte opc]" "pool_of (emit c opc line) = pool_of c"
  "cp_locals (emit c opc line) = cp_locals c" "depth_of (emit c opc line) = depth_of c"
  "cp_enclosing (emit c opc line) = cp_enclosing c"
  by (simp_all add: emit_def)

lemma emit_ab_simps [simp]:
  "code_of (emit_ab c opc a line) = code_of c @ [op_byte opc, a]" "pool_of (emit_ab c opc a line) = pool_of c"
  "cp_locals (emit_ab c opc a line) = cp_locals c" "depth_of (emit_ab c opc a line) = depth_of c"
  "cp_enclosing (emit_ab c opc a line) = cp_enclosing c"
  by (simp_all add: emit_ab_def)

lemma emit_abc_simps [simp]:
  "code_of (emit_abc c opc a b line) = code_of c @ [op_byte opc, a, b]" "pool_of (emit_abc c opc a b line) = pool_of c"
  "cp_locals (emit_abc c opc a b line) = cp_locals c" "depth_of (emit_abc c opc a b line) = depth_of c"
  "cp_enclosing (emit_abc c opc a b line) = cp_enclosing c"
  by (simp_all add: emit_abc_def)

lemma begin_scope_simps [simp]:
  "cp_chunk (begin_scope c) = cp_chunk c" "cp_locals (begin_scope c) = cp_locals c" "depth_of (begin_scope c) = depth_of c + 1"
  "cp_enclosing (begin_scope c) = cp_enclosing c"
  by (simp_all add: begin_scope_def)

definition pending :: "int \<Rightarrow> local_var" where
  "pending depth = \<lparr>lo_name = V_FALSE, lo_depth = depth, lo_captured = False, lo_dbg = -1\<rparr>"

lemma reserve_simps [simp]:
  "cp_chunk (reserve_pending_slot c) = cp_chunk c" "depth_of (reserve_pending_slot c) = depth_of c"
  "cp_enclosing (reserve_pending_slot c) = cp_enclosing c"
  "length (cp_locals c) < MAX_LOCALS \<Longrightarrow> cp_locals (reserve_pending_slot c) = cp_locals c @ [pending (depth_of c)]"
  by (simp_all add: reserve_pending_slot_def pending_def)

lemma release_simps [simp]:
  "cp_chunk (release_pending_slots c n) = cp_chunk c" "depth_of (release_pending_slots c n) = depth_of c"
  "cp_enclosing (release_pending_slots c n) = cp_enclosing c" "cp_locals (release_pending_slots c n) = take n (cp_locals c)"
  by (simp_all add: release_pending_slots_def)

lemma emit_jump_eq:
  assumes "emit_jump c opc line = (at, c')"
  shows "at = chunk_pos c + 1" "code_of c' = code_of c @ [op_byte opc, 0xFF, 0xFF]" "pool_of c' = pool_of c"
    "cp_locals c' = cp_locals c" "depth_of c' = depth_of c" "cp_enclosing c' = cp_enclosing c"
proof -
  have "u16_bytes 0xFFFF = [0xFF, 0xFF]" by (simp add: u16_bytes_def)
  then show "at = chunk_pos c + 1" "code_of c' = code_of c @ [op_byte opc, 0xFF, 0xFF]" "pool_of c' = pool_of c"
    "cp_locals c' = cp_locals c" "depth_of c' = depth_of c" "cp_enclosing c' = cp_enclosing c"
    using assms by (auto simp: emit_jump_def Let_def)
qed

lemma patch16_eq:
  assumes "patch16 c pos target = Inr c'" "code_of c = pre @ [a, b] @ post" "length pre = pos"
  shows "code_of c' = pre @ u16_bytes (word_of_nat target) @ post"
    "pool_of c' = pool_of c" "cp_locals c' = cp_locals c" "depth_of c' = depth_of c" "cp_enclosing c' = cp_enclosing c"
  using assms
  by (auto simp: patch16_def chunk_patch16_def rbind_Inr_iff u16_bytes_def list_update_append low_byte split: if_splits)

section \<open>The constant pool\<close>

definition pool_value :: "rt \<Rightarrow> val list \<Rightarrow> val \<Rightarrow> val" where
  "pool_value r pool v = (case const_search r v 0 pool of Inr (Some i) \<Rightarrow> pool ! i | _ \<Rightarrow> v)"

text \<open>Entry \<open>i\<close> of the pool is the first one that is the same as \<open>v\<close>.\<close>

definition pool_entry :: "rt \<Rightarrow> val list \<Rightarrow> nat \<Rightarrow> val \<Rightarrow> bool" where
  "pool_entry r pool i v \<longleftrightarrow> i < length pool \<and> const_same r (pool ! i) v = Inr True \<and> (\<forall>k < i. const_same r (pool ! k) v = Inr False)"

lemma pool_entry_append: "pool_entry r pool i v \<Longrightarrow> pool_entry r (pool @ ext) i v"
  by (auto simp: pool_entry_def nth_append)

lemma pool_entry_value: "pool_entry r pool i v \<Longrightarrow> pool_value r pool v = pool ! i"
  using const_search_found [of i pool r v 0 "[]"] by (simp add: pool_entry_def pool_value_def)

lemma pool_entry_symbol:
  assumes "pool_entry r pool i v" "vis_symbol r v"
  shows "pool ! i = v"
proof -
  obtain name h where v: "obj_at r v = Some (OSymbol name h)" using assms(2) by (auto simp: vis_symbol_def split: option.splits obj.splits)
  then have "\<not> vis_number r v" by (auto simp: vis_number_def)
  with v have "const_same r u v = Inr (u = v)" for u by (auto simp: const_same_def split: option.splits obj.splits)
  with assms(1) show ?thesis by (simp add: pool_entry_def)
qed

lemma add_const_eq:
  assumes "add_const e c v = Inr (i, c')" "length (pool_of c) \<le> 256"
  shows "pool_entry (ce_rt e) (pool_of c') i v" "i < 256" "code_of c' = code_of c" "\<exists>ext. pool_of c' = pool_of c @ ext"
    "length (pool_of c') \<le> 256" "cp_locals c' = cp_locals c" "depth_of c' = depth_of c" "cp_enclosing c' = cp_enclosing c"
proof -
  obtain ck where ck: "chunk_add_const (ce_rt e) (cp_chunk c) v = Inr (i, ck)" "c' = set_chunk c ck"
    using assms(1) by (auto simp: add_const_def rbind_Inr_iff)
  from ck(1) have "pool_entry (ce_rt e) (ck_constants ck) i v \<and> i < 256 \<and> ck_code ck = code_of c \<and>
      (\<exists>ext. ck_constants ck = pool_of c @ ext) \<and> length (ck_constants ck) \<le> 256"
  proof (cases rule: chunk_add_const_cases)
    case found
    then show ?thesis using assms(2) by (auto simp: pool_entry_def)
  next
    case added
    then show ?thesis by (auto simp: pool_entry_def nth_append)
  qed
  then show "pool_entry (ce_rt e) (pool_of c') i v" "i < 256" "code_of c' = code_of c" "\<exists>ext. pool_of c' = pool_of c @ ext"
    "length (pool_of c') \<le> 256" "cp_locals c' = cp_locals c" "depth_of c' = depth_of c" "cp_enclosing c' = cp_enclosing c"
    by (simp_all add: ck(2))
qed

end
