(* ===== verification/Vm_Exec.thy ===== *)
theory Vm_Exec
  imports Vm_Calls
begin

text \<open>
  Running a stretch of code of one frame. A \<open>site\<close> is what stays fixed meanwhile: the machine's
  surroundings, the running chunk and frame, the frames and stack slots below and the handlers. The state
  at an instruction (\<open>here\<close>) is the site with a world - heap, globals, output -, the instruction pointer
  and the frame's part of the stack. One lemma per instruction says what it does to such a state, under
  the assumption that what the machine calls neither reads nor changes its stacks (\<open>foreign_ok\<close>).
\<close>

section \<open>Sites\<close>

record site =
  si_ext :: vm_ext
  si_chunk :: chunk
  si_below :: "callframe list"
  si_frame :: callframe
  si_handlers :: "vm_handler list"
  si_stack :: "val list"
  si_depth :: nat

definition here :: "site \<Rightarrow> vm \<Rightarrow> nat \<Rightarrow> val list \<Rightarrow> vm" where
  "here \<sigma> w ip vs = w\<lparr>v_frames := si_below \<sigma> @ [(si_frame \<sigma>)\<lparr>cf_ip := ip\<rparr>], v_handlers := si_handlers \<sigma>,
     v_stack := si_stack \<sigma> @ vs\<rparr>"

definition site_ok :: "site \<Rightarrow> vm \<Rightarrow> bool" where
  "site_ok \<sigma> w \<longleftrightarrow> v_open w = [] \<and> cf_slots (si_frame \<sigma>) = length (si_stack \<sigma>) \<and> code_len (si_chunk \<sigma>) \<le> 0xFFFF \<and>
     (\<exists>ch ups. vm_obj w (cf_closure (si_frame \<sigma>)) = Some (OBcClosure ch ups) \<and> x_chunks (si_ext \<sigma>) ch = Some (si_chunk \<sigma>))"

definition site_env :: "site \<Rightarrow> val" where
  "site_env \<sigma> = (if ck_target_env (si_chunk \<sigma>) = V_VOID then x_global_env (si_ext \<sigma>) else ck_target_env (si_chunk \<sigma>))"

text \<open>The state apart from the stacks.\<close>

definition world :: "vm \<Rightarrow> vm" where
  "world s = s\<lparr>v_frames := [], v_handlers := [], v_stack := []\<rparr>"

definition site_step :: "site \<Rightarrow> step" where
  "site_step \<sigma> = vm_step (si_ext \<sigma>) (si_depth \<sigma>)"

definition code_in :: "chunk \<Rightarrow> nat \<Rightarrow> u8 list \<Rightarrow> bool" where
  "code_in K pos bs \<longleftrightarrow> take (length bs) (drop pos (ck_code K)) = bs"

lemma code_in_Nil [simp]: "code_in K pos []"
  by (simp add: code_in_def)

lemma code_in_Cons [simp]: "code_in K pos (b # bs) \<longleftrightarrow> pos < code_len K \<and> ck_code K ! pos = b \<and> code_in K (pos + 1) bs"
proof (cases "pos < code_len K")
  case True
  then have "drop pos (ck_code K) = ck_code K ! pos # drop (pos + 1) (ck_code K)" by (simp add: Cons_nth_drop_Suc)
  with True show ?thesis by (auto simp: code_in_def)
qed (simp add: code_in_def)

lemma code_in_append [simp]: "code_in K pos (bs @ bs') \<longleftrightarrow> code_in K pos bs \<and> code_in K (pos + length bs) bs'"
  by (induction bs arbitrary: pos) auto

lemma here_simps [simp]:
  "v_stack (here \<sigma> w ip vs) = si_stack \<sigma> @ vs" "v_handlers (here \<sigma> w ip vs) = si_handlers \<sigma>" "v_globals (here \<sigma> w ip vs) = v_globals w" "v_open (here \<sigma> w ip vs) = v_open w"
  "vm_obj (here \<sigma> w ip vs) = vm_obj w" "vis_bcclosure f (here \<sigma> w ip vs) = vis_bcclosure f w"
  "cf_ip (last (v_frames (here \<sigma> w ip vs))) = ip" "world (here \<sigma> w ip vs) = world w" "v_frames (here \<sigma> w ip vs) \<noteq> []"
  "(here \<sigma> w ip vs)\<lparr>v_stack := si_stack \<sigma> @ vs'\<rparr> = here \<sigma> w ip vs'"
  "set_top_frame (\<lambda>f. f\<lparr>cf_ip := ip'\<rparr>) (here \<sigma> w ip vs) = here \<sigma> w ip' vs"
  "bind_global env name v (here \<sigma> w ip vs) = here \<sigma> (bind_global env name v w) ip vs"
  by (simp_all add: here_def world_def vm_obj_def vis_bcclosure_def set_top_frame_def bind_global_def fun_eq_iff)

lemma site_ok_bind_global [simp]: "site_ok \<sigma> (bind_global env name v w) = site_ok \<sigma> w"
  by (simp add: site_ok_def bind_global_def vm_obj_def)

section \<open>Decoding\<close>

lemma site_step_op:
  assumes "site_ok \<sigma> w" "code_in (si_chunk \<sigma>) ip (op_byte opc # bs)"
  obtains u where "u_chunk u = si_chunk \<sigma>" "u_base u = length (si_stack \<sigma>)"
    "\<And>vs. site_step \<sigma> (here \<sigma> w ip vs) = exec_op opc (si_ext \<sigma>) (si_depth \<sigma>) u (here \<sigma> w (ip + 1) vs)"
proof -
  obtain ch ups where cl: "vm_obj w (cf_closure (si_frame \<sigma>)) = Some (OBcClosure ch ups)"
      "x_chunks (si_ext \<sigma>) ch = Some (si_chunk \<sigma>)" "cf_slots (si_frame \<sigma>) = length (si_stack \<sigma>)"
    using assms(1) by (auto simp: site_ok_def)
  define u where "u = \<lparr>u_closure = cf_closure (si_frame \<sigma>), u_addr = ch, u_chunk = si_chunk \<sigma>, u_upvals = ups,
     u_base = length (si_stack \<sigma>)\<rparr>"
  have "v_frames (here \<sigma> w ip vs) = si_below \<sigma> @ [(si_frame \<sigma>)\<lparr>cf_ip := ip\<rparr>]" for vs by (simp add: here_def)
  then have "current (si_ext \<sigma>) (here \<sigma> w ip vs) = Some u" for vs using cl by (simp add: current_def u_def)
  then show ?thesis using assms(2)
    by (intro that [of u]) (simp_all add: u_def site_step_def vm_step_def READ_U8_def code_byte_def)
qed

lemma read_u8 [simp]:
  assumes "u_chunk u = si_chunk \<sigma>" "ip < code_len (si_chunk \<sigma>)" "ck_code (si_chunk \<sigma>) ! ip = b"
  shows "READ_U8 u k (here \<sigma> w ip vs) = k (unat b) (here \<sigma> w (ip + 1) vs)"
  using assms by (simp add: READ_U8_def code_byte_def)

lemma read_u16:
  assumes "u_chunk u = si_chunk \<sigma>" "code_in (si_chunk \<sigma>) ip (u16_bytes (word_of_nat t))" "t \<le> 0xFFFF"
  shows "READ_U16 u k (here \<sigma> w ip vs) = k t (here \<sigma> w (ip + 2) vs)"
proof -
  have "unat (word_of_nat t :: u16) = t" using assms(3) by (simp add: unat_of_nat)
  with assms(1,2) show ?thesis by (simp add: READ_U16_def u16_bytes_def)
qed

lemma push_here [simp]:
  "length (si_stack \<sigma>) + length vs < x_stack_max (si_ext \<sigma>) \<Longrightarrow>
    PUSH (si_ext \<sigma>) v (here \<sigma> w ip vs) = (Running, here \<sigma> w ip (vs @ [v]))"
  by (simp add: PUSH_def)

lemma popn_here: "length as = n \<Longrightarrow> POPN n k (here \<sigma> w ip (vs @ as)) = k as (here \<sigma> w ip vs)"
  by (simp add: POPN_def Let_def)

lemma pop_here [simp]: "POP k (here \<sigma> w ip (vs @ [v])) = k v (here \<sigma> w ip vs)"
  by (simp add: POP_def popn_here)

lemma pop2_here: "POP2 k (here \<sigma> w ip (vs @ [a, b])) = k a b (here \<sigma> w ip vs)"
  by (simp add: POP2_def popn_here)

lemma peek_here: "length as = n \<Longrightarrow> PEEK n k (here \<sigma> w ip (vs @ v # as)) = k v (here \<sigma> w ip (vs @ v # as))"
  by (simp add: PEEK_def nth_append)

lemma next_here [simp]: "NEXT s = (Running, s)" "JUMP_ABS t (here \<sigma> w ip vs) = (Running, here \<sigma> w t vs)"
  by (simp_all add: NEXT_def JUMP_ABS_def)

section \<open>Instructions without calls\<close>

abbreviation room :: "site \<Rightarrow> val list \<Rightarrow> nat \<Rightarrow> bool" where
  "room \<sigma> vs n \<equiv> length (si_stack \<sigma>) + length vs + n \<le> x_stack_max (si_ext \<sigma>)"

lemma step_push:
  assumes "site_ok \<sigma> w" "code_in (si_chunk \<sigma>) ip [op_byte opc]" "room \<sigma> vs 1"
    "(opc, v) \<in> {(OP_TRUE, V_TRUE), (OP_FALSE, V_FALSE), (OP_NIL, V_NIL), (OP_VOID, V_VOID)}"
  shows "site_step \<sigma> (here \<sigma> w ip vs) = (Running, here \<sigma> w (ip + 1) (vs @ [v]))"
  by (rule site_step_op [OF assms(1,2)]) (use assms(3,4) in auto)

lemma step_const:
  assumes "site_ok \<sigma> w" "code_in (si_chunk \<sigma>) ip [op_byte OP_CONST, b]" "room \<sigma> vs 1" "unat b < const_len (si_chunk \<sigma>)"
  shows "site_step \<sigma> (here \<sigma> w ip vs) = (Running, here \<sigma> w (ip + 2) (vs @ [ck_constants (si_chunk \<sigma>) ! unat b]))"
  by (rule site_step_op [OF assms(1,2)]) (use assms(2-4) in \<open>simp add: CONST_AT_def\<close>)

lemma step_load_local:
  assumes "site_ok \<sigma> w" "code_in (si_chunk \<sigma>) ip [op_byte OP_LOAD_LOCAL, b]" "room \<sigma> vs 1" "unat b < length vs"
  shows "site_step \<sigma> (here \<sigma> w ip vs) = (Running, here \<sigma> w (ip + 2) (vs @ [vs ! unat b]))"
  by (rule site_step_op [OF assms(1,2)]) (use assms(2-4) in \<open>simp add: slot_read_def\<close>)

lemma step_store_local:
  assumes "site_ok \<sigma> w" "code_in (si_chunk \<sigma>) ip [op_byte OP_STORE_LOCAL, b]" "unat b < length vs"
  shows "site_step \<sigma> (here \<sigma> w ip (vs @ [v])) = (Running, here \<sigma> w (ip + 2) (vs[unat b := v]))"
  by (rule site_step_op [OF assms(1,2)]) (use assms(2,3) in \<open>simp add: slot_write_def list_update_append\<close>)

lemma target_env_site: "u_chunk u = si_chunk \<sigma> \<Longrightarrow> target_env (si_ext \<sigma>) u = site_env \<sigma>"
  by (simp add: target_env_def site_env_def)

lemma load_global_here:
  assumes "u_chunk u = si_chunk \<sigma>" "ci < const_len (si_chunk \<sigma>)"
  shows "load_global (si_ext \<sigma>) u ci k (here \<sigma> w ip vs) =
    (case v_globals w (site_env \<sigma>) (ck_constants (si_chunk \<sigma>) ! ci) of
       None \<Rightarrow> (Raised unbound_variable, here \<sigma> w ip vs) | Some v \<Rightarrow> k v (here \<sigma> w ip vs))"
  using assms by (simp add: load_global_def CONST_AT_def target_env_site)

lemma step_load_global:
  assumes "site_ok \<sigma> w" "code_in (si_chunk \<sigma>) ip [op_byte OP_LOAD_GLOBAL, b]" "room \<sigma> vs 1" "unat b < const_len (si_chunk \<sigma>)"
  shows "site_step \<sigma> (here \<sigma> w ip vs) =
    (case v_globals w (site_env \<sigma>) (ck_constants (si_chunk \<sigma>) ! unat b) of
       None \<Rightarrow> (Raised unbound_variable, here \<sigma> w (ip + 2) vs) | Some v \<Rightarrow> (Running, here \<sigma> w (ip + 2) (vs @ [v])))"
  by (rule site_step_op [OF assms(1,2)]) (use assms(2-4) in \<open>auto simp: load_global_here split: option.splits\<close>)

lemma step_store_global:
  assumes "site_ok \<sigma> w" "code_in (si_chunk \<sigma>) ip [op_byte OP_STORE_GLOBAL, b]" "unat b < const_len (si_chunk \<sigma>)"
    "name = ck_constants (si_chunk \<sigma>) ! unat b"
  shows "site_step \<sigma> (here \<sigma> w ip (vs @ [v])) = (Running, here \<sigma>
    (if v_globals w (site_env \<sigma>) name = None then w else bind_global (site_env \<sigma>) name v w) (ip + 2) vs)"
  by (rule site_step_op [OF assms(1,2)])
      (use assms(2-4) in \<open>simp add: do_op_store_global_def CONST_AT_def target_env_site\<close>)

lemma step_def_global:
  assumes "site_ok \<sigma> w" "code_in (si_chunk \<sigma>) ip [op_byte OP_DEF_GLOBAL, b]" "unat b < const_len (si_chunk \<sigma>)"
  shows "site_step \<sigma> (here \<sigma> w ip (vs @ [v])) =
    (Running, here \<sigma> (bind_global (site_env \<sigma>) (ck_constants (si_chunk \<sigma>) ! unat b) v w) (ip + 2) vs)"
  by (rule site_step_op [OF assms(1,2)])
      (use assms(2,3) in \<open>simp add: do_op_def_global_def CONST_AT_def target_env_site\<close>)

lemma step_pop:
  assumes "site_ok \<sigma> w" "code_in (si_chunk \<sigma>) ip [op_byte OP_POP]"
  shows "site_step \<sigma> (here \<sigma> w ip (vs @ [v])) = (Running, here \<sigma> w (ip + 1) vs)"
  by (rule site_step_op [OF assms]) simp

lemma step_dup:
  assumes "site_ok \<sigma> w" "code_in (si_chunk \<sigma>) ip [op_byte OP_DUP]" "room \<sigma> vs 2"
  shows "site_step \<sigma> (here \<sigma> w ip (vs @ [v])) = (Running, here \<sigma> w (ip + 1) (vs @ [v, v]))"
proof -
  have peek: "PEEK 0 k (here \<sigma> w' ip' (vs @ [v])) = k v (here \<sigma> w' ip' (vs @ [v]))" for k w' ip'
    using peek_here [of "[]" 0] by simp
  show ?thesis by (rule site_step_op [OF assms(1,2)]) (use assms(3) in \<open>simp add: peek\<close>)
qed

lemma step_slide:
  assumes "site_ok \<sigma> w" "code_in (si_chunk \<sigma>) ip [op_byte OP_SLIDE, b]" "room \<sigma> vs 1" "length as = unat b"
  shows "site_step \<sigma> (here \<sigma> w ip (vs @ as @ [v])) = (Running, here \<sigma> w (ip + 2) (vs @ [v]))"
proof -
  have pop: "POP k (here \<sigma> w' ip' (vs @ as @ [v])) = k v (here \<sigma> w' ip' (vs @ as))" for k w' ip'
    using pop_here [of k \<sigma> w' ip' "vs @ as" v] by simp
  show ?thesis
    by (rule site_step_op [OF assms(1,2)]) (use assms(2-4) in \<open>simp add: do_op_slide_def pop popn_here\<close>)
qed

lemma step_jump:
  assumes "site_ok \<sigma> w" "code_in (si_chunk \<sigma>) ip (op_byte OP_JUMP # u16_bytes (word_of_nat t))" "t \<le> 0xFFFF"
  shows "site_step \<sigma> (here \<sigma> w ip vs) = (Running, here \<sigma> w t vs)"
  by (rule site_step_op [OF assms(1,2)]) (use assms(2,3) in \<open>simp add: read_u16 [where t = t]\<close>)

lemma step_jump_false:
  assumes "site_ok \<sigma> w" "code_in (si_chunk \<sigma>) ip (op_byte OP_JUMP_FALSE # u16_bytes (word_of_nat t))" "t \<le> 0xFFFF"
  shows "site_step \<sigma> (here \<sigma> w ip (vs @ [v])) = (Running, here \<sigma> w (if v = V_FALSE then t else ip + 3) vs)"
  by (rule site_step_op [OF assms(1,2)]) (use assms(2,3) in \<open>simp add: do_op_jump_false_def read_u16 [where t = t] numeral_3_eq_3\<close>)

lemma step_jump_true:
  assumes "site_ok \<sigma> w" "code_in (si_chunk \<sigma>) ip (op_byte OP_JUMP_TRUE # u16_bytes (word_of_nat t))" "t \<le> 0xFFFF"
  shows "site_step \<sigma> (here \<sigma> w ip (vs @ [v])) = (Running, here \<sigma> w (if v \<noteq> V_FALSE then t else ip + 3) vs)"
  by (rule site_step_op [OF assms(1,2)]) (use assms(2,3) in \<open>simp add: do_op_jump_true_def read_u16 [where t = t] numeral_3_eq_3\<close>)

section \<open>Calls\<close>

text \<open>
  What is assumed of the code outside: a call of it does not depend on the machine's frames, handlers and
  stack and leaves them as they are, leaves no captured variable open, and keeps the object of the running
  closure. The primitives with an instruction of their own do what calling their object does.
\<close>

definition blind :: "val \<Rightarrow> (vm \<Rightarrow> val res \<times> vm) \<Rightarrow> bool" where
  "blind cl g \<longleftrightarrow> (\<forall>w. v_open w = [] \<longrightarrow>
     (\<forall>frs hs stk. g (w\<lparr>v_frames := frs, v_handlers := hs, v_stack := stk\<rparr>) =
        (case g w of (r, w') \<Rightarrow> (r, w'\<lparr>v_frames := frs, v_handlers := hs, v_stack := stk\<rparr>))) \<and>
     v_open (snd (g w)) = [] \<and> v_heap (snd (g w)) cl = v_heap w cl)"

definition foreign_ok :: "vm_ext \<Rightarrow> val \<Rightarrow> bool" where
  "foreign_ok x cl \<longleftrightarrow> (\<forall>f n as. blind cl (x_apply x f n as)) \<and> (\<forall>p as. blind cl (x_prim x p as))"

definition open_prims :: "(opcode \<times> string \<times> nat) list" where
  "open_prims = [(OP_CAR, ''prim_car'', 1), (OP_CDR, ''prim_cdr'', 1), (OP_PAIRP, ''prim_pair_p'', 1), (OP_NULLP, ''prim_null_p'', 1),
     (OP_CONS, ''prim_cons'', 2), (OP_ADD, ''prim_add'', 2), (OP_SUB, ''prim_sub'', 2), (OP_MUL, ''prim_mul'', 2),
     (OP_NUMEQ, ''prim_num_eq'', 2), (OP_LT, ''prim_num_lt'', 2), (OP_LE, ''prim_num_le'', 2), (OP_GT, ''prim_num_gt'', 2),
     (OP_GE, ''prim_num_ge'', 2)]"

definition prims_ok :: "vm_ext \<Rightarrow> bool" where
  "prims_ok x \<longleftrightarrow>
     (\<forall>(opc, p, n) \<in> set open_prims. \<forall>f as w. x_prim_fn x f = Some p \<and> length as = n \<longrightarrow> x_apply x f (int n) as w = x_prim x p as w) \<and>
     (\<forall>a b w. x_prim x ''prim_cons'' [a, b] w = (case vm_alloc x (OPair a b) w of (p, w') \<Rightarrow> (Inr p, w')))"

lemma blind_here:
  assumes "blind cl g" "v_open w = []" "g w = (r, w')"
  shows "g (here \<sigma> w ip vs) = (r, here \<sigma> w' ip vs)"
  using assms by (simp add: blind_def here_def)

lemma blind_site_ok:
  assumes "blind (cf_closure (si_frame \<sigma>)) g" "site_ok \<sigma> w" "g w = (r, w')"
  shows "site_ok \<sigma> w'"
proof -
  from assms have "v_open w' = []" "v_heap w' (cf_closure (si_frame \<sigma>)) = v_heap w (cf_closure (si_frame \<sigma>))"
    by (auto simp: blind_def site_ok_def dest!: spec [of _ w])
  with assms(2) show ?thesis by (auto simp: site_ok_def vm_obj_def split: if_splits)
qed

definition finishes :: "site \<Rightarrow> val res \<Rightarrow> vm \<Rightarrow> nat \<Rightarrow> val list \<Rightarrow> status \<times> vm \<Rightarrow> bool" where
  "finishes \<sigma> r w ip vs res \<longleftrightarrow> (case r of
     Inr v \<Rightarrow> res = (Running, here \<sigma> w ip (vs @ [v]))
   | Inl er \<Rightarrow> fst res = Raised er \<and> world (snd res) = world w \<and> v_handlers (snd res) = si_handlers \<sigma>)"

lemma finishes_result:
  assumes "room \<sigma> vs 1"
  shows "finishes \<sigma> r w ip vs (with_result (r, here \<sigma> w ip vs) (PUSH (si_ext \<sigma>)))"
  using assms by (cases r) (simp_all add: finishes_def with_result_def)

lemma finishes_result_popn:
  assumes "room \<sigma> vs 1" "length as = n"
  shows "finishes \<sigma> r w ip vs (with_result (r, here \<sigma> w ip (vs @ as)) (\<lambda>v. POPN n (\<lambda>_. PUSH (si_ext \<sigma>) v)))"
  using assms by (cases r) (simp_all add: finishes_def with_result_def popn_here)

lemma do_call_here:
  assumes "blind cl (x_apply (si_ext \<sigma>) f (int n) as)" "site_ok \<sigma> w" "\<not> vis_bcclosure f w" "room \<sigma> vs 1"
    "length as = n" "x_apply (si_ext \<sigma>) f (int n) as w = (r, w')"
  shows "finishes \<sigma> r w' ip vs (do_call (si_ext \<sigma>) f n False (here \<sigma> w ip (vs @ as)))"
    "finishes \<sigma> r w' ip vs (do_call (si_ext \<sigma>) f n True (here \<sigma> w ip (vs @ g # as)))"
proof -
  have open_w: "v_open w = []" using assms(2) by (simp add: site_ok_def)
  note call = blind_here [OF assms(1) open_w assms(6)]
  have args: "drop (length (si_stack \<sigma> @ vs')) (si_stack \<sigma> @ vs' @ as) = as" for vs' by simp
  show "finishes \<sigma> r w' ip vs (do_call (si_ext \<sigma>) f n False (here \<sigma> w ip (vs @ as)))"
    using assms(3-5) finishes_result_popn [OF assms(4,5)] args [of vs] by (simp add: do_call_def call_foreign_def call)
  have "finishes \<sigma> r w' ip vs (with_result (r, here \<sigma> w' ip (vs @ g # as)) (\<lambda>v. POPN (n + 1) (\<lambda>_. PUSH (si_ext \<sigma>) v)))"
    using finishes_result_popn [of \<sigma> vs "g # as" "n + 1"] assms(4,5) by simp
  then show "finishes \<sigma> r w' ip vs (do_call (si_ext \<sigma>) f n True (here \<sigma> w ip (vs @ g # as)))"
    using assms(3-5) args [of "vs @ [g]"] by (simp add: do_call_def call_foreign_def call)
qed

lemma step_call_global:
  assumes "site_ok \<sigma> w" "code_in (si_chunk \<sigma>) ip [op_byte OP_CALL_GLOBAL, b, n]" "foreign_ok (si_ext \<sigma>) cl"
    "unat b < const_len (si_chunk \<sigma>)" "v_globals w (site_env \<sigma>) (ck_constants (si_chunk \<sigma>) ! unat b) = Some f"
    "\<not> vis_bcclosure f w" "room \<sigma> vs 1" "length as = unat n" "x_apply (si_ext \<sigma>) f (int (length as)) as w = (r, w')"
  shows "finishes \<sigma> r w' (ip + 3) vs (site_step \<sigma> (here \<sigma> w ip (vs @ as)))"
proof -
  have "blind cl (x_apply (si_ext \<sigma>) f (int (unat n)) as)" using assms(3) by (simp add: foreign_ok_def)
  from do_call_here(1) [OF this assms(1,6,7,8)] assms(8,9)
  have "finishes \<sigma> r w' (ip + 3) vs (do_call (si_ext \<sigma>) f (unat n) False (here \<sigma> w (ip + 3) (vs @ as)))" by simp
  moreover obtain u where "u_chunk u = si_chunk \<sigma>" "u_base u = length (si_stack \<sigma>)"
    "\<And>vs. site_step \<sigma> (here \<sigma> w ip vs) = exec_op OP_CALL_GLOBAL (si_ext \<sigma>) (si_depth \<sigma>) u (here \<sigma> w (ip + 1) vs)"
    by (rule site_step_op [OF assms(1,2)]) (rule that)
  ultimately show ?thesis using assms(2,4,5) by (simp add: do_op_call_global_def load_global_here numeral_3_eq_3)
qed

lemma step_call_global_unbound:
  assumes "site_ok \<sigma> w" "code_in (si_chunk \<sigma>) ip [op_byte OP_CALL_GLOBAL, b, n]"
    "unat b < const_len (si_chunk \<sigma>)" "v_globals w (site_env \<sigma>) (ck_constants (si_chunk \<sigma>) ! unat b) = None"
  shows "finishes \<sigma> (Inl unbound_variable) w ip' vs' (site_step \<sigma> (here \<sigma> w ip vs))"
  by (rule site_step_op [OF assms(1,2)]) (use assms(2-4) in \<open>simp add: do_op_call_global_def load_global_here finishes_def\<close>)

lemma step_call:
  assumes "site_ok \<sigma> w" "code_in (si_chunk \<sigma>) ip [op_byte OP_CALL, n]" "foreign_ok (si_ext \<sigma>) cl"
    "\<not> vis_bcclosure f w" "room \<sigma> vs 1" "length as = unat n" "x_apply (si_ext \<sigma>) f (int (length as)) as w = (r, w')"
  shows "finishes \<sigma> r w' (ip + 2) vs (site_step \<sigma> (here \<sigma> w ip (vs @ f # as)))"
proof -
  have "blind cl (x_apply (si_ext \<sigma>) f (int (unat n)) as)" using assms(3) by (simp add: foreign_ok_def)
  from do_call_here(2) [OF this assms(1,4,5,6)] assms(6,7)
  have "finishes \<sigma> r w' (ip + 2) vs (do_call (si_ext \<sigma>) f (unat n) True (here \<sigma> w (ip + 2) (vs @ f # as)))" by simp
  moreover obtain u where "u_chunk u = si_chunk \<sigma>" "u_base u = length (si_stack \<sigma>)"
    "\<And>vs. site_step \<sigma> (here \<sigma> w ip vs) = exec_op OP_CALL (si_ext \<sigma>) (si_depth \<sigma>) u (here \<sigma> w (ip + 1) vs)"
    by (rule site_step_op [OF assms(1,2)]) (rule that)
  ultimately show ?thesis using assms(2,6) by (simp add: do_op_call_def peek_here)
qed

lemma open_prims_exec:
  assumes "(opc, p, n) \<in> set open_prims" "opc \<noteq> OP_CONS"
  shows "exec_op opc x d u = (if n = 1 then unary_op x u p else binary_op x u p)"
  using assms by (auto simp: open_prims_def)

lemma open_prims_arity: "(opc, p, n) \<in> set open_prims \<Longrightarrow> n = 1 \<or> n = 2"
  by (auto simp: open_prims_def)

text \<open>
  An open-coded primitive does what the call of the variable's value does, whatever that value is by the
  time it runs: the primitive itself or what it was redefined to.
\<close>

lemma step_open_code:
  assumes "site_ok \<sigma> w" "code_in (si_chunk \<sigma>) ip [op_byte opc, b]" "foreign_ok (si_ext \<sigma>) cl" "prims_ok (si_ext \<sigma>)"
    "(opc, p, length as) \<in> set open_prims"
    "unat b < const_len (si_chunk \<sigma>)" "v_globals w (site_env \<sigma>) (ck_constants (si_chunk \<sigma>) ! unat b) = Some f"
    "room \<sigma> vs 1" "x_apply (si_ext \<sigma>) f (int (length as)) as w = (r, w')"
  shows "finishes \<sigma> r w' (ip + 2) vs (site_step \<sigma> (here \<sigma> w ip (vs @ as)))"
proof -
  let ?x = "si_ext \<sigma>"
  have open_w: "v_open w = []" using assms(1) by (simp add: site_ok_def)
  have call: "x_apply ?x f (int (length as)) as (here \<sigma> w ip' vs') = (r, here \<sigma> w' ip' vs')" for ip' vs'
    by (rule blind_here [of cl "x_apply ?x f (int (length as)) as"]) (use assms(3,9) open_w in \<open>auto simp: foreign_ok_def\<close>)
  have prim: "x_prim ?x p as (here \<sigma> w ip' vs') = (r, here \<sigma> w' ip' vs')" if "x_prim_fn ?x f = Some p" for ip' vs'
    using assms(4,5) that call by (fastforce simp: prims_ok_def)
  obtain u where u: "u_chunk u = si_chunk \<sigma>" "u_base u = length (si_stack \<sigma>)"
      "\<And>vs. site_step \<sigma> (here \<sigma> w ip vs) = exec_op opc ?x (si_depth \<sigma>) u (here \<sigma> w (ip + 1) vs)"
    by (rule site_step_op [OF assms(1,2)]) (rule that)
  note fin = finishes_result [OF assms(8), of r w' "ip + 2"]
  consider (cons) a c where "opc = OP_CONS" "p = ''prim_cons''" "as = [a, c]" | (one) a where "opc \<noteq> OP_CONS" "as = [a]"
    | (two) a c where "opc \<noteq> OP_CONS" "as = [a, c]"
    using assms(5) open_prims_arity [OF assms(5)]
    by (cases "opc = OP_CONS") (auto simp: open_prims_def length_Suc_conv numeral_2_eq_2)
  then show ?thesis
  proof cases
    case one
    then show ?thesis using fin assms(2,5,6,7) u prim call
      by (auto simp: open_prims_exec [OF assms(5)] unary_op_def open_coded_unary1_def load_global_here call_foreign_def)
  next
    case two
    then show ?thesis using fin assms(2,5,6,7) u prim call
      by (auto simp: open_prims_exec [OF assms(5)] binary_op_def open_coded_binary2_def load_global_here call_foreign_def pop2_here)
  next
    case cons
    show ?thesis
    proof (cases "x_prim_fn ?x f = Some ''prim_cons''")
      case False
      with cons show ?thesis using fin assms(2,6,7) u call
        by (simp add: do_op_cons_def load_global_here call_foreign_def pop2_here)
    next
      case True
      then have "(case vm_alloc ?x (OPair a c) (here \<sigma> w (ip + 2) vs) of (p, w') \<Rightarrow> (Inr p, w')) = (r, here \<sigma> w' (ip + 2) vs)"
        using prim [of "ip + 2" vs] assms(4) cons by (simp add: prims_ok_def)
      then obtain v where "vm_alloc ?x (OPair a c) (here \<sigma> w (ip + 2) vs) = (v, here \<sigma> w' (ip + 2) vs)" "r = Inr v"
        by (auto split: prod.splits)
      with cons True show ?thesis using assms(2,6,7) u
        by (simp add: do_op_cons_def load_global_here pop2_here finishes_def)
    qed
  qed
qed

lemma step_open_code_unbound:
  assumes "site_ok \<sigma> w" "code_in (si_chunk \<sigma>) ip [op_byte opc, b]" "(opc, p, length as) \<in> set open_prims"
    "unat b < const_len (si_chunk \<sigma>)" "v_globals w (site_env \<sigma>) (ck_constants (si_chunk \<sigma>) ! unat b) = None"
  shows "finishes \<sigma> (Inl unbound_variable) w ip' vs' (site_step \<sigma> (here \<sigma> w ip (vs @ as)))"
proof -
  obtain u where u: "u_chunk u = si_chunk \<sigma>" "u_base u = length (si_stack \<sigma>)"
      "\<And>vs. site_step \<sigma> (here \<sigma> w ip vs) = exec_op opc (si_ext \<sigma>) (si_depth \<sigma>) u (here \<sigma> w (ip + 1) vs)"
    by (rule site_step_op [OF assms(1,2)]) (rule that)
  show ?thesis
  proof (cases "opc = OP_CONS")
    case True
    then show ?thesis using assms(2,4,5) u by (simp add: do_op_cons_def load_global_here finishes_def)
  next
    case False
    from open_prims_arity [OF assms(3)] consider a where "as = [a]" | a c where "as = [a, c]"
      by (auto simp: length_Suc_conv numeral_2_eq_2)
    then show ?thesis using assms(2,4,5) u False
      by cases (auto simp: open_prims_exec [OF assms(3)] unary_op_def binary_op_def open_coded_unary1_def open_coded_binary2_def
          load_global_here pop2_here finishes_def)
  qed
qed

section \<open>Outcomes\<close>

definition runs :: "site \<Rightarrow> vm \<Rightarrow> vm \<Rightarrow> bool" where
  "runs \<sigma> = (\<lambda>s s'. site_step \<sigma> s = (Running, s'))\<^sup>*\<^sup>*"

text \<open>
  From state \<open>s\<close> the machine gets to a state that is right for the value, or raises the error with the
  world of \<open>w\<close>. Nothing is said of an outcome that the reference evaluation leaves undefined.
\<close>

definition yields :: "site \<Rightarrow> vm \<Rightarrow> 'a res \<Rightarrow> ('a \<Rightarrow> vm \<Rightarrow> bool) \<Rightarrow> vm \<Rightarrow> bool" where
  "yields \<sigma> s r ok w \<longleftrightarrow> (case r of
     Inr v \<Rightarrow> (\<exists>s'. runs \<sigma> s s' \<and> ok v s')
   | Inl er \<Rightarrow> er = Undefined \<or> (\<exists>s1 s2. runs \<sigma> s s1 \<and> site_step \<sigma> s1 = (Raised er, s2) \<and> world s2 = world w \<and> v_handlers s2 = si_handlers \<sigma>))"

lemma runs_refl [simp]: "runs \<sigma> s s"
  by (simp add: runs_def)

lemma runs_trans: "runs \<sigma> s s' \<Longrightarrow> runs \<sigma> s' s'' \<Longrightarrow> runs \<sigma> s s''"
  unfolding runs_def by (rule rtranclp_trans)

lemma runs_step: "site_step \<sigma> s = (Running, s') \<Longrightarrow> runs \<sigma> s s'"
  unfolding runs_def by (rule r_into_rtranclp)

lemma yields_Undefined [simp]: "yields \<sigma> s (Inl Undefined) ok w"
  by (simp add: yields_def)

lemma yields_runs:
  assumes "runs \<sigma> s s'" "yields \<sigma> s' r ok w"
  shows "yields \<sigma> s r ok w"
  using assms runs_trans [OF assms(1)] by (cases r) (auto simp: yields_def intro: runs_trans)

lemmas yields_step = yields_runs [OF runs_step]

lemma yields_done: "ok v s \<Longrightarrow> yields \<sigma> s (Inr v) ok w"
  by (auto simp: yields_def intro!: exI [of _ s])

lemma yields_bind:
  assumes "yields \<sigma> s r1 ok1 w1" "\<And>er. r1 = Inl er \<Longrightarrow> r = Inl er \<and> w = w1"
    "\<And>v s'. r1 = Inr v \<Longrightarrow> ok1 v s' \<Longrightarrow> yields \<sigma> s' r ok w"
  shows "yields \<sigma> s r ok w"
proof (cases r1)
  case (Inl er)
  with assms(1,2) show ?thesis by (auto simp: yields_def)
next
  case (Inr v)
  with assms(1) obtain s' where "runs \<sigma> s s'" "ok1 v s'" by (auto simp: yields_def)
  with assms(3) [OF Inr] yields_runs show ?thesis by blast
qed

lemma yields_finishes:
  assumes "finishes \<sigma> r w ip vs (site_step \<sigma> s)" "\<And>v. r = Inr v \<Longrightarrow> ok v (here \<sigma> w ip (vs @ [v]))"
  shows "yields \<sigma> s r ok w"
proof (cases r)
  case (Inl er)
  with assms(1) have "site_step \<sigma> s = (Raised er, snd (site_step \<sigma> s))" "world (snd (site_step \<sigma> s)) = world w"
      "v_handlers (snd (site_step \<sigma> s)) = si_handlers \<sigma>"
    by (auto simp: finishes_def prod_eq_iff)
  with Inl show ?thesis by (auto simp: yields_def intro: runs_refl)
next
  case (Inr v)
  with assms show ?thesis by (auto simp: finishes_def yields_def intro!: exI [of _ "here \<sigma> w ip (vs @ [v])"] runs_step)
qed

end
