(* ===== verification/Compile_Correct.thy ===== *)
theory Compile_Correct
  imports Ir_Semantics Emit_Layout Vm_Exec
begin

text \<open>
  Correctness of the compiler against the reference evaluation, for top-level forms that create no
  procedure: running the emitted code leaves the value that \<open>ir_eval\<close> gives on the stack, with the variables,
  globals and heap it gives, or raises the same error. The locals of the compiler and the slots of the
  frame correspond one to one; slots of pending values have the name \<open>#f\<close> and are invisible.
\<close>

section \<open>Locals and slots\<close>

definition visible :: "local_var list \<Rightarrow> val list \<Rightarrow> locals" where
  "visible ls vs = filter (\<lambda>p. fst p \<noteq> V_FALSE) (zip (map lo_name ls) vs)"

definition hidden :: "local_var list \<Rightarrow> val list \<Rightarrow> val list" where
  "hidden ls vs = map snd (filter (\<lambda>p. fst p = V_FALSE) (zip (map lo_name ls) vs))"

lemma hidden_snoc [simp]:
  "length vs = length ls \<Longrightarrow> hidden (ls @ [l]) (vs @ [v]) = hidden ls vs @ (if lo_name l = V_FALSE then [v] else [])"
  by (simp add: hidden_def)

lemma visible_snoc [simp]:
  "length vs = length ls \<Longrightarrow> visible (ls @ [l]) (vs @ [v]) = visible ls vs @ (if lo_name l = V_FALSE then [] else [(lo_name l, v)])"
  by (simp add: visible_def)

lemma find_local_snoc [simp]:
  "find_local (ls @ [l]) name = (if lo_name l = name then Some (length ls) else find_local ls name)"
proof -
  have "find (\<lambda>i. lo_name ((ls @ [l]) ! i) = name) (rev [0..<length ls]) = find (\<lambda>i. lo_name (ls ! i) = name) (rev [0..<length ls])"
    by (rule find_cong) (auto simp: nth_append)
  then show ?thesis by (simp add: find_local_def)
qed

lemma find_local_bound: "find_local ls name = Some i \<Longrightarrow> i < length ls"
  by (induction ls rule: rev_induct) (auto simp: find_local_def [of "[]"] split: if_splits)

lemma local_index_snoc [simp]:
  "local_index (env @ [p]) name = (if fst p = name then Some (length env) else local_index env name)"
proof -
  have "find (\<lambda>i. fst ((env @ [p]) ! i) = name) (rev [0..<length env]) = find (\<lambda>i. fst (env ! i) = name) (rev [0..<length env])"
    by (rule find_cong) (auto simp: nth_append)
  then show ?thesis by (simp add: local_index_def)
qed

lemma find_local_visible:
  assumes "length vs = length ls" "name \<noteq> V_FALSE"
  shows "case find_local ls name of
      None \<Rightarrow> local_index (visible ls vs) name = None
    | Some i \<Rightarrow> i < length ls \<and> (\<exists>j < length (visible ls vs). local_index (visible ls vs) name = Some j \<and>
        visible ls vs ! j = (name, vs ! i) \<and> (\<forall>v. visible ls (vs[i := v]) = (visible ls vs)[j := (name, v)] \<and> hidden ls (vs[i := v]) = hidden ls vs))"
  using assms(1)
proof (induction ls arbitrary: vs rule: rev_induct)
  case Nil
  then show ?case by (simp add: find_local_def local_index_def visible_def)
next
  case (snoc l ls)
  then obtain us u where vs: "vs = us @ [u]" "length us = length ls" by (cases vs rule: rev_cases) auto
  note IH = snoc.IH [OF vs(2)]
  show ?case
  proof (cases "lo_name l = name")
    case True
    with assms(2) vs show ?thesis by (simp add: list_update_append nth_append)
  next
    case False
    show ?thesis
    proof (cases "find_local ls name")
      case None
      with IH False vs show ?thesis by simp
    next
      case (Some i)
      with IH obtain j where j: "i < length ls" "j < length (visible ls us)" "local_index (visible ls us) name = Some j"
          "visible ls us ! j = (name, us ! i)" "\<And>v. visible ls (us[i := v]) = (visible ls us)[j := (name, v)]" "\<And>v. hidden ls (us[i := v]) = hidden ls us" by auto
      have "visible (ls @ [l]) (vs[i := v]) = (visible (ls @ [l]) vs)[j := (name, v)]"
          "hidden (ls @ [l]) (vs[i := v]) = hidden (ls @ [l]) vs" for v
        using j vs by (auto simp: list_update_append)
      with Some j False vs show ?thesis by (auto simp: nth_append intro!: exI [of _ j])
    qed
  qed
qed

section \<open>The fragment\<close>

text \<open>
  The forms covered: variables are symbols, definitions stand at top level, bodies of \<open>begin\<close> are not
  empty, calls have as many arguments as their count byte can hold, and procedures occur only as the callee
  of a \<open>let\<close> without internal definitions.
\<close>

fun plain :: "rt \<Rightarrow> bool \<Rightarrow> ir \<Rightarrow> bool"
  and plain_list :: "rt \<Rightarrow> bool \<Rightarrow> ir list \<Rightarrow> bool"
  and plain_forms :: "rt \<Rightarrow> bool \<Rightarrow> (int \<times> ir) list \<Rightarrow> bool" where
  "plain r lv (IR_CONST line v quoted) \<longleftrightarrow> True"
| "plain r lv (IR_VAR_REF line name) \<longleftrightarrow> vis_symbol r name"
| "plain r lv (IR_IF line test thn els) \<longleftrightarrow> plain r lv test \<and> plain r lv thn \<and> plain r lv els"
| "plain r lv (IR_SEQ line forms) \<longleftrightarrow> forms \<noteq> [] \<and> plain_forms r lv forms"
| "plain r lv (IR_SET line name n) \<longleftrightarrow> vis_symbol r name \<and> plain r lv n"
| "plain r lv (IR_AND line ns) \<longleftrightarrow> plain_list r lv ns"
| "plain r lv (IR_OR line ns) \<longleftrightarrow> plain_list r lv ns"
| "plain r lv (IR_DEFINE line name n) \<longleftrightarrow> lv \<and> vis_symbol r name \<and> plain r lv n"
| "plain r lv (IR_CALL line head callee args) \<longleftrightarrow> length args \<le> 255 \<and>
     (case callee of
        IR_LAMBDA _ params rest defs body \<Rightarrow> head = V_FALSE \<and> defs = [] \<and> length params = length args \<and>
          list_all (vis_symbol r) params \<and> plain_list r False args \<and> plain_forms r False body
      | _ \<Rightarrow> plain r lv callee \<and> plain_list r lv args)"
| "plain r lv (IR_LAMBDA line params rest defs body) \<longleftrightarrow> False"
| "plain r lv (IR_NAMED_LET line loop vars inits mutated defs body) \<longleftrightarrow> False"
| "plain_list r lv [] \<longleftrightarrow> True"
| "plain_list r lv (n # ns) \<longleftrightarrow> plain r lv n \<and> plain_list r lv ns"
| "plain_forms r lv [] \<longleftrightarrow> True"
| "plain_forms r lv ((line, n) # ps) \<longleftrightarrow> plain r lv n \<and> plain_forms r lv ps"

text \<open>The number of slots above the current ones that evaluating a form uses at most.\<close>

fun ir_need :: "ir \<Rightarrow> nat" and need_list :: "ir list \<Rightarrow> nat" and need_forms :: "(int \<times> ir) list \<Rightarrow> nat" where
  "ir_need (IR_IF line test thn els) = ir_need test + ir_need thn + ir_need els"
| "ir_need (IR_SEQ line forms) = 1 + need_forms forms"
| "ir_need (IR_SET line name n) = 1 + ir_need n"
| "ir_need (IR_AND line ns) = 1 + need_list ns"
| "ir_need (IR_OR line ns) = 1 + need_list ns"
| "ir_need (IR_DEFINE line name n) = 1 + ir_need n"
| "ir_need (IR_CALL line head callee args) = 1 + ir_need callee + need_list args"
| "ir_need (IR_LAMBDA line params rest defs body) = 1 + need_forms body"
| "ir_need (IR_NAMED_LET line loop vars inits mutated defs body) = 1 + need_list inits + need_forms body"
| "ir_need n = 1"
| "need_list [] = 0"
| "need_list (n # ns) = ir_need n + need_list ns"
| "need_forms [] = 0"
| "need_forms ((line, n) # ps) = ir_need n + need_forms ps"

lemma ir_need_pos [simp]: "0 < ir_need n"
  by (induction n) auto

lemma need_list_length: "length ns \<le> need_list ns"
proof (induction ns)
  case (Cons n ns)
  then show ?case using ir_need_pos [of n] by (simp del: ir_need_pos)
qed simp

section \<open>Simulation\<close>

definition sem_of :: "site \<Rightarrow> comp_env \<Rightarrow> sem" where
  "sem_of \<sigma> e = \<lparr>m_vm = si_ext \<sigma>, m_rt = ce_rt e, m_env = site_env \<sigma>,
     m_rep = pool_value (ce_rt e) (ck_constants (si_chunk \<sigma>))\<rparr>"

definition good :: "site \<Rightarrow> local_var list \<Rightarrow> val list \<Rightarrow> nat \<Rightarrow> ('a \<Rightarrow> val list) \<Rightarrow> locals \<Rightarrow> vm \<Rightarrow> 'a \<Rightarrow> vm \<Rightarrow> bool" where
  "good \<sigma> ls pend ip emb env w v s \<longleftrightarrow>
     (\<exists>vs. length vs = length ls \<and> visible ls vs = env \<and> hidden ls vs = pend \<and> site_ok \<sigma> w \<and> s = here \<sigma> w ip (vs @ emb v))"

text \<open>
  The code from \<open>ip\<close> to \<open>ip'\<close> does what the evaluation says, on a frame with the locals \<open>ls\<close> and room for \<open>k\<close>
  more values; \<open>emb\<close> gives the values it leaves above the locals.
\<close>

definition simulates :: "site \<Rightarrow> local_var list \<Rightarrow> nat \<Rightarrow> nat \<Rightarrow> nat \<Rightarrow> ('a \<Rightarrow> val list) \<Rightarrow> 'a ev \<Rightarrow> bool" where
  "simulates \<sigma> ls ip ip' k emb ev \<longleftrightarrow> (\<forall>w vs r env' w'. site_ok \<sigma> w \<and> length vs = length ls \<and> room \<sigma> vs k \<and>
     ev (visible ls vs) w = (r, env', w') \<longrightarrow> yields \<sigma> (here \<sigma> w ip vs) r (good \<sigma> ls (hidden ls vs) ip' emb env' w') w')"

lemma simulatesI:
  assumes "\<And>w vs r env' w'. site_ok \<sigma> w \<Longrightarrow> length vs = length ls \<Longrightarrow> room \<sigma> vs k \<Longrightarrow> ev (visible ls vs) w = (r, env', w') \<Longrightarrow>
    yields \<sigma> (here \<sigma> w ip vs) r (good \<sigma> ls (hidden ls vs) ip' emb env' w') w'"
  shows "simulates \<sigma> ls ip ip' k emb ev"
  using assms by (simp add: simulates_def)

lemma simulatesD:
  assumes "simulates \<sigma> ls ip ip' k' emb ev" "site_ok \<sigma> w" "length vs = length ls" "room \<sigma> vs k'" "ev (visible ls vs) w = (r, env', w')"
  shows "yields \<sigma> (here \<sigma> w ip vs) r (good \<sigma> ls (hidden ls vs) ip' emb env' w') w'"
  using assms by (auto simp: simulates_def)

lemma simulates_bind:
  assumes "simulates \<sigma> ls ip ip1 k1 emb1 ev1" "k1 \<le> k"
    "\<And>v w vs r env' w'. site_ok \<sigma> w \<Longrightarrow> length vs = length ls \<Longrightarrow> room \<sigma> vs k \<Longrightarrow> ev2 v (visible ls vs) w = (r, env', w') \<Longrightarrow>
       yields \<sigma> (here \<sigma> w ip1 (vs @ emb1 v)) r (good \<sigma> ls (hidden ls vs) ip' emb env' w') w'"
  shows "simulates \<sigma> ls ip ip' k emb (ebind ev1 ev2)"
proof (rule simulatesI)
  fix w vs r env' w'
  assume 0: "site_ok \<sigma> w" "length vs = length ls" "room \<sigma> vs k" "ebind ev1 ev2 (visible ls vs) w = (r, env', w')"
  obtain r1 env1 w1 where 1: "ev1 (visible ls vs) w = (r1, env1, w1)" by (metis prod_cases3)
  have "yields \<sigma> (here \<sigma> w ip vs) r1 (good \<sigma> ls (hidden ls vs) ip1 emb1 env1 w1) w1"
    by (rule simulatesD [OF assms(1)]) (use 0 1 assms(2) in auto)
  then show "yields \<sigma> (here \<sigma> w ip vs) r (good \<sigma> ls (hidden ls vs) ip' emb env' w') w'"
  proof (rule yields_bind)
    show "r = Inl er \<and> w' = w1" if "r1 = Inl er" for er using that 0 1 by (simp add: ebind_def)
    fix v s'
    assume v: "r1 = Inr v" "good \<sigma> ls (hidden ls vs) ip1 emb1 env1 w1 v s'"
    then obtain us where us: "length us = length ls" "visible ls us = env1" "hidden ls us = hidden ls vs" "site_ok \<sigma> w1"
        "s' = here \<sigma> w1 ip1 (us @ emb1 v)"
      by (auto simp: good_def)
    have "yields \<sigma> (here \<sigma> w1 ip1 (us @ emb1 v)) r (good \<sigma> ls (hidden ls us) ip' emb env' w') w'"
      by (rule assms(3)) (use 0 1 v us in \<open>auto simp: ebind_def\<close>)
    with us show "yields \<sigma> s' r (good \<sigma> ls (hidden ls vs) ip' emb env' w') w'" by simp
  qed
qed

lemma good_here:
  "site_ok \<sigma> w \<Longrightarrow> length vs = length ls \<Longrightarrow> good \<sigma> ls (hidden ls vs) ip emb (visible ls vs) w v (here \<sigma> w ip (vs @ emb v))"
  by (auto simp: good_def)

section \<open>Emitted code\<close>

definition emits :: "compiler \<Rightarrow> u8 list \<Rightarrow> compiler \<Rightarrow> bool" where
  "emits c bs c' \<longleftrightarrow> code_of c' = code_of c @ bs \<and> (\<exists>ext. pool_of c' = pool_of c @ ext) \<and> length (pool_of c') \<le> 256 \<and>
     depth_of c' = depth_of c \<and> cp_enclosing c' = cp_enclosing c"

definition ready :: "compiler \<Rightarrow> nat \<Rightarrow> bool" where
  "ready c k \<longleftrightarrow> length (pool_of c) \<le> 256 \<and> cp_enclosing c = [] \<and> length (cp_locals c) + k < 256 \<and> 0 \<le> depth_of c \<and>
     (\<forall>l \<in> set (cp_locals c). lo_depth l \<le> depth_of c \<and> \<not> lo_captured l)"

definition running :: "site \<Rightarrow> compiler \<Rightarrow> u8 list \<Rightarrow> compiler \<Rightarrow> bool" where
  "running \<sigma> c bs c' \<longleftrightarrow> code_in (si_chunk \<sigma>) (chunk_pos c) bs \<and> (\<exists>ext. ck_constants (si_chunk \<sigma>) = pool_of c' @ ext) \<and>
     code_len (si_chunk \<sigma>) \<le> 0xFFFF \<and> foreign_ok (si_ext \<sigma>) (cf_closure (si_frame \<sigma>)) \<and> prims_ok (si_ext \<sigma>)"

definition compiled :: "compiler \<Rightarrow> compiler \<Rightarrow> nat \<Rightarrow> ('a \<Rightarrow> val list) \<Rightarrow> (site \<Rightarrow> 'a ev) \<Rightarrow> bool" where
  "compiled c c' k emb ev \<longleftrightarrow> (\<exists>bs. emits c bs c' \<and> (\<forall>\<sigma>. running \<sigma> c bs c' \<longrightarrow>
     simulates \<sigma> (cp_locals c) (chunk_pos c) (chunk_pos c') k emb (ev \<sigma>)))"

definition correct :: "comp_env \<Rightarrow> emitter \<Rightarrow> ir \<Rightarrow> bool" where
  "correct e f n \<longleftrightarrow> (\<forall>c c'. f False c n = Inr c' \<and> ready c (ir_need n) \<and> plain (ce_rt e) (depth_of c = 0) n \<longrightarrow>
     cp_locals c' = cp_locals c \<and> compiled c c' (ir_need n) (\<lambda>v. [v]) (\<lambda>\<sigma>. ir_eval (sem_of \<sigma> e) n))"

lemma correctD:
  assumes "correct e f n" "f False c n = Inr c'" "ready c (ir_need n)" "plain (ce_rt e) (depth_of c = 0) n"
  obtains bs where "emits c bs c'" "cp_locals c' = cp_locals c"
    "\<And>\<sigma>. running \<sigma> c bs c' \<Longrightarrow> simulates \<sigma> (cp_locals c) (chunk_pos c) (chunk_pos c') (ir_need n) (\<lambda>v. [v]) (ir_eval (sem_of \<sigma> e) n)"
proof -
  have "cp_locals c' = cp_locals c" "compiled c c' (ir_need n) (\<lambda>v. [v]) (\<lambda>\<sigma>. ir_eval (sem_of \<sigma> e) n)"
    using assms unfolding correct_def by blast+
  then show ?thesis unfolding compiled_def by (blast intro: that)
qed

lemma emits_refl: "length (pool_of c) \<le> 256 \<Longrightarrow> emits c [] c"
  by (simp add: emits_def)

lemma emits_trans: "emits c bs c1 \<Longrightarrow> emits c1 bs' c2 \<Longrightarrow> emits c (bs @ bs') c2"
  by (auto simp: emits_def)

lemma emits_pos: "emits c bs c' \<Longrightarrow> chunk_pos c' = chunk_pos c + length bs"
  by (simp add: emits_def)

lemma running_split:
  assumes "running \<sigma> c (bs @ bs') c2" "emits c bs c1" "emits c1 bs' c2"
  shows "running \<sigma> c bs c1" "running \<sigma> c1 bs' c2"
  using assms by (auto simp: running_def emits_def)

lemma running_consts:
  assumes "running \<sigma> c bs c'" "pool_entry r (pool_of c') i v"
  shows "i < const_len (si_chunk \<sigma>)" "ck_constants (si_chunk \<sigma>) ! i = pool_value r (ck_constants (si_chunk \<sigma>)) v"
    "vis_symbol r v \<Longrightarrow> ck_constants (si_chunk \<sigma>) ! i = v"
proof -
  obtain ext where "ck_constants (si_chunk \<sigma>) = pool_of c' @ ext" using assms(1) by (auto simp: running_def)
  with assms(2) have entry: "pool_entry r (ck_constants (si_chunk \<sigma>)) i v" by (simp add: pool_entry_append)
  then show "i < const_len (si_chunk \<sigma>)" by (simp add: pool_entry_def)
  show "ck_constants (si_chunk \<sigma>) ! i = pool_value r (ck_constants (si_chunk \<sigma>)) v" using pool_entry_value [OF entry] by simp
  show "ck_constants (si_chunk \<sigma>) ! i = v" if "vis_symbol r v" using pool_entry_symbol [OF entry that] .
qed

lemma correctI:
  assumes "\<And>c c'. f False c n = Inr c' \<Longrightarrow> ready c (ir_need n) \<Longrightarrow> plain (ce_rt e) (depth_of c = 0) n \<Longrightarrow>
    cp_locals c' = cp_locals c \<and> compiled c c' (ir_need n) (\<lambda>v. [v]) (\<lambda>\<sigma>. ir_eval (sem_of \<sigma> e) n)"
  shows "correct e f n"
  using assms unfolding correct_def by blast

lemma compiledI:
  assumes "emits c bs c'" "\<And>\<sigma>. running \<sigma> c bs c' \<Longrightarrow> simulates \<sigma> (cp_locals c) (chunk_pos c) (chunk_pos c') k emb (ev \<sigma>)"
  shows "compiled c c' k emb ev"
  using assms unfolding compiled_def by blast

lemma u8_index: "i < 256 \<Longrightarrow> unat (word_of_nat i :: u8) = i"
  by (simp add: unat_of_nat)

lemma sem_of_simps [simp]:
  "m_vm (sem_of \<sigma> e) = si_ext \<sigma>" "m_rt (sem_of \<sigma> e) = ce_rt e" "m_env (sem_of \<sigma> e) = site_env \<sigma>"
  "m_rep (sem_of \<sigma> e) = pool_value (ce_rt e) (ck_constants (si_chunk \<sigma>))"
  by (simp_all add: sem_of_def)

section \<open>Constants and variables\<close>

lemma simulates_value:
  assumes "\<And>w vs. site_ok \<sigma> w \<Longrightarrow> length vs = length ls \<Longrightarrow> room \<sigma> vs k \<Longrightarrow>
    site_step \<sigma> (here \<sigma> w ip vs) = (Running, here \<sigma> w ip' (vs @ [v]))"
  shows "simulates \<sigma> ls ip ip' k (\<lambda>v. [v]) (eret v)"
proof (rule simulatesI)
  fix w vs r env' w'
  assume 0: "site_ok \<sigma> w" "length vs = length ls" "room \<sigma> vs k" "eret v (visible ls vs) w = (r, env', w')"
  with assms have "site_step \<sigma> (here \<sigma> w ip vs) = (Running, here \<sigma> w ip' (vs @ [v]))" by blast
  then show "yields \<sigma> (here \<sigma> w ip vs) r (good \<sigma> ls (hidden ls vs) ip' (\<lambda>v. [v]) env' w') w'"
    using 0 good_here [OF 0(1,2), of ip' "\<lambda>v. [v]" v] by (auto simp: eret_def intro!: yields_step [OF _ yields_done])
qed

lemma emit_op_correct:
  assumes "(opc, v) \<in> {(OP_TRUE, V_TRUE), (OP_FALSE, V_FALSE), (OP_NIL, V_NIL), (OP_VOID, V_VOID)}" "length (pool_of c) \<le> 256"
  shows "compiled c (emit c opc line) 1 (\<lambda>v. [v]) (\<lambda>\<sigma>. eret v)"
proof (rule compiledI)
  show "emits c [op_byte opc] (emit c opc line)" using assms(2) by (simp add: emits_def)
  fix \<sigma>
  assume "running \<sigma> c [op_byte opc] (emit c opc line)"
  then have "code_in (si_chunk \<sigma>) (chunk_pos c) [op_byte opc]" unfolding running_def by blast
  then show "simulates \<sigma> (cp_locals c) (chunk_pos c) (chunk_pos (emit c opc line)) 1 (\<lambda>v. [v]) (eret v)"
    using step_push [OF _ _ _ assms(1)] by (intro simulates_value) simp
qed

lemma emit_const_correct:
  assumes "emit_const e c v line = Inr c'" "length (pool_of c) \<le> 256"
  shows "cp_locals c' = cp_locals c"
    "compiled c c' 1 (\<lambda>v. [v]) (\<lambda>\<sigma>. eret (pool_value (ce_rt e) (ck_constants (si_chunk \<sigma>)) v))"
proof -
  obtain i c1 where add: "add_const e c v = Inr (i, c1)" using assms(1) by (auto simp: emit_const_def rbind_Inr_iff)
  note ac = add_const_eq [OF add assms(2)]
  have c': "c' = emit_byte (emit c1 OP_CONST line) (word_of_nat i) line"
    using assms(1) add ac(2) by (simp add: emit_const_def)
  show "cp_locals c' = cp_locals c" by (simp add: c' ac)
  show "compiled c c' 1 (\<lambda>v. [v]) (\<lambda>\<sigma>. eret (pool_value (ce_rt e) (ck_constants (si_chunk \<sigma>)) v))"
  proof (rule compiledI)
    show "emits c [op_byte OP_CONST, word_of_nat i] c'" using ac by (simp add: emits_def c')
    fix \<sigma>
    assume run: "running \<sigma> c [op_byte OP_CONST, word_of_nat i] c'"
    then have code: "code_in (si_chunk \<sigma>) (chunk_pos c) [op_byte OP_CONST, word_of_nat i]" unfolding running_def by blast
    have "pool_entry (ce_rt e) (pool_of c') i v" using ac(1) by (simp add: c')
    note entry = running_consts [OF run this]
    have "site_step \<sigma> (here \<sigma> w (chunk_pos c) vs) =
        (Running, here \<sigma> w (chunk_pos c') (vs @ [pool_value (ce_rt e) (ck_constants (si_chunk \<sigma>)) v]))"
      if "site_ok \<sigma> w" "room \<sigma> vs 1" for w vs
      using step_const [OF that(1) code that(2)] entry ac(2,3) by (simp add: u8_index c')
    then show "simulates \<sigma> (cp_locals c) (chunk_pos c) (chunk_pos c') 1 (\<lambda>v. [v]) (eret (pool_value (ce_rt e) (ck_constants (si_chunk \<sigma>)) v))"
      by (intro simulates_value) simp
  qed
qed

lemma const_correct: "correct e (emit_node e f) (IR_CONST line v quoted)"
proof (rule correctI)
  fix c c'
  assume em: "emit_node e f False c (IR_CONST line v quoted) = Inr c'" and "ready c (ir_need (IR_CONST line v quoted))"
  then have pool: "length (pool_of c) \<le> 256" by (simp add: ready_def)
  show "cp_locals c' = cp_locals c \<and> compiled c c' (ir_need (IR_CONST line v quoted)) (\<lambda>v. [v])
      (\<lambda>\<sigma>. ir_eval (sem_of \<sigma> e) (IR_CONST line v quoted))"
  proof (cases "if quoted then None else emit_immediate v")
    case None
    then have "emit_const e c v line = Inr c'" using em by (simp add: emit_node_def)
    moreover have "const_value (sem_of \<sigma> e) v quoted = pool_value (ce_rt e) (ck_constants (si_chunk \<sigma>)) v" for \<sigma>
      using None by (auto simp: const_value_def split: if_splits)
    ultimately show ?thesis using emit_const_correct [OF _ pool] by simp
  next
    case (Some opc)
    then have "const_value (sem_of \<sigma> e) v quoted = v" for \<sigma> by (auto simp: const_value_def split: if_splits)
    moreover have "(opc, v) \<in> {(OP_TRUE, V_TRUE), (OP_FALSE, V_FALSE), (OP_NIL, V_NIL), (OP_VOID, V_VOID)}"
      using Some by (auto simp: emit_immediate_def split: if_splits)
    moreover have "c' = emit c opc line" using em Some by (simp add: emit_node_def)
    ultimately show ?thesis using emit_op_correct [OF _ pool] by simp
  qed
qed

lemma symbol_not_false: "vis_symbol r name \<Longrightarrow> name \<noteq> V_FALSE"
  by (auto simp: vis_symbol_def obj_at_def vis_ptr_def vtag_def V_FALSE_def tag_defs split: option.splits)

lemma resolve_upvalue_top: "cp_enclosing c = [] \<Longrightarrow> resolve_upvalue c name = Inr (None, c)"
  by (cases c) (simp add: resolve_upvalue_def)

text \<open>A variable of a top-level form is a local, or a global whose name is in the pool.\<close>

lemma emit_var_cases:
  assumes "emit_var ol ou og e c name line = Inr c'" "ready c k"
  obtains (slot) i where "find_local (cp_locals c) name = Some i" "i < 256" "emits c [op_byte ol, word_of_nat i] c'"
      "cp_locals c' = cp_locals c"
    | (global) ci where "find_local (cp_locals c) name = None" "ci < 256" "emits c [op_byte og, word_of_nat ci] c'"
      "pool_entry (ce_rt e) (pool_of c') ci name" "cp_locals c' = cp_locals c"
proof (cases "find_local (cp_locals c) name")
  case (Some i)
  moreover have "i < length (cp_locals c)" using Some by (rule find_local_bound)
  ultimately show ?thesis using assms by (intro slot) (auto simp: emit_var_def resolve_local_def ready_def emits_def)
next
  case None
  have "cp_enclosing c = []" "length (pool_of c) \<le> 256" using assms(2) by (simp_all add: ready_def)
  with None assms(1) obtain ci c1 where add: "add_const e c name = Inr (ci, c1)" "c' = emit_ab c1 og (word_of_nat ci) line"
    by (auto simp: emit_var_def resolve_local_def resolve_upvalue_top rbind_Inr_iff)
  note ac = add_const_eq [OF add(1) \<open>length (pool_of c) \<le> 256\<close>]
  show ?thesis using None ac by (intro global) (auto simp: emits_def add(2))
qed

lemma var_ref_correct: "correct e (emit_node e f) (IR_VAR_REF line name)"
proof (rule correctI)
  fix c c'
  assume em: "emit_node e f False c (IR_VAR_REF line name) = Inr c'" and ready: "ready c (ir_need (IR_VAR_REF line name))"
    and plain: "plain (ce_rt e) (depth_of c = 0) (IR_VAR_REF line name)"
  have sym: "vis_symbol (ce_rt e) name" "name \<noteq> V_FALSE" using plain symbol_not_false by auto
  have "emit_var OP_LOAD_LOCAL OP_LOAD_UP OP_LOAD_GLOBAL e c name line = Inr c'" using em by (simp add: emit_node_def emit_load_def)
  then show "cp_locals c' = cp_locals c \<and> compiled c c' (ir_need (IR_VAR_REF line name)) (\<lambda>v. [v]) (\<lambda>\<sigma>. ir_eval (sem_of \<sigma> e) (IR_VAR_REF line name))"
    using ready
  proof (cases rule: emit_var_cases)
    case (slot i)
    have "simulates \<sigma> (cp_locals c) (chunk_pos c) (chunk_pos c') 1 (\<lambda>v. [v]) (variable_value (sem_of \<sigma> e) name)"
      if "running \<sigma> c [op_byte OP_LOAD_LOCAL, word_of_nat i] c'" for \<sigma>
    proof (rule simulatesI)
      fix w vs r env' w'
      assume 0: "site_ok \<sigma> w" "length vs = length (cp_locals c)" "room \<sigma> vs 1" "variable_value (sem_of \<sigma> e) name (visible (cp_locals c) vs) w = (r, env', w')"
      have code: "code_in (si_chunk \<sigma>) (chunk_pos c) [op_byte OP_LOAD_LOCAL, word_of_nat i]" using that unfolding running_def by blast
      from find_local_visible [OF 0(2) sym(2)] slot(1) obtain j where
        "local_index (visible (cp_locals c) vs) name = Some j" "visible (cp_locals c) vs ! j = (name, vs ! i)" "i < length vs"
        using 0(2) by auto
      with 0(4) have r: "r = Inr (vs ! i)" "env' = visible (cp_locals c) vs" "w' = w" by (auto simp: variable_value_def)
      have "site_step \<sigma> (here \<sigma> w (chunk_pos c) vs) = (Running, here \<sigma> w (chunk_pos c') (vs @ [vs ! i]))"
        using step_load_local [OF 0(1) code 0(3)] slot(2) \<open>i < length vs\<close> by (simp add: u8_index emits_pos [OF slot(3)])
      then show "yields \<sigma> (here \<sigma> w (chunk_pos c) vs) r (good \<sigma> (cp_locals c) (hidden (cp_locals c) vs) (chunk_pos c') (\<lambda>v. [v]) env' w') w'"
        using good_here [OF 0(1,2), of _ "\<lambda>v. [v]"] by (auto simp: r intro!: yields_step [OF _ yields_done])
    qed
    with slot show ?thesis by (auto intro!: compiledI)
  next
    case (global ci)
    have "simulates \<sigma> (cp_locals c) (chunk_pos c) (chunk_pos c') 1 (\<lambda>v. [v]) (variable_value (sem_of \<sigma> e) name)"
      if run: "running \<sigma> c [op_byte OP_LOAD_GLOBAL, word_of_nat ci] c'" for \<sigma>
    proof (rule simulatesI)
      fix w vs r env' w'
      assume 0: "site_ok \<sigma> w" "length vs = length (cp_locals c)" "room \<sigma> vs 1" "variable_value (sem_of \<sigma> e) name (visible (cp_locals c) vs) w = (r, env', w')"
      have code: "code_in (si_chunk \<sigma>) (chunk_pos c) [op_byte OP_LOAD_GLOBAL, word_of_nat ci]" using run unfolding running_def by blast
      note entry = running_consts [OF run global(4)]
      have "local_index (visible (cp_locals c) vs) name = None" using find_local_visible [OF 0(2) sym(2)] global(1) by simp
      with 0(4) have r: "r = (case v_globals w (site_env \<sigma>) name of None \<Rightarrow> Inl unbound_variable | Some v \<Rightarrow> Inr v)"
          "env' = visible (cp_locals c) vs" "w' = w" by (auto simp: variable_value_def global_value_def split: option.splits)
      have step: "site_step \<sigma> (here \<sigma> w (chunk_pos c) vs) = (case v_globals w (site_env \<sigma>) name of
           None \<Rightarrow> (Raised unbound_variable, here \<sigma> w (chunk_pos c') vs) | Some v \<Rightarrow> (Running, here \<sigma> w (chunk_pos c') (vs @ [v])))"
        using step_load_global [OF 0(1) code 0(3)] entry(1) entry(3) [OF sym(1)] global(2)
        by (simp add: u8_index emits_pos [OF global(3)] cong: option.case_cong)
      have "finishes \<sigma> r w (chunk_pos c') vs (site_step \<sigma> (here \<sigma> w (chunk_pos c) vs))"
        unfolding step r(1) by (auto simp: finishes_def split: option.splits)
      then show "yields \<sigma> (here \<sigma> w (chunk_pos c) vs) r (good \<sigma> (cp_locals c) (hidden (cp_locals c) vs) (chunk_pos c') (\<lambda>v. [v]) env' w') w'"
        unfolding r(2,3) by (rule yields_finishes) (rule good_here [OF 0(1,2)])
    qed
    with global show ?thesis by (auto intro!: compiledI)
  qed
qed

section \<open>Assignment and definition\<close>

lemma ready_mono: "ready c k \<Longrightarrow> k' \<le> k \<Longrightarrow> ready c k'"
  by (simp add: ready_def)

lemma ready_emits: "ready c k \<Longrightarrow> emits c bs c' \<Longrightarrow> cp_locals c' = cp_locals c \<Longrightarrow> ready c' k"
  by (auto simp: ready_def emits_def)

lemma void_correct:
  assumes "site_ok \<sigma> w" "length vs = length ls" "room \<sigma> vs 1" "code_in (si_chunk \<sigma>) ip [op_byte OP_VOID]"
  shows "yields \<sigma> (here \<sigma> w ip vs) (Inr V_VOID) (good \<sigma> ls (hidden ls vs) (ip + 1) (\<lambda>v. [v]) (visible ls vs) w) w'"
proof -
  have "site_step \<sigma> (here \<sigma> w ip vs) = (Running, here \<sigma> w (ip + 1) (vs @ [V_VOID]))"
    using assms by (intro step_push [where opc = OP_VOID]) auto
  then show ?thesis using good_here [OF assms(1,2), of "ip + 1" "\<lambda>v. [v]" V_VOID] by (auto intro!: yields_step [OF _ yields_done])
qed

text \<open>The store instruction of a variable, run with the value on top of the stack.\<close>

definition stores :: "site \<Rightarrow> comp_env \<Rightarrow> local_var list \<Rightarrow> nat \<Rightarrow> val \<Rightarrow> bool" where
  "stores \<sigma> e ls ip name \<longleftrightarrow> (\<forall>w vs v r env' w'. site_ok \<sigma> w \<and> length vs = length ls \<and> assign (sem_of \<sigma> e) name v (visible ls vs) w = (r, env', w') \<longrightarrow>
     r = Inr V_VOID \<and> (\<exists>us. length us = length ls \<and> visible ls us = env' \<and> hidden ls us = hidden ls vs \<and> site_ok \<sigma> w' \<and>
       site_step \<sigma> (here \<sigma> w ip (vs @ [v])) = (Running, here \<sigma> w' (ip + 2) us)))"

lemma emit_store_correct:
  assumes em: "emit_store e c name line = Inr c'" and ready: "ready c k" and sym: "vis_symbol (ce_rt e) name"
  obtains bs where "emits c bs c'" "cp_locals c' = cp_locals c" "length bs = 2"
    "\<And>\<sigma>. running \<sigma> c bs c' \<Longrightarrow> stores \<sigma> e (cp_locals c) (chunk_pos c) name"
proof -
  let ?ls = "cp_locals c"
  have name: "name \<noteq> V_FALSE" using sym symbol_not_false by auto
  from em have "emit_var OP_STORE_LOCAL OP_STORE_UP OP_STORE_GLOBAL e c name line = Inr c'" by (simp add: emit_store_def)
  then show ?thesis using ready
  proof (cases rule: emit_var_cases)
    case (slot i)
    have "stores \<sigma> e ?ls (chunk_pos c) name" if run: "running \<sigma> c [op_byte OP_STORE_LOCAL, word_of_nat i] c'" for \<sigma>
      unfolding stores_def
    proof (intro allI impI, elim conjE)
      fix w vs v r env' w'
      assume 0: "site_ok \<sigma> w" "length vs = length ?ls" "assign (sem_of \<sigma> e) name v (visible ?ls vs) w = (r, env', w')"
      from run have code: "code_in (si_chunk \<sigma>) (chunk_pos c) [op_byte OP_STORE_LOCAL, word_of_nat i]" unfolding running_def by blast
      from find_local_visible [OF 0(2) name] slot(1) obtain j where j: "i < length ?ls"
        "local_index (visible ?ls vs) name = Some j" "\<And>v. visible ?ls (vs[i := v]) = (visible ?ls vs)[j := (name, v)]"
        "\<And>v. hidden ?ls (vs[i := v]) = hidden ?ls vs" by auto
      with 0 show "r = Inr V_VOID \<and> (\<exists>us. length us = length ?ls \<and> visible ?ls us = env' \<and> hidden ?ls us = hidden ?ls vs \<and> site_ok \<sigma> w' \<and>
           site_step \<sigma> (here \<sigma> w (chunk_pos c) (vs @ [v])) = (Running, here \<sigma> w' (chunk_pos c + 2) us))"
        using step_store_local [OF 0(1) code, of vs v] slot(2) by (auto simp: assign_def u8_index intro!: exI [of _ "vs[i := v]"])
    qed
    then show ?thesis using that [OF slot(3,4)] by simp
  next
    case (global ci)
    have "stores \<sigma> e ?ls (chunk_pos c) name" if run: "running \<sigma> c [op_byte OP_STORE_GLOBAL, word_of_nat ci] c'" for \<sigma>
      unfolding stores_def
    proof (intro allI impI, elim conjE)
      fix w vs v r env' w'
      assume 0: "site_ok \<sigma> w" "length vs = length ?ls" "assign (sem_of \<sigma> e) name v (visible ?ls vs) w = (r, env', w')"
      from run have code: "code_in (si_chunk \<sigma>) (chunk_pos c) [op_byte OP_STORE_GLOBAL, word_of_nat ci]" unfolding running_def by blast
      note entry = running_consts [OF run global(4)]
      have "local_index (visible ?ls vs) name = None" using find_local_visible [OF 0(2) name] global(1) by simp
      with 0 show "r = Inr V_VOID \<and> (\<exists>us. length us = length ?ls \<and> visible ?ls us = env' \<and> hidden ?ls us = hidden ?ls vs \<and> site_ok \<sigma> w' \<and>
           site_step \<sigma> (here \<sigma> w (chunk_pos c) (vs @ [v])) = (Running, here \<sigma> w' (chunk_pos c + 2) us))"
        using step_store_global [OF 0(1) code _ refl, of vs v] entry(1) entry(3) [OF sym] global(2)
        by (auto simp: assign_def u8_index intro!: exI [of _ vs])
    qed
    then show ?thesis using that [OF global(3,5)] by simp
  qed
qed

lemma set_correct:
  assumes "correct e f n"
  shows "correct e (emit_node e f) (IR_SET line name n)"
proof (rule correctI)
  fix c c'
  assume em: "emit_node e f False c (IR_SET line name n) = Inr c'" and ready: "ready c (ir_need (IR_SET line name n))"
    and plain: "plain (ce_rt e) (depth_of c = 0) (IR_SET line name n)"
  let ?ls = "cp_locals c"
  from em obtain c1 c2 where c1: "f False c n = Inr c1" and c2: "emit_store e c1 name line = Inr c2"
      and c': "c' = emit c2 OP_VOID line" by (auto simp: emit_node_def rbind_Inr_iff)
  obtain bs1 where bs1: "emits c bs1 c1" "cp_locals c1 = ?ls"
      "\<And>\<sigma>. running \<sigma> c bs1 c1 \<Longrightarrow> simulates \<sigma> ?ls (chunk_pos c) (chunk_pos c1) (ir_need n) (\<lambda>v. [v]) (ir_eval (sem_of \<sigma> e) n)"
    by (rule correctD [OF assms c1]) (use ready plain ready_mono in auto)
  obtain bs2 where bs2: "emits c1 bs2 c2" "cp_locals c2 = ?ls" "length bs2 = 2"
      "\<And>\<sigma>. running \<sigma> c1 bs2 c2 \<Longrightarrow> stores \<sigma> e ?ls (chunk_pos c1) name"
    by (rule emit_store_correct [OF c2 ready_emits [OF ready bs1(1,2)]]) (use plain bs1(2) in auto)
  have void: "emits c2 [op_byte OP_VOID] c'" using bs2(1) by (simp add: emits_def c')
  have pos: "chunk_pos c2 = chunk_pos c1 + 2" "chunk_pos c' = chunk_pos c2 + 1" using emits_pos [OF bs2(1)] emits_pos [OF void] bs2(3) by auto
  have sim: "simulates \<sigma> ?ls (chunk_pos c) (chunk_pos c') (1 + ir_need n) (\<lambda>v. [v]) (ebind (ir_eval (sem_of \<sigma> e) n) (\<lambda>v. assign (sem_of \<sigma> e) name v))"
    if run: "running \<sigma> c (bs1 @ bs2 @ [op_byte OP_VOID]) c'" for \<sigma>
  proof (rule simulates_bind)
    note run1 = running_split [OF run bs1(1) emits_trans [OF bs2(1) void]]
    note run2 = running_split [OF run1(2) bs2(1) void]
    show "simulates \<sigma> ?ls (chunk_pos c) (chunk_pos c1) (ir_need n) (\<lambda>v. [v]) (ir_eval (sem_of \<sigma> e) n)" by (rule bs1(3) [OF run1(1)])
    fix v w vs r env' w'
    assume 0: "site_ok \<sigma> w" "length vs = length ?ls" "room \<sigma> vs (1 + ir_need n)" "assign (sem_of \<sigma> e) name v (visible ?ls vs) w = (r, env', w')"
    from bs2(4) [OF run2(1)] 0 obtain us where us: "r = Inr V_VOID" "length us = length ?ls" "visible ?ls us = env'" "hidden ?ls us = hidden ?ls vs"
        "site_ok \<sigma> w'" "site_step \<sigma> (here \<sigma> w (chunk_pos c1) (vs @ [v])) = (Running, here \<sigma> w' (chunk_pos c1 + 2) us)"
      unfolding stores_def by blast
    have "code_in (si_chunk \<sigma>) (chunk_pos c2) [op_byte OP_VOID]" using run2(2) unfolding running_def by blast
    from void_correct [OF us(5,2) _ this] us 0 pos
    have "yields \<sigma> (here \<sigma> w' (chunk_pos c1 + 2) us) r (good \<sigma> ?ls (hidden ?ls vs) (chunk_pos c') (\<lambda>v. [v]) env' w') w'" by auto
    with yields_step [OF us(6)] show "yields \<sigma> (here \<sigma> w (chunk_pos c1) (vs @ [v])) r (good \<sigma> ?ls (hidden ?ls vs) (chunk_pos c') (\<lambda>v. [v]) env' w') w'"
      by blast
  qed simp
  show "cp_locals c' = ?ls \<and> compiled c c' (ir_need (IR_SET line name n)) (\<lambda>v. [v]) (\<lambda>\<sigma>. ir_eval (sem_of \<sigma> e) (IR_SET line name n))"
    using compiledI [OF emits_trans [OF bs1(1) emits_trans [OF bs2(1) void]] sim] bs2(2) by (simp add: c')
qed

lemma define_correct:
  assumes "correct e f n"
  shows "correct e (emit_node e f) (IR_DEFINE line name n)"
proof (rule correctI)
  fix c c'
  assume em: "emit_node e f False c (IR_DEFINE line name n) = Inr c'" and ready: "ready c (ir_need (IR_DEFINE line name n))"
    and plain: "plain (ce_rt e) (depth_of c = 0) (IR_DEFINE line name n)"
  let ?ls = "cp_locals c"
  from em obtain c1 where c1: "f False c n = Inr c1" "emit_define_store e c1 name line = Inr c'" by (auto simp: emit_node_def rbind_Inr_iff)
  obtain bs1 where bs1: "emits c bs1 c1" "cp_locals c1 = ?ls"
      "\<And>\<sigma>. running \<sigma> c bs1 c1 \<Longrightarrow> simulates \<sigma> ?ls (chunk_pos c) (chunk_pos c1) (ir_need n) (\<lambda>v. [v]) (ir_eval (sem_of \<sigma> e) n)"
    by (rule correctD [OF assms c1(1)]) (use ready plain ready_mono in auto)
  have sym: "vis_symbol (ce_rt e) name" and "depth_of c1 = 0" using plain bs1(1) by (auto simp: emits_def)
  then obtain ci c2 where add: "add_const e c1 name = Inr (ci, c2)"
      and c': "c' = emit (emit_ab c2 OP_DEF_GLOBAL (word_of_nat ci) line) OP_VOID line"
    using c1(2) by (auto simp: emit_define_store_def rbind_Inr_iff)
  note ac = add_const_eq [OF add]
  have pool1: "length (pool_of c1) \<le> 256" using bs1(1) by (simp add: emits_def)
  have bs2: "emits c1 [op_byte OP_DEF_GLOBAL, word_of_nat ci, op_byte OP_VOID] c'" using ac [OF pool1] by (simp add: emits_def c')
  have sim: "simulates \<sigma> ?ls (chunk_pos c) (chunk_pos c') (1 + ir_need n) (\<lambda>v. [v])
      (ebind (ir_eval (sem_of \<sigma> e) n) (\<lambda>v env w. (Inr V_VOID, env, bind_global (site_env \<sigma>) name v w)))"
    if run: "running \<sigma> c (bs1 @ [op_byte OP_DEF_GLOBAL, word_of_nat ci, op_byte OP_VOID]) c'" for \<sigma>
  proof (rule simulates_bind)
    note run1 = running_split [OF run bs1(1) bs2]
    show "simulates \<sigma> ?ls (chunk_pos c) (chunk_pos c1) (ir_need n) (\<lambda>v. [v]) (ir_eval (sem_of \<sigma> e) n)" by (rule bs1(3) [OF run1(1)])
    fix v w vs and r :: "val res" and env' w'
    assume 0: "site_ok \<sigma> w" "length vs = length ?ls" "room \<sigma> vs (1 + ir_need n)"
      "(Inr V_VOID, visible ?ls vs, bind_global (site_env \<sigma>) name v w) = (r, env', w')"
    have "pool_entry (ce_rt e) (pool_of c') ci name" using ac(1) [OF pool1] by (simp add: c')
    note entry = running_consts [OF run1(2) this]
    have codes: "code_in (si_chunk \<sigma>) (chunk_pos c1) [op_byte OP_DEF_GLOBAL, word_of_nat ci]"
        "code_in (si_chunk \<sigma>) (chunk_pos c1 + 2) [op_byte OP_VOID]" using run1(2) unfolding running_def by auto
    have step: "site_step \<sigma> (here \<sigma> w (chunk_pos c1) (vs @ [v])) = (Running, here \<sigma> w' (chunk_pos c1 + 2) vs)"
      using step_def_global [OF 0(1) codes(1)] entry(1) entry(3) [OF sym] ac(2) [OF pool1] 0(4) by (simp add: u8_index)
    have "site_ok \<sigma> w'" using 0 by auto
    from void_correct [OF this 0(2) _ codes(2)] 0 emits_pos [OF bs2]
    have "yields \<sigma> (here \<sigma> w' (chunk_pos c1 + 2) vs) r (good \<sigma> ?ls (hidden ?ls vs) (chunk_pos c') (\<lambda>v. [v]) env' w') w'" by auto
    with yields_step [OF step] show "yields \<sigma> (here \<sigma> w (chunk_pos c1) (vs @ [v])) r (good \<sigma> ?ls (hidden ?ls vs) (chunk_pos c') (\<lambda>v. [v]) env' w') w'"
      by blast
  qed simp
  show "cp_locals c' = ?ls \<and> compiled c c' (ir_need (IR_DEFINE line name n)) (\<lambda>v. [v]) (\<lambda>\<sigma>. ir_eval (sem_of \<sigma> e) (IR_DEFINE line name n))"
    using compiledI [OF emits_trans [OF bs1(1) bs2] sim] bs1(2) ac(6) [OF pool1] by (simp add: c')
qed

section \<open>Conditionals\<close>

lemma running_sub:
  assumes "running \<sigma> a bs c" "code_in (si_chunk \<sigma>) (chunk_pos b) bs'" "pool_of c = pool_of d @ ext"
  shows "running \<sigma> b bs' d"
  using assms by (auto simp: running_def)

lemma code_in_bound: "code_in K pos bs \<Longrightarrow> bs \<noteq> [] \<Longrightarrow> pos + length bs \<le> code_len K"
proof (induction bs arbitrary: pos)
  case (Cons b bs)
  then show ?case by (cases "bs = []") (use Cons.IH [of "pos + 1"] in auto)
qed simp

lemma yields_jump:
  assumes "yields \<sigma> s r (good \<sigma> ls pend ip emb env w) w'" "code_in (si_chunk \<sigma>) ip (op_byte OP_JUMP # u16_bytes (word_of_nat t))" "t \<le> 0xFFFF"
  shows "yields \<sigma> s r (good \<sigma> ls pend t emb env w) w'"
  using assms(1)
proof (rule yields_bind)
  fix v s'
  assume r: "r = Inr v" "good \<sigma> ls pend ip emb env w v s'"
  then obtain vs where vs: "length vs = length ls" "visible ls vs = env" "hidden ls vs = pend" "site_ok \<sigma> w" "s' = here \<sigma> w ip (vs @ emb v)"
    by (auto simp: good_def)
  then have "good \<sigma> ls pend t emb env w v (here \<sigma> w t (vs @ emb v))" by (auto simp: good_def)
  with yields_step [OF step_jump [OF vs(4) assms(2,3)] yields_done] r(1) vs(5)
  show "yields \<sigma> s' r (good \<sigma> ls pend t emb env w) w'" by simp
qed simp

lemma emits_jump: "emit_jump c opc line = (at, c') \<Longrightarrow> length (pool_of c) \<le> 256 \<Longrightarrow> emits c [op_byte opc, 0xFF, 0xFF] c'"
  using emit_jump_eq by (simp add: emits_def)

lemma if_correct:
  assumes "correct e f test" "correct e f thn" "correct e f els"
  shows "correct e (emit_node e f) (IR_IF line test thn els)"
proof (rule correctI)
  fix c c'
  assume em: "emit_node e f False c (IR_IF line test thn els) = Inr c'" and ready: "ready c (ir_need (IR_IF line test thn els))"
    and plain: "plain (ce_rt e) (depth_of c = 0) (IR_IF line test thn els)"
  let ?ls = "cp_locals c"
  from em obtain c1 at1 c2 c3 at2 c4 c5 c6 where em1: "f False c test = Inr c1" "emit_jump c1 OP_JUMP_FALSE line = (at1, c2)"
      "f False c2 thn = Inr c3" "emit_jump c3 OP_JUMP line = (at2, c4)" "patch16 c4 at1 (chunk_pos c4) = Inr c5"
      "f False c5 els = Inr c6" "patch16 c6 at2 (chunk_pos c6) = Inr c'"
    by (fastforce simp: emit_node_def rbind_Inr_iff patch_jump_def case_prod_beta intro: prod.collapse [symmetric])
  obtain bt where bt: "emits c bt c1" "cp_locals c1 = ?ls"
      "\<And>\<sigma>. running \<sigma> c bt c1 \<Longrightarrow> simulates \<sigma> ?ls (chunk_pos c) (chunk_pos c1) (ir_need test) (\<lambda>v. [v]) (ir_eval (sem_of \<sigma> e) test)"
    by (rule correctD [OF assms(1) em1(1)]) (use ready plain ready_mono in auto)
  note j1 = emit_jump_eq [OF em1(2)]
  have e2: "emits c1 [op_byte OP_JUMP_FALSE, 0xFF, 0xFF] c2" by (rule emits_jump [OF em1(2)]) (use bt(1) in \<open>simp add: emits_def\<close>)
  have ready2: "ready c2 (ir_need thn)" "cp_locals c2 = ?ls" "depth_of c2 = depth_of c"
    using ready_emits [OF ready_emits [OF ready bt(1,2)] e2] ready_mono bt e2 by (auto simp: j1 emits_def)
  obtain bh where bh: "emits c2 bh c3" "cp_locals c3 = ?ls"
      "\<And>\<sigma>. running \<sigma> c2 bh c3 \<Longrightarrow> simulates \<sigma> ?ls (chunk_pos c2) (chunk_pos c3) (ir_need thn) (\<lambda>v. [v]) (ir_eval (sem_of \<sigma> e) thn)"
    using correctD [OF assms(2) em1(3) ready2(1)] plain ready2 by auto
  note j2 = emit_jump_eq [OF em1(4)]
  have code4: "code_of c4 = (code_of c1 @ [op_byte OP_JUMP_FALSE]) @ [0xFF, 0xFF] @ bh @ [op_byte OP_JUMP, 0xFF, 0xFF]"
    using bh(1) by (simp add: j1 j2 emits_def)
  note p1 = patch16_eq [OF em1(5) code4, unfolded j1(1), simplified]
  have ready5: "ready c5 (ir_need els)" "cp_locals c5 = ?ls" "depth_of c5 = depth_of c"
    using ready ready2 bh by (auto simp: ready_def p1 j2 emits_def)
  obtain be where be: "emits c5 be c6" "cp_locals c6 = ?ls"
      "\<And>\<sigma>. running \<sigma> c5 be c6 \<Longrightarrow> simulates \<sigma> ?ls (chunk_pos c5) (chunk_pos c6) (ir_need els) (\<lambda>v. [v]) (ir_eval (sem_of \<sigma> e) els)"
    using correctD [OF assms(3) em1(6) ready5(1)] plain ready5 by auto
  let ?u4 = "u16_bytes (word_of_nat (chunk_pos c4))" and ?u6 = "u16_bytes (word_of_nat (chunk_pos c6))"
  have code6: "code_of c6 = (code_of c1 @ [op_byte OP_JUMP_FALSE] @ ?u4 @ bh @ [op_byte OP_JUMP]) @ [0xFF, 0xFF] @ be"
    using be(1) p1(1) by (simp add: emits_def)
  have "length (code_of c1 @ [op_byte OP_JUMP_FALSE] @ ?u4 @ bh @ [op_byte OP_JUMP]) = at2"
    using bh(1) by (simp add: j1 j2 emits_def)
  note p2 = patch16_eq [OF em1(7) code6 this]
  let ?bs = "bt @ (op_byte OP_JUMP_FALSE # ?u4) @ bh @ (op_byte OP_JUMP # ?u6) @ be"
  have emits: "emits c ?bs c'" using bt(1) e2 bh(1) be(1) by (auto simp: emits_def p1 p2 j1 j2)
  have pos: "chunk_pos c2 = chunk_pos c1 + 3" "chunk_pos c3 = chunk_pos c2 + length bh" "chunk_pos c4 = chunk_pos c3 + 3" "chunk_pos c5 = chunk_pos c4"
      "chunk_pos c6 = chunk_pos c5 + length be" "chunk_pos c' = chunk_pos c6" "chunk_pos c1 = chunk_pos c + length bt"
    using bt(1) bh(1) be(1) by (auto simp: emits_def p1 p2 j1 j2)
  have len: "length (op_byte OP_JUMP_FALSE # ?u4) = 3" "length (op_byte OP_JUMP # ?u6) = 3" by simp_all
  have pos_sums: "chunk_pos c + length bt = chunk_pos c1" "chunk_pos c1 + 3 = chunk_pos c2" "chunk_pos c2 + length bh = chunk_pos c3"
      "chunk_pos c3 + 3 = chunk_pos c5" using pos by auto
  have sim: "simulates \<sigma> ?ls (chunk_pos c) (chunk_pos c') (ir_need test + ir_need thn + ir_need els) (\<lambda>v. [v])
      (ebind (ir_eval (sem_of \<sigma> e) test) (\<lambda>v. if v = V_FALSE then ir_eval (sem_of \<sigma> e) els else ir_eval (sem_of \<sigma> e) thn))"
    if run: "running \<sigma> c ?bs c'" for \<sigma>
  proof (rule simulates_bind)
    have code: "code_in (si_chunk \<sigma>) (chunk_pos c) bt" "code_in (si_chunk \<sigma>) (chunk_pos c1) (op_byte OP_JUMP_FALSE # ?u4)"
        "code_in (si_chunk \<sigma>) (chunk_pos c2) bh" "code_in (si_chunk \<sigma>) (chunk_pos c3) (op_byte OP_JUMP # ?u6)" "code_in (si_chunk \<sigma>) (chunk_pos c5) be"
      using run unfolding running_def code_in_append len pos_sums by blast+
    have "chunk_pos c + length ?bs \<le> 0xFFFF" using run code_in_bound [of "si_chunk \<sigma>" "chunk_pos c" ?bs] unfolding running_def by force
    then have small: "chunk_pos c4 \<le> 0xFFFF" "chunk_pos c6 \<le> 0xFFFF" using pos by auto
    from bh(1) be(1) obtain x3 x6 where "pool_of c3 = pool_of c2 @ x3" "pool_of c6 = pool_of c5 @ x6" by (auto simp: emits_def)
    then have "pool_of c' = pool_of c1 @ x3 @ x6" "pool_of c' = pool_of c3 @ x6" "pool_of c' = pool_of c6 @ []" by (simp_all add: p1 p2 j1 j2)
    note runs = running_sub [OF run code(1) this(1)] running_sub [OF run code(3) this(2)] running_sub [OF run code(5) this(3)]
    show "simulates \<sigma> ?ls (chunk_pos c) (chunk_pos c1) (ir_need test) (\<lambda>v. [v]) (ir_eval (sem_of \<sigma> e) test)" by (rule bt(3) [OF runs(1)])
    fix v w vs r env' w'
    assume 0: "site_ok \<sigma> w" "length vs = length ?ls" "room \<sigma> vs (ir_need test + ir_need thn + ir_need els)"
      "(if v = V_FALSE then ir_eval (sem_of \<sigma> e) els else ir_eval (sem_of \<sigma> e) thn) (visible ?ls vs) w = (r, env', w')"
    note step = yields_step [OF step_jump_false [OF 0(1) code(2) small(1), of vs v]]
    show "yields \<sigma> (here \<sigma> w (chunk_pos c1) (vs @ [v])) r (good \<sigma> ?ls (hidden ?ls vs) (chunk_pos c') (\<lambda>v. [v]) env' w') w'"
    proof (cases "v = V_FALSE")
      case True
      have "yields \<sigma> (here \<sigma> w (chunk_pos c5) vs) r (good \<sigma> ?ls (hidden ?ls vs) (chunk_pos c6) (\<lambda>v. [v]) env' w') w'"
        by (rule simulatesD [OF be(3) [OF runs(3)] 0(1,2)]) (use 0 True in auto)
      with True pos show ?thesis by (intro step) simp
    next
      case False
      have "yields \<sigma> (here \<sigma> w (chunk_pos c2) vs) r (good \<sigma> ?ls (hidden ?ls vs) (chunk_pos c3) (\<lambda>v. [v]) env' w') w'"
        by (rule simulatesD [OF bh(3) [OF runs(2)] 0(1,2)]) (use 0 False in auto)
      from yields_jump [OF this code(4) small(2)] False pos show ?thesis by (intro step) simp
    qed
  qed simp
  show "cp_locals c' = ?ls \<and> compiled c c' (ir_need (IR_IF line test thn els)) (\<lambda>v. [v]) (\<lambda>\<sigma>. ir_eval (sem_of \<sigma> e) (IR_IF line test thn els))"
    using compiledI [OF emits sim] p2(3) be(2) by simp
qed

section \<open>Sequences\<close>

text \<open>Code that continues a compiled form with the form's result on the stack.\<close>

lemma compiled_bind:
  assumes "compiled c c1 k1 emb1 ev1" "emits c1 bs2 c'" "k1 \<le> k"
    "\<And>\<sigma> v w vs r env' w'. running \<sigma> c1 bs2 c' \<Longrightarrow> site_ok \<sigma> w \<Longrightarrow> length vs = length (cp_locals c) \<Longrightarrow> room \<sigma> vs k \<Longrightarrow>
       ev2 \<sigma> v (visible (cp_locals c) vs) w = (r, env', w') \<Longrightarrow>
       yields \<sigma> (here \<sigma> w (chunk_pos c1) (vs @ emb1 v)) r (good \<sigma> (cp_locals c) (hidden (cp_locals c) vs) (chunk_pos c') emb env' w') w'"
  shows "compiled c c' k emb (\<lambda>\<sigma>. ebind (ev1 \<sigma>) (ev2 \<sigma>))"
proof -
  obtain bs1 where bs1: "emits c bs1 c1"
      "\<And>\<sigma>. running \<sigma> c bs1 c1 \<Longrightarrow> simulates \<sigma> (cp_locals c) (chunk_pos c) (chunk_pos c1) k1 emb1 (ev1 \<sigma>)"
    using assms(1) unfolding compiled_def by blast
  show ?thesis
  proof (rule compiledI [OF emits_trans [OF bs1(1) assms(2)]])
    fix \<sigma>
    assume "running \<sigma> c (bs1 @ bs2) c'"
    note run = running_split [OF this bs1(1) assms(2)]
    show "simulates \<sigma> (cp_locals c) (chunk_pos c) (chunk_pos c') k emb (ebind (ev1 \<sigma>) (ev2 \<sigma>))"
      by (rule simulates_bind [OF bs1(2) [OF run(1)] assms(3)]) (rule assms(4) [OF run(2)])
  qed
qed

lemma correct_compiled:
  assumes "correct e f n" "f False c n = Inr c'" "ready c k" "ir_need n \<le> k" "plain (ce_rt e) (depth_of c = 0) n"
  shows "cp_locals c' = cp_locals c" "compiled c c' (ir_need n) (\<lambda>v. [v]) (\<lambda>\<sigma>. ir_eval (sem_of \<sigma> e) n)" "ready c' k" "depth_of c' = depth_of c"
proof -
  have 1: "cp_locals c' = cp_locals c \<and> compiled c c' (ir_need n) (\<lambda>v. [v]) (\<lambda>\<sigma>. ir_eval (sem_of \<sigma> e) n)"
    using assms ready_mono [OF assms(3,4)] unfolding correct_def by blast
  then show "cp_locals c' = cp_locals c" "compiled c c' (ir_need n) (\<lambda>v. [v]) (\<lambda>\<sigma>. ir_eval (sem_of \<sigma> e) n)" by simp_all
  from 1 obtain bs where "emits c bs c'" unfolding compiled_def by blast
  with ready_emits [OF assms(3)] 1 show "ready c' k" "depth_of c' = depth_of c" by (auto simp: emits_def)
qed

lemma running_code: "running \<sigma> c bs c' \<Longrightarrow> code_in (si_chunk \<sigma>) (chunk_pos c) bs"
  unfolding running_def by blast

lemma forms_correct:
  assumes "\<And>n. correct e f n"
  shows "emit_forms f False ps c = Inr c' \<Longrightarrow> ps \<noteq> [] \<Longrightarrow> ready c (need_forms ps) \<Longrightarrow> plain_forms (ce_rt e) (depth_of c = 0) ps \<Longrightarrow>
    cp_locals c' = cp_locals c \<and> compiled c c' (need_forms ps) (\<lambda>v. [v]) (\<lambda>\<sigma>. eval_forms (sem_of \<sigma> e) ps)"
proof (induction ps arbitrary: c rule: induct_list012)
  case (2 p)
  then show ?case using correct_compiled(1,2) [OF assms] by (cases p) auto
next
  case (3 p q ps)
  obtain line n where p: "p = (line, n)" by (cases p)
  from "3.prems"(1) obtain c1 where c1: "f False c n = Inr c1" "emit_forms f False (q # ps) (emit c1 OP_POP line) = Inr c'"
    by (auto simp: p rbind_Inr_iff)
  have ready: "ready c (ir_need n + need_forms (q # ps))" using "3.prems"(3) by (simp add: p)
  note s1 = correct_compiled [OF assms c1(1) ready]
  let ?c2 = "emit c1 OP_POP line"
  have plain: "plain (ce_rt e) (depth_of c = 0) n" "plain_forms (ce_rt e) (depth_of c = 0) (q # ps)" using "3.prems"(4) by (simp_all add: p)
  note s1 = s1 [OF _ plain(1), simplified]
  have e2: "emits c1 [op_byte OP_POP] ?c2" using s1(3) by (simp add: emits_def ready_def)
  have "ready ?c2 (need_forms (q # ps))" using ready_mono [OF ready_emits [OF s1(3) e2]] by simp
  with "3.IH"(2) [OF c1(2)] plain s1 have rest: "cp_locals c' = cp_locals c"
      "compiled ?c2 c' (need_forms (q # ps)) (\<lambda>v. [v]) (\<lambda>\<sigma>. eval_forms (sem_of \<sigma> e) (q # ps))" by auto
  then obtain bs where bs: "emits ?c2 bs c'" "\<And>\<sigma>. running \<sigma> ?c2 bs c' \<Longrightarrow>
      simulates \<sigma> (cp_locals c) (chunk_pos ?c2) (chunk_pos c') (need_forms (q # ps)) (\<lambda>v. [v]) (eval_forms (sem_of \<sigma> e) (q # ps))"
    unfolding compiled_def by (auto simp: s1(1))
  have "compiled c c' (need_forms (p # q # ps)) (\<lambda>v. [v]) (\<lambda>\<sigma>. ebind (ir_eval (sem_of \<sigma> e) n) (\<lambda>_. eval_forms (sem_of \<sigma> e) (q # ps)))"
  proof (rule compiled_bind [OF s1(2) emits_trans [OF e2 bs(1)]])
    fix \<sigma> v w vs r env' w'
    assume run: "running \<sigma> c1 ([op_byte OP_POP] @ bs) c'" and 0: "site_ok \<sigma> w" "length vs = length (cp_locals c)"
      "room \<sigma> vs (need_forms (p # q # ps))" "eval_forms (sem_of \<sigma> e) (q # ps) (visible (cp_locals c) vs) w = (r, env', w')"
    note run = running_split [OF run e2 bs(1)]
    have "yields \<sigma> (here \<sigma> w (chunk_pos ?c2) vs) r (good \<sigma> (cp_locals c) (hidden (cp_locals c) vs) (chunk_pos c') (\<lambda>v. [v]) env' w') w'"
      by (rule simulatesD [OF bs(2) [OF run(2)] 0(1,2) _ 0(4)]) (use 0(3) in \<open>simp add: p\<close>)
    with yields_step [OF step_pop [OF 0(1) running_code [OF run(1)]]]
    show "yields \<sigma> (here \<sigma> w (chunk_pos c1) (vs @ [v])) r (good \<sigma> (cp_locals c) (hidden (cp_locals c) vs) (chunk_pos c') (\<lambda>v. [v]) env' w') w'"
      by simp
  qed (simp add: p)
  with rest(1) show ?case by (simp add: p)
qed simp

lemma seq_correct:
  assumes "\<And>n. correct e f n"
  shows "correct e (emit_node e f) (IR_SEQ line ps)"
proof (rule correctI)
  fix c c'
  assume em: "emit_node e f False c (IR_SEQ line ps) = Inr c'" and ready: "ready c (ir_need (IR_SEQ line ps))"
    and plain: "plain (ce_rt e) (depth_of c = 0) (IR_SEQ line ps)"
  have 1: "cp_locals c' = cp_locals c \<and> compiled c c' (need_forms ps) (\<lambda>v. [v]) (\<lambda>\<sigma>. eval_forms (sem_of \<sigma> e) ps)"
    by (rule forms_correct [OF assms]) (use em plain ready_mono [OF ready] in \<open>auto simp: emit_node_def\<close>)
  then show "cp_locals c' = cp_locals c \<and> compiled c c' (ir_need (IR_SEQ line ps)) (\<lambda>v. [v]) (\<lambda>\<sigma>. ir_eval (sem_of \<sigma> e) (IR_SEQ line ps))"
    by (auto simp: compiled_def simulates_def)
qed

end
