(* ===== verification/Compile_Logic.thy ===== *)
theory Compile_Logic
  imports Compile_Correct
begin

text \<open>
  \<open>and\<close> and \<open>or\<close>: their jumps are emitted with placeholders that are patched when the end is known. The code
  with placeholders is a list of segments; \<open>fill\<close> puts the same two bytes into every gap.
\<close>

section \<open>Patching\<close>

fun fill :: "u8 list \<Rightarrow> u8 list list \<Rightarrow> u8 list" where
  "fill u [] = []"
| "fill u [s] = s"
| "fill u (s # t # ss) = s @ u @ fill u (t # ss)"

fun gaps :: "nat \<Rightarrow> u8 list list \<Rightarrow> nat list" where
  "gaps p [] = []"
| "gaps p [s] = []"
| "gaps p (s # t # ss) = (p + length s) # gaps (p + length s + 2) (t # ss)"

lemma fill_length: "length u = 2 \<Longrightarrow> length u' = 2 \<Longrightarrow> length (fill u ss) = length (fill u' ss)"
  by (induction u ss rule: fill.induct) auto

lemma fill_Cons: "ss \<noteq> [] \<Longrightarrow> fill u (s # ss) = s @ u @ fill u ss"
  by (cases ss) auto

lemma fill_head: "fill u ((s @ t) # ss) = s @ fill u (t # ss)"
  by (cases ss) auto

lemma gaps_Cons: "ss \<noteq> [] \<Longrightarrow> gaps p (s # ss) = (p + length s) # gaps (p + length s + 2) ss"
  by (cases ss) auto

lemma gaps_head: "gaps p ((s @ t) # ss) = gaps (p + length s) (t # ss)"
  by (cases ss) (auto simp: add.assoc)

lemma patch_all_fill:
  assumes "patch_all target (gaps (length pre) ss) c = Inr c'" "code_of c = pre @ fill [0xFF, 0xFF] ss @ post"
  shows "code_of c' = pre @ fill (u16_bytes (word_of_nat target)) ss @ post \<and> pool_of c' = pool_of c \<and> cp_locals c' = cp_locals c \<and>
    depth_of c' = depth_of c \<and> cp_enclosing c' = cp_enclosing c"
  using assms
proof (induction "[0xFF, 0xFF :: u8]" ss arbitrary: pre c rule: fill.induct)
  case (3 s t ss)
  let ?u = "u16_bytes (word_of_nat target)"
  from "3.prems"(1) obtain c1 where c1: "patch16 c (length (pre @ s)) target = Inr c1"
      "patch_all target (gaps (length (pre @ s) + 2) (t # ss)) c1 = Inr c'" by (auto simp: rbind_Inr_iff)
  have "code_of c = (pre @ s) @ [0xFF, 0xFF] @ (fill [0xFF, 0xFF] (t # ss) @ post)" using "3.prems"(2) by simp
  note p = patch16_eq [OF c1(1) this refl]
  have "patch_all target (gaps (length (pre @ s @ ?u)) (t # ss)) c1 = Inr c'" using c1(2) by (simp add: add.assoc)
  from "3.hyps" [OF this] p show ?case by simp
qed auto

section \<open>Conjunction\<close>

text \<open>The items of \<open>and\<close>: control ends behind them with the value, or at \<open>target\<close> without one after a \<open>#f\<close>.\<close>

definition and_ok :: "site \<Rightarrow> local_var list \<Rightarrow> val list \<Rightarrow> nat \<Rightarrow> nat \<Rightarrow> locals \<Rightarrow> vm \<Rightarrow> val \<Rightarrow> vm \<Rightarrow> bool" where
  "and_ok \<sigma> ls pend ip target env w v s \<longleftrightarrow> good \<sigma> ls pend ip (\<lambda>v. [v]) env w v s \<or> (v = V_FALSE \<and> good \<sigma> ls pend target (\<lambda>_. []) env w v s)"

definition and_items :: "comp_env \<Rightarrow> ir list \<Rightarrow> compiler \<Rightarrow> u8 list list \<Rightarrow> compiler \<Rightarrow> bool" where
  "and_items e ns c ss c' \<longleftrightarrow> (\<forall>\<sigma> target w vs r env' w'.
     running \<sigma> c (fill (u16_bytes (word_of_nat target)) ss) c' \<and> target \<le> 0xFFFF \<and> site_ok \<sigma> w \<and> length vs = length (cp_locals c) \<and>
     room \<sigma> vs (need_list ns) \<and> eval_and (sem_of \<sigma> e) ns (visible (cp_locals c) vs) w = (r, env', w') \<longrightarrow>
     yields \<sigma> (here \<sigma> w (chunk_pos c) vs) r (and_ok \<sigma> (cp_locals c) (hidden (cp_locals c) vs) (chunk_pos c') target env' w') w')"

lemma and_itemsD:
  assumes "and_items e ns c ss c'" "running \<sigma> c (fill (u16_bytes (word_of_nat target)) ss) c'" "target \<le> 0xFFFF" "site_ok \<sigma> w"
    "length vs = length (cp_locals c)" "room \<sigma> vs (need_list ns)" "eval_and (sem_of \<sigma> e) ns (visible (cp_locals c) vs) w = (r, env', w')"
  shows "yields \<sigma> (here \<sigma> w (chunk_pos c) vs) r (and_ok \<sigma> (cp_locals c) (hidden (cp_locals c) vs) (chunk_pos c') target env' w') w'"
  using assms unfolding and_items_def by blast

lemma yields_mono: "yields \<sigma> s r ok w \<Longrightarrow> (\<And>v s. ok v s \<Longrightarrow> ok' v s) \<Longrightarrow> yields \<sigma> s r ok' w"
  by (cases r) (auto simp: yields_def)

lemma emit_and_correct:
  assumes "\<And>n. correct e f n"
  shows "emit_and f False line ns c = Inr (ats, c') \<Longrightarrow> ns \<noteq> [] \<Longrightarrow> ready c (need_list ns) \<Longrightarrow> plain_list (ce_rt e) (depth_of c = 0) ns \<Longrightarrow>
    \<exists>ss. ss \<noteq> [] \<and> ats = gaps (chunk_pos c) ss \<and> emits c (fill [0xFF, 0xFF] ss) c' \<and> cp_locals c' = cp_locals c \<and> and_items e ns c ss c'"
proof (induction ns arbitrary: c ats rule: induct_list012)
  case (2 n)
  from "2.prems"(1) have c': "f False c n = Inr c'" "ats = []" by (auto simp: rbind_Inr_iff)
  obtain bs where bs: "emits c bs c'" "cp_locals c' = cp_locals c"
      "\<And>\<sigma>. running \<sigma> c bs c' \<Longrightarrow> simulates \<sigma> (cp_locals c) (chunk_pos c) (chunk_pos c') (ir_need n) (\<lambda>v. [v]) (ir_eval (sem_of \<sigma> e) n)"
    by (rule correctD [OF assms c'(1)]) (use "2.prems" in auto)
  have "and_items e [n] c [bs] c'" unfolding and_items_def
  proof (intro allI impI, elim conjE)
    fix \<sigma> w vs r env' w' and target :: nat
    assume "running \<sigma> c (fill (u16_bytes (word_of_nat target)) [bs]) c'" "site_ok \<sigma> w" "length vs = length (cp_locals c)"
      "room \<sigma> vs (need_list [n])" "eval_and (sem_of \<sigma> e) [n] (visible (cp_locals c) vs) w = (r, env', w')"
    then show "yields \<sigma> (here \<sigma> w (chunk_pos c) vs) r (and_ok \<sigma> (cp_locals c) (hidden (cp_locals c) vs) (chunk_pos c') target env' w') w'"
      using simulatesD [OF bs(3), of \<sigma> w vs r env' w'] by (auto simp: and_ok_def elim: yields_mono)
  qed
  with bs c'(2) show ?case by (intro exI [of _ "[bs]"]) auto
next
  case (3 n k ns)
  from "3.prems"(1) obtain c1 a1 c2 ats' where em: "f False c n = Inr c1" "emit_jump c1 OP_JUMP_FALSE line = (a1, c2)"
      "emit_and f False line (k # ns) c2 = Inr (ats', c')" "ats = a1 # ats'"
    by (fastforce simp: rbind_Inr_iff case_prod_beta intro: prod.collapse [symmetric])
  let ?ls = "cp_locals c"
  obtain bs where bs: "emits c bs c1" "cp_locals c1 = ?ls"
      "\<And>\<sigma>. running \<sigma> c bs c1 \<Longrightarrow> simulates \<sigma> ?ls (chunk_pos c) (chunk_pos c1) (ir_need n) (\<lambda>v. [v]) (ir_eval (sem_of \<sigma> e) n)"
    by (rule correctD [OF assms em(1)]) (use "3.prems" ready_mono in auto)
  note j = emit_jump_eq [OF em(2)]
  have e2: "emits c1 [op_byte OP_JUMP_FALSE, 0xFF, 0xFF] c2" by (rule emits_jump [OF em(2)]) (use bs(1) in \<open>simp add: emits_def\<close>)
  have c2: "cp_locals c2 = ?ls" "depth_of c2 = depth_of c" "ready c2 (need_list (k # ns))"
    using ready_mono [OF ready_emits [OF ready_emits [OF "3.prems"(3) bs(1,2)] e2]] bs e2 by (auto simp: j emits_def)
  obtain ss where ss: "ss \<noteq> []" "ats' = gaps (chunk_pos c2) ss" "emits c2 (fill [0xFF, 0xFF] ss) c'" "cp_locals c' = ?ls" "and_items e (k # ns) c2 ss c'"
    using "3.IH"(2) [OF em(3)] c2 "3.prems"(4) by auto
  let ?ss = "(bs @ [op_byte OP_JUMP_FALSE]) # ss"
  have pos: "chunk_pos c1 = chunk_pos c + length bs" "chunk_pos c2 = chunk_pos c1 + 3" using emits_pos [OF bs(1)] emits_pos [OF e2] by auto
  have "and_items e (n # k # ns) c ?ss c'" unfolding and_items_def
  proof (intro allI impI, elim conjE)
    fix \<sigma> w vs r env' w' and target :: nat
    let ?u = "u16_bytes (word_of_nat target)"
    assume run: "running \<sigma> c (fill ?u ?ss) c'" and 0: "target \<le> 0xFFFF" "site_ok \<sigma> w" "length vs = length ?ls"
      "room \<sigma> vs (need_list (n # k # ns))" "eval_and (sem_of \<sigma> e) (n # k # ns) (visible ?ls vs) w = (r, env', w')"
    obtain r1 env1 w1 where 1: "ir_eval (sem_of \<sigma> e) n (visible ?ls vs) w = (r1, env1, w1)" by (metis prod_cases3)
    have "fill ?u ?ss = bs @ (op_byte OP_JUMP_FALSE # ?u) @ fill ?u ss" using ss(1) by (simp add: fill_Cons)
    moreover have "length (op_byte OP_JUMP_FALSE # ?u) = 3" by simp
    ultimately have code: "code_in (si_chunk \<sigma>) (chunk_pos c) bs" "code_in (si_chunk \<sigma>) (chunk_pos c1) (op_byte OP_JUMP_FALSE # ?u)"
        "code_in (si_chunk \<sigma>) (chunk_pos c2) (fill ?u ss)"
      using running_code [OF run] unfolding pos by (simp_all only: code_in_append)
    obtain x where "pool_of c' = pool_of c1 @ x" using ss(3) e2 by (auto simp: emits_def j)
    note runs = running_sub [OF run code(1) this] running_sub [OF run code(3), of c' "[]"]
    have "yields \<sigma> (here \<sigma> w (chunk_pos c) vs) r1 (good \<sigma> ?ls (hidden ?ls vs) (chunk_pos c1) (\<lambda>v. [v]) env1 w1) w1"
      by (rule simulatesD [OF bs(3) [OF runs(1)] 0(2,3) _ 1]) (use 0(4) in simp)
    then show "yields \<sigma> (here \<sigma> w (chunk_pos c) vs) r (and_ok \<sigma> ?ls (hidden ?ls vs) (chunk_pos c') target env' w') w'"
    proof (rule yields_bind)
      show "r = Inl er \<and> w' = w1" if "r1 = Inl er" for er using that 0 1 by (simp add: ebind_def)
      fix v s'
      assume v: "r1 = Inr v" "good \<sigma> ?ls (hidden ?ls vs) (chunk_pos c1) (\<lambda>v. [v]) env1 w1 v s'"
      then obtain us where us: "length us = length ?ls" "visible ?ls us = env1" "hidden ?ls us = hidden ?ls vs" "site_ok \<sigma> w1"
          "s' = here \<sigma> w1 (chunk_pos c1) (us @ [v])" by (auto simp: good_def)
      note step = yields_step [OF step_jump_false [OF us(4) code(2) 0(1), of us v], folded us(5)]
      show "yields \<sigma> s' r (and_ok \<sigma> ?ls (hidden ?ls vs) (chunk_pos c') target env' w') w'"
      proof (cases "v = V_FALSE")
        case True
        then have r: "r = Inr V_FALSE" "env' = env1" "w' = w1" using 0 1 v by (auto simp: ebind_def eret_def)
        have "and_ok \<sigma> ?ls (hidden ?ls vs) (chunk_pos c') target env' w' V_FALSE (here \<sigma> w1 target us)"
          using us r by (auto simp: and_ok_def good_def)
        with True r show ?thesis by (intro step) (auto intro!: yields_done)
      next
        case False
        then have "eval_and (sem_of \<sigma> e) (k # ns) (visible ?ls us) w1 = (r, env', w')" using 0 1 v us by (auto simp: ebind_def)
        then have "yields \<sigma> (here \<sigma> w1 (chunk_pos c2) us) r (and_ok \<sigma> ?ls (hidden ?ls us) (chunk_pos c') target env' w') w'"
          using and_itemsD [OF ss(5) runs(2) 0(1) us(4), of us r env' w'] 0(3,4) us(1) c2(1) by simp
        with False us pos show ?thesis by (intro step) simp
      qed
    qed
  qed
  moreover have "ats = gaps (chunk_pos c) ?ss" using ss(1,2) em(4) pos by (simp add: gaps_Cons j add.assoc)
  moreover have "emits c (fill [0xFF, 0xFF] ?ss) c'" using emits_trans [OF emits_trans [OF bs(1) e2] ss(3)] ss(1) by (simp add: fill_Cons)
  ultimately show ?case using ss(4) by (intro exI [of _ ?ss]) simp
qed simp

lemma and_correct:
  assumes "\<And>n. correct e f n"
  shows "correct e (emit_node e f) (IR_AND line ns)"
proof (rule correctI)
  fix c c'
  assume em: "emit_node e f False c (IR_AND line ns) = Inr c'" and ready: "ready c (ir_need (IR_AND line ns))"
    and plain: "plain (ce_rt e) (depth_of c = 0) (IR_AND line ns)"
  let ?ls = "cp_locals c"
  show "cp_locals c' = ?ls \<and> compiled c c' (ir_need (IR_AND line ns)) (\<lambda>v. [v]) (\<lambda>\<sigma>. ir_eval (sem_of \<sigma> e) (IR_AND line ns))"
  proof (cases "ns = []")
    case True
    with em ready emit_op_correct [of OP_TRUE V_TRUE c line] show ?thesis by (auto simp: emit_node_def ready_def)
  next
    case False
    with em obtain ats c1 a c2 c3 where em1: "emit_and f False line ns c = Inr (ats, c1)" "emit_jump c1 OP_JUMP line = (a, c2)"
        "patch16 (emit c2 OP_FALSE line) a (chunk_pos c2 + 1) = Inr c3" "patch_all (chunk_pos c2) ats c3 = Inr c'"
      by (fastforce simp: emit_node_def rbind_Inr_iff patch_jump_def case_prod_beta intro: prod.collapse [symmetric])
    obtain ss where ss: "ss \<noteq> []" "ats = gaps (chunk_pos c) ss" "emits c (fill [0xFF, 0xFF] ss) c1" "cp_locals c1 = ?ls" "and_items e ns c ss c1"
      using emit_and_correct [OF assms em1(1) False] ready_mono [OF ready] plain by auto
    note j = emit_jump_eq [OF em1(2)]
    have "code_of (emit c2 OP_FALSE line) = (code_of c1 @ [op_byte OP_JUMP]) @ [0xFF, 0xFF] @ [op_byte OP_FALSE]" by (simp add: j)
    note p1 = patch16_eq [OF em1(3) this, simplified j(1)]
    let ?e = "chunk_pos c2 + 1" and ?u = "u16_bytes (word_of_nat (chunk_pos c2))"
    have "code_of c3 = code_of c @ fill [0xFF, 0xFF] ss @ op_byte OP_JUMP # u16_bytes (word_of_nat ?e) @ [op_byte OP_FALSE]"
      using p1(1) ss(3) by (simp add: emits_def)
    note p2 = patch_all_fill [OF em1(4) [unfolded ss(2)] this]
    let ?bs = "fill ?u ss @ (op_byte OP_JUMP # u16_bytes (word_of_nat ?e)) @ [op_byte OP_FALSE]"
    have emits: "emits c ?bs c'" and locals: "cp_locals c' = ?ls" using p2 p1 ss(3,4) j by (auto simp: emits_def)
    have flen: "length (fill ?u ss) = length (fill [0xFF, 0xFF] ss)" by (rule fill_length) simp_all
    have pos: "chunk_pos c1 = chunk_pos c + length (fill ?u ss)" "chunk_pos c2 = chunk_pos c1 + 3" "chunk_pos c' = ?e"
      using emits_pos [OF ss(3)] conjunct1 [OF p2] flen by (simp_all add: j(2))
    have sim: "simulates \<sigma> ?ls (chunk_pos c) (chunk_pos c') (1 + need_list ns) (\<lambda>v. [v]) (eval_and (sem_of \<sigma> e) ns)"
      if run: "running \<sigma> c ?bs c'" for \<sigma>
    proof (rule simulatesI)
      fix w vs r env' w'
      assume 0: "site_ok \<sigma> w" "length vs = length ?ls" "room \<sigma> vs (1 + need_list ns)" "eval_and (sem_of \<sigma> e) ns (visible ?ls vs) w = (r, env', w')"
      have len: "length (op_byte OP_JUMP # u16_bytes (word_of_nat ?e)) = 3" by simp
      have sums: "chunk_pos c + length (fill ?u ss) = chunk_pos c1" "chunk_pos c1 + 3 = chunk_pos c2" using pos by auto
      have code: "code_in (si_chunk \<sigma>) (chunk_pos c) (fill ?u ss)" "code_in (si_chunk \<sigma>) (chunk_pos c1) (op_byte OP_JUMP # u16_bytes (word_of_nat ?e))"
          "code_in (si_chunk \<sigma>) (chunk_pos c2) [op_byte OP_FALSE]"
        using running_code [OF run] unfolding code_in_append len sums by blast+
      have "chunk_pos c + length ?bs \<le> code_len (si_chunk \<sigma>)" by (rule code_in_bound [OF running_code [OF run]]) simp
      moreover have "code_len (si_chunk \<sigma>) \<le> 0xFFFF" using run unfolding running_def by blast
      moreover have "length ?bs = length (fill ?u ss) + 4" by simp
      ultimately have small: "?e \<le> 0xFFFF" using sums by linarith
      have pool: "pool_of c' = pool_of c1 @ []" using p2 p1 j by simp
      have "yields \<sigma> (here \<sigma> w (chunk_pos c) vs) r (and_ok \<sigma> ?ls (hidden ?ls vs) (chunk_pos c1) (chunk_pos c2) env' w') w'"
        by (rule and_itemsD [OF ss(5) running_sub [OF run code(1) pool] _ 0(1,2) _ 0(4)]) (use small 0(3) in auto)
      then show "yields \<sigma> (here \<sigma> w (chunk_pos c) vs) r (good \<sigma> ?ls (hidden ?ls vs) (chunk_pos c') (\<lambda>v. [v]) env' w') w'"
      proof (rule yields_bind)
        fix v s'
        assume r: "r = Inr v" and "and_ok \<sigma> ?ls (hidden ?ls vs) (chunk_pos c1) (chunk_pos c2) env' w' v s'"
        then consider (last) "good \<sigma> ?ls (hidden ?ls vs) (chunk_pos c1) (\<lambda>v. [v]) env' w' v s'"
          | (short) us where "v = V_FALSE" "length us = length ?ls" "visible ?ls us = env'" "hidden ?ls us = hidden ?ls vs" "site_ok \<sigma> w'"
              "s' = here \<sigma> w' (chunk_pos c2) us" by (auto simp: and_ok_def good_def)
        then show "yields \<sigma> s' r (good \<sigma> ?ls (hidden ?ls vs) (chunk_pos c') (\<lambda>v. [v]) env' w') w'"
        proof cases
          case last
          with yields_jump [OF yields_done code(2) small] r show ?thesis unfolding pos(3) by simp
        next
          case short
          have "site_step \<sigma> s' = (Running, here \<sigma> w' (chunk_pos c') (us @ [V_FALSE]))"
            unfolding short(6) pos(3) by (rule step_push [OF short(5) code(3)]) (use short 0 in auto)
          moreover have "good \<sigma> ?ls (hidden ?ls vs) (chunk_pos c') (\<lambda>v. [v]) env' w' v (here \<sigma> w' (chunk_pos c') (us @ [V_FALSE]))"
            using short by (auto simp: good_def)
          ultimately show ?thesis using r by (auto intro!: yields_step [OF _ yields_done])
        qed
      qed simp
    qed
    have "compiled c c' (1 + need_list ns) (\<lambda>v. [v]) (\<lambda>\<sigma>. eval_and (sem_of \<sigma> e) ns)" by (rule compiledI [OF emits sim])
    with locals show ?thesis by simp
  qed
qed

section \<open>Disjunction\<close>

lemma emit_or_correct:
  assumes "\<And>n. correct e f n"
  shows "emit_or f line ns c = Inr (ats, c') \<Longrightarrow> ns \<noteq> [] \<Longrightarrow> ready c (need_list ns) \<Longrightarrow> plain_list (ce_rt e) (depth_of c = 0) ns \<Longrightarrow>
    \<exists>ss. ss \<noteq> [] \<and> ats = gaps (chunk_pos c) ss \<and> emits c (fill [0xFF, 0xFF] ss) c' \<and> cp_locals c' = cp_locals c \<and>
      (\<forall>\<sigma>. running \<sigma> c (fill (u16_bytes (word_of_nat (chunk_pos c'))) ss) c' \<longrightarrow>
        simulates \<sigma> (cp_locals c) (chunk_pos c) (chunk_pos c') (need_list ns) (\<lambda>v. [v]) (eval_or (sem_of \<sigma> e) ns))"
proof (induction ns arbitrary: c ats rule: induct_list012)
  case (2 n)
  from "2.prems"(1) have c': "f False c n = Inr c'" "ats = []" by (auto simp: rbind_Inr_iff)
  obtain bs where "emits c bs c'" "cp_locals c' = cp_locals c"
      "\<And>\<sigma>. running \<sigma> c bs c' \<Longrightarrow> simulates \<sigma> (cp_locals c) (chunk_pos c) (chunk_pos c') (ir_need n) (\<lambda>v. [v]) (ir_eval (sem_of \<sigma> e) n)"
    by (rule correctD [OF assms c'(1)]) (use "2.prems" in auto)
  with c'(2) show ?case by (intro exI [of _ "[bs]"]) auto
next
  case (3 n k ns)
  from "3.prems"(1) obtain c1 a1 c2 ats' where em: "f False c n = Inr c1" "emit_jump (emit c1 OP_DUP line) OP_JUMP_TRUE line = (a1, c2)"
      "emit_or f line (k # ns) (emit c2 OP_POP line) = Inr (ats', c')" "ats = a1 # ats'"
    by (fastforce simp: rbind_Inr_iff case_prod_beta intro: prod.collapse [symmetric])
  let ?ls = "cp_locals c" and ?c3 = "emit c2 OP_POP line"
  obtain bs where bs: "emits c bs c1" "cp_locals c1 = ?ls"
      "\<And>\<sigma>. running \<sigma> c bs c1 \<Longrightarrow> simulates \<sigma> ?ls (chunk_pos c) (chunk_pos c1) (ir_need n) (\<lambda>v. [v]) (ir_eval (sem_of \<sigma> e) n)"
    by (rule correctD [OF assms em(1)]) (use "3.prems" ready_mono in auto)
  note j = emit_jump_eq [OF em(2)]
  have e3: "emits c1 [op_byte OP_DUP, op_byte OP_JUMP_TRUE, 0xFF, 0xFF, op_byte OP_POP] ?c3" using bs(1) by (simp add: emits_def j)
  have c3: "cp_locals ?c3 = ?ls" "depth_of ?c3 = depth_of c" "ready ?c3 (need_list (k # ns))"
    using ready_mono [OF ready_emits [OF ready_emits [OF "3.prems"(3) bs(1,2)] e3]] bs e3 by (auto simp: j emits_def)
  obtain s0 ss where ss: "ats' = gaps (chunk_pos ?c3) (s0 # ss)" "emits ?c3 (fill [0xFF, 0xFF] (s0 # ss)) c'" "cp_locals c' = ?ls"
      "\<And>\<sigma>. running \<sigma> ?c3 (fill (u16_bytes (word_of_nat (chunk_pos c'))) (s0 # ss)) c' \<Longrightarrow>
        simulates \<sigma> ?ls (chunk_pos ?c3) (chunk_pos c') (need_list (k # ns)) (\<lambda>v. [v]) (eval_or (sem_of \<sigma> e) (k # ns))"
    using "3.IH"(2) [OF em(3)] c3 "3.prems"(4) by (auto simp: neq_Nil_conv)
  let ?ss = "(bs @ [op_byte OP_DUP, op_byte OP_JUMP_TRUE]) # ([op_byte OP_POP] @ s0) # ss"
  have fills: "fill u ?ss = bs @ [op_byte OP_DUP] @ (op_byte OP_JUMP_TRUE # u) @ [op_byte OP_POP] @ fill u (s0 # ss)" for u
    using fill_head [of u "[op_byte OP_POP]" s0 ss] by simp
  have pos: "chunk_pos c1 = chunk_pos c + length bs" "chunk_pos c2 = chunk_pos c1 + 1 + 3" "chunk_pos ?c3 = chunk_pos c1 + 1 + 3 + 1"
    using emits_pos [OF bs(1)] emits_pos [OF e3] by auto
  let ?u = "u16_bytes (word_of_nat (chunk_pos c'))"
  have "simulates \<sigma> ?ls (chunk_pos c) (chunk_pos c') (need_list (n # k # ns)) (\<lambda>v. [v]) (eval_or (sem_of \<sigma> e) (n # k # ns))"
    if run: "running \<sigma> c (fill ?u ?ss) c'" for \<sigma>
  proof -
    have "length (op_byte OP_JUMP_TRUE # ?u) = 3" "length [op_byte OP_DUP] = 1" "length [op_byte OP_POP] = 1" by simp_all
    then have code: "code_in (si_chunk \<sigma>) (chunk_pos c) bs" "code_in (si_chunk \<sigma>) (chunk_pos c1) [op_byte OP_DUP]"
        "code_in (si_chunk \<sigma>) (chunk_pos c1 + 1) (op_byte OP_JUMP_TRUE # ?u)" "code_in (si_chunk \<sigma>) (chunk_pos c2) [op_byte OP_POP]"
        "code_in (si_chunk \<sigma>) (chunk_pos ?c3) (fill ?u (s0 # ss))"
      using running_code [OF run] unfolding fills pos by (simp_all only: code_in_append)
    have "chunk_pos c' = chunk_pos c + length (fill ?u ?ss)"
      using emits_pos [OF ss(2)] fill_length [of ?u "[0xFF, 0xFF]" "s0 # ss"] pos unfolding fills by simp
    then have small: "chunk_pos c' \<le> 0xFFFF" using code_in_bound [OF running_code [OF run]] run unfolding running_def fills by force
    obtain x where "pool_of c' = pool_of c1 @ x" using ss(2) e3 by (auto simp: emits_def j)
    note runs = running_sub [OF run code(1) this] running_sub [OF run code(5), of c' "[]"]
    have "simulates \<sigma> ?ls (chunk_pos c) (chunk_pos c') (need_list (n # k # ns)) (\<lambda>v. [v])
        (ebind (ir_eval (sem_of \<sigma> e) n) (\<lambda>v. if v = V_FALSE then eval_or (sem_of \<sigma> e) (k # ns) else eret v))"
    proof (rule simulates_bind [OF bs(3) [OF runs(1)]])
      fix v w vs r env' w'
      assume 0: "site_ok \<sigma> w" "length vs = length ?ls" "room \<sigma> vs (need_list (n # k # ns))"
        "(if v = V_FALSE then eval_or (sem_of \<sigma> e) (k # ns) else eret v) (visible ?ls vs) w = (r, env', w')"
      have room2: "room \<sigma> vs 2" using 0(3) ir_need_pos [of n] ir_need_pos [of k] by (simp del: ir_need_pos)
      have jump: "site_step \<sigma> (here \<sigma> w (chunk_pos c1 + 1) ((vs @ [v]) @ [v])) =
          (Running, here \<sigma> w (if v \<noteq> V_FALSE then chunk_pos c' else chunk_pos c2) (vs @ [v]))"
        using step_jump_true [OF 0(1) code(3) small, of "vs @ [v]" v] pos by simp
      note step = yields_step [OF step_dup [OF 0(1) code(2) room2]] and step2 = yields_step [OF jump]
      show "yields \<sigma> (here \<sigma> w (chunk_pos c1) (vs @ [v])) r (good \<sigma> ?ls (hidden ?ls vs) (chunk_pos c') (\<lambda>v. [v]) env' w') w'"
      proof (cases "v = V_FALSE")
        case True
        have "yields \<sigma> (here \<sigma> w (chunk_pos ?c3) vs) r (good \<sigma> ?ls (hidden ?ls vs) (chunk_pos c') (\<lambda>v. [v]) env' w') w'"
          by (rule simulatesD [OF ss(4) [OF runs(2)] 0(1,2)]) (use 0 True in auto)
        with yields_step [OF step_pop [OF 0(1) code(4), of vs v]] pos
        have "yields \<sigma> (here \<sigma> w (chunk_pos c2) (vs @ [v])) r (good \<sigma> ?ls (hidden ?ls vs) (chunk_pos c') (\<lambda>v. [v]) env' w') w'" by simp
        with True step2 show ?thesis by (intro step) simp
      next
        case False
        with 0 have "r = Inr v" "env' = visible ?ls vs" "w' = w" by (auto simp: eret_def)
        with good_here [OF 0(1,2), of "chunk_pos c'" "\<lambda>v. [v]" v] False step2 [OF yields_done] show ?thesis by (intro step) auto
      qed
    qed simp
    then show ?thesis by simp
  qed
  moreover have "ats = gaps (chunk_pos c) ?ss"
    using em(4) ss(1) gaps_head [of "chunk_pos c2" "[op_byte OP_POP]" s0 ss] pos by (simp add: j add.assoc)
  moreover have "emits c (fill [0xFF, 0xFF] ?ss) c'" unfolding fills using emits_trans [OF emits_trans [OF bs(1) e3] ss(2)] by simp
  ultimately show ?case using ss(3) by (intro exI [of _ ?ss]) simp
qed simp

lemma or_correct:
  assumes "\<And>n. correct e f n"
  shows "correct e (emit_node e f) (IR_OR line ns)"
proof (rule correctI)
  fix c c'
  assume em: "emit_node e f False c (IR_OR line ns) = Inr c'" and ready: "ready c (ir_need (IR_OR line ns))"
    and plain: "plain (ce_rt e) (depth_of c = 0) (IR_OR line ns)"
  show "cp_locals c' = cp_locals c \<and> compiled c c' (ir_need (IR_OR line ns)) (\<lambda>v. [v]) (\<lambda>\<sigma>. ir_eval (sem_of \<sigma> e) (IR_OR line ns))"
  proof (cases "ns = []")
    case True
    with em ready emit_op_correct [of OP_FALSE V_FALSE c line] show ?thesis by (auto simp: emit_node_def ready_def)
  next
    case False
    with em obtain ats c1 where em1: "emit_or f line ns c = Inr (ats, c1)" "patch_all (chunk_pos c1) ats c1 = Inr c'"
      by (auto simp: emit_node_def rbind_Inr_iff)
    obtain ss where ss: "ats = gaps (chunk_pos c) ss" "emits c (fill [0xFF, 0xFF] ss) c1" "cp_locals c1 = cp_locals c"
        "\<And>\<sigma>. running \<sigma> c (fill (u16_bytes (word_of_nat (chunk_pos c1))) ss) c1 \<Longrightarrow>
          simulates \<sigma> (cp_locals c) (chunk_pos c) (chunk_pos c1) (need_list ns) (\<lambda>v. [v]) (eval_or (sem_of \<sigma> e) ns)"
      using emit_or_correct [OF assms em1(1) False] ready_mono [OF ready] plain by auto
    have "code_of c1 = code_of c @ fill [0xFF, 0xFF] ss @ []" using ss(2) by (simp add: emits_def)
    note p = patch_all_fill [OF em1(2) [unfolded ss(1)] this]
    let ?u = "u16_bytes (word_of_nat (chunk_pos c1))"
    have "emits c (fill ?u ss) c'" using p ss(2) by (simp add: emits_def)
    moreover have "chunk_pos c' = chunk_pos c1" using p ss(2) fill_length [of ?u "[0xFF, 0xFF]" ss] by (simp add: emits_def)
    moreover have "running \<sigma> c (fill ?u ss) c1" if "running \<sigma> c (fill ?u ss) c'" for \<sigma> using that p by (simp add: running_def)
    ultimately have "compiled c c' (need_list ns) (\<lambda>v. [v]) (\<lambda>\<sigma>. eval_or (sem_of \<sigma> e) ns)" using ss(4) by (intro compiledI) auto
    then show ?thesis using p ss(3) by (auto simp: compiled_def simulates_def)
  qed
qed

end
