(* ===== verification/Compile_Calls.thy ===== *)
theory Compile_Calls
  imports Compile_Logic
begin

text \<open>
  Calls: the arguments stay on the stack as pending values while the later ones are evaluated, so each of
  them is code for a frame with one more hidden slot. A \<open>let\<close> turns the pending values into named locals
  and drops them under the result when its scope ends.
\<close>

section \<open>Arguments\<close>

lemma pending_name [simp]: "lo_name (pending d) = V_FALSE" "lo_depth (pending d) = d" "\<not> lo_captured (pending d)"
  by (simp_all add: pending_def)

lemma good_pending:
  assumes "length vs = length ls" "good \<sigma> (ls @ [pending d]) (hidden (ls @ [pending d]) (vs @ [v])) ip (\<lambda>as. as) env w as s"
  shows "good \<sigma> ls (hidden ls vs) ip (\<lambda>as. as) env w (v # as) s"
proof -
  from assms obtain us where us: "length us = Suc (length ls)" "visible (ls @ [pending d]) us = env" "site_ok \<sigma> w"
      "hidden (ls @ [pending d]) us = hidden ls vs @ [v]" "s = here \<sigma> w ip (us @ as)" by (auto simp: good_def)
  then obtain xs x where "us = xs @ [x]" "length xs = length ls" by (cases us rule: rev_cases) auto
  with us show ?thesis by (auto simp: good_def)
qed

lemma ready_reserve:
  assumes "ready c (Suc k)"
  shows "ready (reserve_pending_slot c) k" "cp_locals (reserve_pending_slot c) = cp_locals c @ [pending (depth_of c)]"
proof -
  have "length (cp_locals c) < MAX_LOCALS" using assms by (simp add: ready_def MAX_LOCALS_def)
  then show locals: "cp_locals (reserve_pending_slot c) = cp_locals c @ [pending (depth_of c)]" by simp
  show "ready (reserve_pending_slot c) k" using assms by (auto simp: ready_def locals)
qed

lemma args_correct:
  assumes "\<And>n. correct e f n"
  shows "emit_args f ns c = Inr c' \<Longrightarrow> ready c (need_list ns + m) \<Longrightarrow> plain_list (ce_rt e) (depth_of c = 0) ns \<Longrightarrow>
    cp_locals c' = cp_locals c @ replicate (length ns) (pending (depth_of c)) \<and> ready c' m \<and> depth_of c' = depth_of c \<and>
    compiled c c' (need_list ns) (\<lambda>as. as) (\<lambda>\<sigma>. eval_args (sem_of \<sigma> e) ns)"
proof (induction ns arbitrary: c)
  case Nil
  then have "emits c [] c" by (simp add: emits_refl ready_def)
  moreover have "simulates \<sigma> (cp_locals c) (chunk_pos c) (chunk_pos c) 0 (\<lambda>as. as) (eret [])" for \<sigma>
    using good_here [where v = "[]" and emb = "\<lambda>as. as"] by (auto intro!: simulatesI yields_done simp: eret_def)
  ultimately have "compiled c c 0 (\<lambda>as. as) (\<lambda>\<sigma>. eret [])" by (rule compiledI)
  with Nil show ?case by simp
next
  case (Cons n ns)
  from Cons.prems(1) obtain c1 where c1: "f False c n = Inr c1" "emit_args f ns (reserve_pending_slot c1) = Inr c'"
    by (auto simp: rbind_Inr_iff)
  have ready: "ready c (ir_need n + need_list ns + m)" using Cons.prems(2) by simp
  have plain: "plain (ce_rt e) (depth_of c = 0) n" "plain_list (ce_rt e) (depth_of c = 0) ns" using Cons.prems(3) by simp_all
  note s1 = correct_compiled [OF assms c1(1) ready _ plain(1), simplified]
  let ?ls = "cp_locals c" and ?c2 = "reserve_pending_slot c1"
  have "Suc (need_list ns + m) \<le> ir_need n + need_list ns + m" using ir_need_pos [of n] by linarith
  note c2 = ready_reserve [OF ready_mono [OF s1(3) this], unfolded s1(1,4)]
  from Cons.IH [OF c1(2) c2(1)] plain(2) s1(4) c2(2) obtain bs where rest: "cp_locals c' = ?ls @ pending (depth_of c) # replicate (length ns) (pending (depth_of c))"
      "ready c' m" "depth_of c' = depth_of c" "emits ?c2 bs c'"
      "\<And>\<sigma>. running \<sigma> ?c2 bs c' \<Longrightarrow> simulates \<sigma> (?ls @ [pending (depth_of c)]) (chunk_pos ?c2) (chunk_pos c') (need_list ns) (\<lambda>as. as) (eval_args (sem_of \<sigma> e) ns)"
    unfolding compiled_def by auto
  have e1: "emits c1 bs c'" using rest(4) by (simp add: emits_def)
  have "compiled c c' (ir_need n + need_list ns) (\<lambda>as. as) (\<lambda>\<sigma>. ebind (ir_eval (sem_of \<sigma> e) n)
      (\<lambda>v. ebind (eval_args (sem_of \<sigma> e) ns) (\<lambda>vs. eret (v # vs))))"
  proof (rule compiled_bind [OF s1(2) e1])
    fix \<sigma> v w vs r env' w'
    assume run: "running \<sigma> c1 bs c'" and 0: "site_ok \<sigma> w" "length vs = length ?ls" "room \<sigma> vs (ir_need n + need_list ns)"
      "ebind (eval_args (sem_of \<sigma> e) ns) (\<lambda>vs. eret (v # vs)) (visible ?ls vs) w = (r, env', w')"
    obtain r1 where 1: "eval_args (sem_of \<sigma> e) ns (visible ?ls vs) w = (r1, env', w')" "r = map_sum id ((#) v) r1"
      using 0(4) by (auto simp: ebind_def eret_def split: prod.splits sum.splits)
    have "yields \<sigma> (here \<sigma> w (chunk_pos ?c2) (vs @ [v])) r1 (good \<sigma> (?ls @ [pending (depth_of c)])
        (hidden (?ls @ [pending (depth_of c)]) (vs @ [v])) (chunk_pos c') (\<lambda>as. as) env' w') w'"
      by (rule simulatesD [OF rest(5)]) (use run 0 1 ir_need_pos [of n] in \<open>auto simp: running_def simp del: ir_need_pos\<close>)
    then show "yields \<sigma> (here \<sigma> w (chunk_pos c1) (vs @ [v])) r (good \<sigma> ?ls (hidden ?ls vs) (chunk_pos c') (\<lambda>as. as) env' w') w'"
      using good_pending [OF 0(2), of \<sigma> "depth_of c" v] 1(2)
      by (auto elim!: yields_bind intro!: yields_done)
  qed simp
  with rest show ?case by simp
qed

text \<open>An evaluated argument list has the length of the argument list.\<close>

lemma eval_args_length: "eval_args m ns env w = (Inr vs, env', w') \<Longrightarrow> length vs = length ns"
  by (induction ns arbitrary: env w vs env' w') (fastforce simp: ebind_def eret_def split: prod.splits sum.splits)+

lemma eval_args_guard:
  "ebind (eval_args m ns) k = ebind (eval_args m ns) (\<lambda>vs. if length vs = length ns then k vs else (\<lambda>env w. (Inl Undefined, env, w)))"
  by (rule ext)+ (auto simp: ebind_def eval_args_length split: prod.splits sum.splits)

lemma pending_correct:
  assumes "\<And>n. correct e f n" "emit_pending f ns c = Inr c'" "ready c (need_list ns + m)" "plain_list (ce_rt e) (depth_of c = 0) ns"
  shows "cp_locals c' = cp_locals c" "compiled c c' (need_list ns) (\<lambda>as. as) (\<lambda>\<sigma>. eval_args (sem_of \<sigma> e) ns)"
    "ready c' (need_list ns + m)" "depth_of c' = depth_of c"
proof -
  from assms(2) obtain c1 where c1: "emit_args f ns c = Inr c1" "c' = release_pending_slots c1 (length (cp_locals c))"
    by (auto simp: emit_pending_def rbind_Inr_iff)
  note a = args_correct [OF assms(1) c1(1) assms(3,4)]
  then show "cp_locals c' = cp_locals c" "depth_of c' = depth_of c" by (simp_all add: c1(2))
  have "emits c bs c' = emits c bs c1" "running \<sigma> c bs c' = running \<sigma> c bs c1" for bs \<sigma> by (simp_all add: c1(2) emits_def running_def)
  with a show "compiled c c' (need_list ns) (\<lambda>as. as) (\<lambda>\<sigma>. eval_args (sem_of \<sigma> e) ns)"
    by (simp add: c1(2) compiled_def)
  from a obtain bs where "emits c bs c1" by (auto simp: compiled_def)
  then have "emits c bs c'" by (simp add: c1(2) emits_def)
  from ready_emits [OF assms(3) this] a show "ready c' (need_list ns + m)" by (simp add: c1(2))
qed

section \<open>Calls\<close>

text \<open>A call instruction behind the evaluated operands; \<open>ev\<close> is what the instruction does.\<close>

lemma call_correct:
  assumes "\<And>n. correct e f n" "emit_pending f ns c = Inr c1" "ready c (need_list ns)" "plain_list (ce_rt e) (depth_of c = 0) ns"
    "emits c1 bs c'" "1 \<le> k" "need_list ns \<le> k"
    "\<And>\<sigma> as w vs. running \<sigma> c1 bs c' \<Longrightarrow> site_ok \<sigma> w \<Longrightarrow> length vs = length (cp_locals c) \<Longrightarrow> room \<sigma> vs 1 \<Longrightarrow> length as = length ns \<Longrightarrow>
       \<exists>r w'. ev \<sigma> as (visible (cp_locals c) vs) w = (r, visible (cp_locals c) vs, w') \<and> (r = Inl Undefined \<or>
         site_ok \<sigma> w' \<and> finishes \<sigma> r w' (chunk_pos c') vs (site_step \<sigma> (here \<sigma> w (chunk_pos c1) (vs @ as))))"
  shows "compiled c c' k (\<lambda>v. [v]) (\<lambda>\<sigma>. ebind (eval_args (sem_of \<sigma> e) ns) (ev \<sigma>))"
proof -
  let ?ls = "cp_locals c"
  have "compiled c c1 (need_list ns) (\<lambda>as. as) (\<lambda>\<sigma>. eval_args (sem_of \<sigma> e) ns)"
    by (rule pending_correct(2) [OF assms(1,2), where m = 0]) (use assms(3,4) in simp_all)
  then have "compiled c c' k (\<lambda>v. [v]) (\<lambda>\<sigma>. ebind (eval_args (sem_of \<sigma> e) ns)
      (\<lambda>as. if length as = length ns then ev \<sigma> as else (\<lambda>env w. (Inl Undefined, env, w))))"
  proof (rule compiled_bind [OF _ assms(5)])
    fix \<sigma> as w vs r env' w'
    assume run: "running \<sigma> c1 bs c'" and 0: "site_ok \<sigma> w" "length vs = length ?ls" "room \<sigma> vs k"
      "(if length as = length ns then ev \<sigma> as else (\<lambda>env w. (Inl Undefined, env, w))) (visible ?ls vs) w = (r, env', w')"
    show "yields \<sigma> (here \<sigma> w (chunk_pos c1) (vs @ as)) r (good \<sigma> ?ls (hidden ?ls vs) (chunk_pos c') (\<lambda>v. [v]) env' w') w'"
    proof (cases "length as = length ns")
      case True
      have "room \<sigma> vs 1" using 0(3) assms(6) by simp
      from assms(8) [OF run 0(1,2) this True] True 0(4) have "env' = visible ?ls vs"
          "r = Inl Undefined \<or> site_ok \<sigma> w' \<and> finishes \<sigma> r w' (chunk_pos c') vs (site_step \<sigma> (here \<sigma> w (chunk_pos c1) (vs @ as)))"
        by auto
      then show ?thesis by (auto elim!: yields_finishes simp: good_here [OF _ 0(2), where emb = "\<lambda>v. [v]"])
    qed (use 0(4) in auto)
  qed (use assms(7) in simp)
  then show ?thesis by (simp only: eval_args_guard [symmetric])
qed

lemma call_value_cases:
  assumes "call_value m f as env w = (r, env', w')"
  obtains "vis_bcclosure f w" "r = Inl Undefined" "env' = env" | "\<not> vis_bcclosure f w" "x_apply (m_vm m) f (int (length as)) as w = (r, w')" "env' = env"
  using assms by (auto simp: call_value_def split: if_splits prod.splits)

lemma apply_site_ok:
  "running \<sigma> c bs c' \<Longrightarrow> site_ok \<sigma> w \<Longrightarrow> x_apply (si_ext \<sigma>) f n as w = (r, w') \<Longrightarrow> site_ok \<sigma> w'"
  by (rule blind_site_ok [of \<sigma> "x_apply (si_ext \<sigma>) f n as"]) (auto simp: running_def foreign_ok_def)

lemma u8_count: "n \<le> 255 \<Longrightarrow> unat (word_of_nat n :: u8) = n"
  by (simp add: unat_of_nat)

lemma generic_call_correct:
  assumes "\<And>n. correct e f n" "emit_call_generic f False c callee args line = Inr c'" "ready c (1 + ir_need callee + need_list args)"
    "plain (ce_rt e) (depth_of c = 0) callee" "plain_list (ce_rt e) (depth_of c = 0) args" "length args \<le> 255"
  shows "cp_locals c' = cp_locals c" "compiled c c' (1 + ir_need callee + need_list args) (\<lambda>v. [v])
    (\<lambda>\<sigma>. ebind (ir_eval (sem_of \<sigma> e) callee) (\<lambda>f. ebind (eval_args (sem_of \<sigma> e) args) (\<lambda>vs. call_value (sem_of \<sigma> e) f vs)))"
proof -
  from assms(2) obtain c1 where c1: "emit_pending f (callee # args) c = Inr c1" "c' = emit_ab c1 OP_CALL (word_of_nat (length args)) line"
    by (auto simp: emit_call_generic_def rbind_Inr_iff)
  have pre: "ready c (need_list (callee # args) + 1)" "plain_list (ce_rt e) (depth_of c = 0) (callee # args)" using assms(3-5) by simp_all
  note p = pending_correct [OF assms(1) c1(1) pre]
  show "cp_locals c' = cp_locals c" using p by (simp add: c1(2))
  have e1: "emits c1 [op_byte OP_CALL, word_of_nat (length args)] c'" using p(3) by (simp add: c1(2) emits_def ready_def)
  have "compiled c c' (1 + ir_need callee + need_list args) (\<lambda>v. [v])
      (\<lambda>\<sigma>. ebind (eval_args (sem_of \<sigma> e) (callee # args)) (\<lambda>fs. call_value (sem_of \<sigma> e) (fs ! 0) (tl fs)))"
  proof (rule call_correct [OF assms(1) c1(1) ready_mono [OF pre(1)] pre(2) e1])
    fix \<sigma> w vs and as :: "val list"
    assume run: "running \<sigma> c1 [op_byte OP_CALL, word_of_nat (length args)] c'" and 0: "site_ok \<sigma> w" "room \<sigma> vs 1" "length as = length (callee # args)"
    then obtain g bs where as: "as = g # bs" "length bs = length args" by (cases as) auto
    obtain r env' w' where 1: "call_value (sem_of \<sigma> e) g bs (visible (cp_locals c) vs) w = (r, env', w')" by (metis prod_cases3)
    then show "\<exists>r w'. call_value (sem_of \<sigma> e) (as ! 0) (tl as) (visible (cp_locals c) vs) w = (r, visible (cp_locals c) vs, w') \<and>
        (r = Inl Undefined \<or> site_ok \<sigma> w' \<and> finishes \<sigma> r w' (chunk_pos c') vs (site_step \<sigma> (here \<sigma> w (chunk_pos c1) (vs @ as))))"
    proof (cases rule: call_value_cases)
      case 2
      have "foreign_ok (si_ext \<sigma>) (cf_closure (si_frame \<sigma>))" using run by (simp add: running_def)
      from step_call [OF 0(1) running_code [OF run] this 2(1) 0(2)] 2 as assms(6)
      have "finishes \<sigma> r w' (chunk_pos c') vs (site_step \<sigma> (here \<sigma> w (chunk_pos c1) (vs @ as)))" by (simp add: u8_count c1(2))
      with apply_site_ok [OF run 0(1)] 1 2 as show ?thesis by simp
    qed (use 1 as in simp)
  qed simp_all
  moreover have "ebind (eval_args (sem_of \<sigma> e) (callee # args)) (\<lambda>fs. call_value (sem_of \<sigma> e) (fs ! 0) (tl fs)) =
      ebind (ir_eval (sem_of \<sigma> e) callee) (\<lambda>f. ebind (eval_args (sem_of \<sigma> e) args) (\<lambda>vs. call_value (sem_of \<sigma> e) f vs))" for \<sigma>
    by (rule ext)+ (auto simp: ebind_def eret_def split: prod.splits sum.splits)
  ultimately show "compiled c c' (1 + ir_need callee + need_list args) (\<lambda>v. [v])
    (\<lambda>\<sigma>. ebind (ir_eval (sem_of \<sigma> e) callee) (\<lambda>f. ebind (eval_args (sem_of \<sigma> e) args) (\<lambda>vs. call_value (sem_of \<sigma> e) f vs)))" by simp
qed

lemma pending_single:
  assumes "f False c n = Inr c'" "cp_locals c' = cp_locals c" "length (cp_locals c) < MAX_LOCALS"
  shows "emit_pending f [n] c = Inr c'"
  using assms by (simp add: emit_pending_def release_pending_slots_def set_locals_def reserve_pending_slot_def)

lemma open_code_prim: "open_code e head n = Some opc \<Longrightarrow> \<exists>p. (opc, p, n) \<in> set open_prims"
  by (auto simp: open_code_def open_code_table_def open_prims_def split: if_splits)

text \<open>The two instructions for a call of a global: open-coded, or \<open>OP_CALL_GLOBAL\<close>.\<close>

definition global_call_code :: "opcode option \<Rightarrow> nat \<Rightarrow> nat \<Rightarrow> u8 list" where
  "global_call_code opc ci argc = (case opc of
     Some opc \<Rightarrow> [op_byte opc, word_of_nat ci] | None \<Rightarrow> [op_byte OP_CALL_GLOBAL, word_of_nat ci, word_of_nat argc])"

lemma step_global_call:
  assumes run: "running \<sigma> c1 (global_call_code opc ci (length as)) c'" and entry: "pool_entry (ce_rt e) (pool_of c') ci head"
    and sym: "vis_symbol (ce_rt e) head" and ok: "site_ok \<sigma> w" "room \<sigma> vs 1" and size: "ci < 256" "length as \<le> 255"
    and opc: "\<And>q. opc = Some q \<Longrightarrow> \<exists>p. (q, p, length as) \<in> set open_prims"
    and pos: "chunk_pos c' = chunk_pos c1 + length (global_call_code opc ci (length as))"
  shows "\<exists>r w'. ebind (global_value (sem_of \<sigma> e) head) (\<lambda>f. call_value (sem_of \<sigma> e) f as) env w = (r, env, w') \<and>
    (r = Inl Undefined \<or> site_ok \<sigma> w' \<and> finishes \<sigma> r w' (chunk_pos c') vs (site_step \<sigma> (here \<sigma> w (chunk_pos c1) (vs @ as))))"
proof -
  note ci = running_consts(1) [OF run entry] running_consts(3) [OF run entry sym]
  have ext: "foreign_ok (si_ext \<sigma>) (cf_closure (si_frame \<sigma>))" "prims_ok (si_ext \<sigma>)" using run by (simp_all add: running_def)
  note code = running_code [OF run]
  show ?thesis
  proof (cases "v_globals w (site_env \<sigma>) head")
    case None
    have "finishes \<sigma> (Inl unbound_variable) w (chunk_pos c') vs (site_step \<sigma> (here \<sigma> w (chunk_pos c1) (vs @ as)))"
    proof (cases opc)
      case None
      with code have "code_in (si_chunk \<sigma>) (chunk_pos c1) [op_byte OP_CALL_GLOBAL, word_of_nat ci, word_of_nat (length as)]"
        by (simp add: global_call_code_def)
      from step_call_global_unbound [OF ok(1) this] ci size \<open>v_globals w (site_env \<sigma>) head = None\<close>
      show ?thesis by (simp add: u8_index)
    next
      case (Some q)
      with opc obtain p where p: "(q, p, length as) \<in> set open_prims" by blast
      from code have "code_in (si_chunk \<sigma>) (chunk_pos c1) [op_byte q, word_of_nat ci]" by (simp add: global_call_code_def Some)
      from step_open_code_unbound [OF ok(1) this p] ci size \<open>v_globals w (site_env \<sigma>) head = None\<close> show ?thesis by (simp add: u8_index)
    qed
    with None ok show ?thesis by (simp add: ebind_def global_value_def)
  next
    case (Some g)
    obtain r env' w' where 1: "call_value (sem_of \<sigma> e) g as env w = (r, env', w')" by (metis prod_cases3)
    then show ?thesis
    proof (cases rule: call_value_cases)
      case 2
      have "finishes \<sigma> r w' (chunk_pos c') vs (site_step \<sigma> (here \<sigma> w (chunk_pos c1) (vs @ as)))"
      proof (cases opc)
        case None
        with code have "code_in (si_chunk \<sigma>) (chunk_pos c1) [op_byte OP_CALL_GLOBAL, word_of_nat ci, word_of_nat (length as)]"
          by (simp add: global_call_code_def)
        from step_call_global [OF ok(1) this ext(1) _ _ 2(1) ok(2)] ci size Some 2 pos None show ?thesis
          by (simp add: u8_index u8_count global_call_code_def numeral_3_eq_3)
      next
        case (Some q)
        with opc obtain p where p: "(q, p, length as) \<in> set open_prims" by blast
        from code have "code_in (si_chunk \<sigma>) (chunk_pos c1) [op_byte q, word_of_nat ci]" by (simp add: global_call_code_def Some)
        from step_open_code [OF ok(1) this ext p _ _ ok(2)] ci size \<open>v_globals w (site_env \<sigma>) head = Some g\<close> 2 pos Some show ?thesis
          by (simp add: u8_index global_call_code_def)
      qed
      with Some 1 2 apply_site_ok [OF run ok(1)] show ?thesis by (simp add: ebind_def global_value_def)
    qed (use Some 1 in \<open>simp add: ebind_def global_value_def\<close>)
  qed
qed

text \<open>The shape of what is emitted for such a call.\<close>

lemma emit_call_global_shape:
  assumes "\<And>n. correct e f n" "emit_call_global e f False c head args line = Inr c'" "ready c (1 + need_list args)"
    "plain_list (ce_rt e) (depth_of c = 0) args"
  obtains opc ci c1 c2 where "add_const e c head = Inr (ci, c1)" "emit_pending f args c1 = Inr c2"
    "\<And>q. opc = Some q \<Longrightarrow> \<exists>p. (q, p, length args) \<in> set open_prims"
    "code_of c' = code_of c2 @ global_call_code opc ci (length args)" "pool_of c' = pool_of c2" "cp_locals c' = cp_locals c2"
    "depth_of c' = depth_of c2" "cp_enclosing c' = cp_enclosing c2"
proof (cases "if length args \<in> {1, 2} then open_code e head (length args) else None")
  case None
  with assms(2) obtain ci c1 c2 where "add_const e c head = Inr (ci, c1)" "emit_pending f args c1 = Inr c2"
      "c' = emit_abc c2 OP_CALL_GLOBAL (word_of_nat ci) (word_of_nat (length args)) line"
    by (auto simp: emit_call_global_def rbind_Inr_iff)
  then show ?thesis by (intro that [where opc = None]) (auto simp: global_call_code_def)
next
  case (Some opc)
  with assms(2) obtain ci c1 c2 where em: "add_const e c head = Inr (ci, c1)"
      "(if length args = 1 then f False c1 (args ! 0) else emit_pending f args c1) = Inr c2" "c' = emit_ab c2 opc (word_of_nat ci) line"
    by (auto simp: emit_call_global_def rbind_Inr_iff)
  have "emit_pending f args c1 = Inr c2"
  proof (cases "length args = 1")
    case True
    then obtain n where n: "args = [n]" by (auto simp: length_Suc_conv)
    note ac = add_const_eq [OF em(1)]
    have "ready c1 (1 + need_list args)" using ac assms(3) by (auto simp: ready_def)
    then have "cp_locals c2 = cp_locals c1" "length (cp_locals c1) < MAX_LOCALS"
      using correct_compiled(1) [OF assms(1), of c1 n c2 "1 + need_list args"] ac assms(3,4) em(2) n
      by (auto simp: ready_def MAX_LOCALS_def)
    with em(2) n show ?thesis by (simp add: pending_single)
  qed (use em in simp)
  with em Some open_code_prim show ?thesis by (intro that [where opc = "Some opc"]) (auto simp: global_call_code_def split: if_splits)
qed

lemma global_call_correct:
  assumes "\<And>n. correct e f n" "emit_call_global e f False c head args line = Inr c'" "ready c (1 + need_list args)"
    "plain_list (ce_rt e) (depth_of c = 0) args" "vis_symbol (ce_rt e) head" "length args \<le> 255"
  shows "cp_locals c' = cp_locals c" "compiled c c' (1 + need_list args) (\<lambda>v. [v])
    (\<lambda>\<sigma>. ebind (eval_args (sem_of \<sigma> e) args) (\<lambda>vs. ebind (global_value (sem_of \<sigma> e) head) (\<lambda>f. call_value (sem_of \<sigma> e) f vs)))"
proof -
  obtain opc ci c1 c2 where em: "add_const e c head = Inr (ci, c1)" "emit_pending f args c1 = Inr c2"
      "\<And>q. opc = Some q \<Longrightarrow> \<exists>p. (q, p, length args) \<in> set open_prims"
      "code_of c' = code_of c2 @ global_call_code opc ci (length args)" "pool_of c' = pool_of c2" "cp_locals c' = cp_locals c2"
      "depth_of c' = depth_of c2" "cp_enclosing c' = cp_enclosing c2"
    by (rule emit_call_global_shape [OF assms(1-4)]) (rule that)
  have pool: "length (pool_of c) \<le> 256" using assms(3) by (simp add: ready_def)
  note ac = add_const_eq [OF em(1) pool]
  have ready1: "ready c1 (need_list args + 1)" using assms(3) ac by (auto simp: ready_def)
  have plain1: "plain_list (ce_rt e) (depth_of c1 = 0) args" using assms(4) ac(7) by simp
  note p = pending_correct [OF assms(1) em(2) ready1 plain1]
  show "cp_locals c' = cp_locals c" using em(6) p(1) ac(6) by simp
  have e2: "emits c2 (global_call_code opc ci (length args)) c'" using em p(3) by (simp add: emits_def ready_def)
  from p(2) obtain bs ext where "emits c1 bs c2" by (auto simp: compiled_def)
  then obtain ext where "pool_of c2 = pool_of c1 @ ext" by (auto simp: emits_def)
  then have entry: "pool_entry (ce_rt e) (pool_of c') ci head" using ac(1) em(5) by (simp add: pool_entry_append)
  have "compiled c1 c' (1 + need_list args) (\<lambda>v. [v])
    (\<lambda>\<sigma>. ebind (eval_args (sem_of \<sigma> e) args) (\<lambda>vs. ebind (global_value (sem_of \<sigma> e) head) (\<lambda>f. call_value (sem_of \<sigma> e) f vs)))"
  proof (rule call_correct [OF assms(1) em(2) ready_mono [OF ready1] plain1 e2])
    fix \<sigma> w vs and as :: "val list"
    assume "running \<sigma> c2 (global_call_code opc ci (length args)) c'" "site_ok \<sigma> w" "room \<sigma> vs 1" "length as = length args"
    then show "\<exists>r w'. ebind (global_value (sem_of \<sigma> e) head) (\<lambda>f. call_value (sem_of \<sigma> e) f as) (visible (cp_locals c1) vs) w =
        (r, visible (cp_locals c1) vs, w') \<and> (r = Inl Undefined \<or>
          site_ok \<sigma> w' \<and> finishes \<sigma> r w' (chunk_pos c') vs (site_step \<sigma> (here \<sigma> w (chunk_pos c2) (vs @ as))))"
      by (intro step_global_call [where opc = opc and ci = ci, OF _ entry assms(5)]) (use em ac(2) assms(6) in auto)
  qed simp_all
  then show "compiled c c' (1 + need_list args) (\<lambda>v. [v])
    (\<lambda>\<sigma>. ebind (eval_args (sem_of \<sigma> e) args) (\<lambda>vs. ebind (global_value (sem_of \<sigma> e) head) (\<lambda>f. call_value (sem_of \<sigma> e) f vs)))"
    using ac by (auto simp: compiled_def emits_def running_def)
qed

section \<open>Binding forms\<close>

lemma chunk_local_debug_add_code:
  "chunk_local_debug_add ck name slot pos = (dbg, ck') \<Longrightarrow> ck_code ck' = ck_code ck \<and> ck_constants ck' = ck_constants ck"
  by (auto simp: chunk_local_debug_add_def Let_def split: if_splits)

lemma chunk_local_debug_end_code [simp]:
  "ck_code (chunk_local_debug_end ck dbg pos) = ck_code ck" "ck_constants (chunk_local_debug_end ck dbg pos) = ck_constants ck"
  by (simp_all add: chunk_local_debug_end_def)

lemma claim_params_eq:
  assumes "cp_locals c = ls @ ps" "length ps = length names" "c' = claim_params (length ls) names c"
  shows "code_of c' = code_of c \<and> pool_of c' = pool_of c \<and> depth_of c' = depth_of c \<and> cp_enclosing c' = cp_enclosing c \<and>
    (\<exists>qs. cp_locals c' = ls @ qs \<and> map lo_name qs = names \<and> map lo_depth qs = map lo_depth ps \<and> map lo_captured qs = map lo_captured ps)"
  using assms
proof (induction names arbitrary: c ls ps c')
  case (Cons name names)
  then obtain p ps' where ps: "ps = p # ps'" "length ps' = length names" by (cases ps) auto
  obtain dbg ck where ck: "chunk_local_debug_add (cp_chunk c) name (int (length ls)) (int (chunk_pos c)) = (dbg, ck)" by fastforce
  define c1 where "c1 = set_locals (set_chunk c ck) (ls @ [p\<lparr>lo_name := name, lo_dbg := dbg\<rparr>] @ ps')"
  have c': "c' = claim_params (length (ls @ [p\<lparr>lo_name := name, lo_dbg := dbg\<rparr>])) names c1"
    using Cons.prems ck by (simp add: ps c1_def)
  from Cons.IH [OF _ ps(2) c'] chunk_local_debug_add_code [OF ck] show ?case by (auto simp: c1_def ps)
qed simp

lemma pop_locals_eq:
  assumes "cp_locals c = ls @ qs" "\<forall>l \<in> set ls. lo_depth l \<le> depth_of c" "\<forall>q \<in> set qs. depth_of c < lo_depth q \<and> \<not> lo_captured q"
    "pop_locals c line k = (n, c')"
  shows "n = k + length qs" "code_of c' = code_of c" "pool_of c' = pool_of c" "cp_locals c' = ls" "depth_of c' = depth_of c"
    "cp_enclosing c' = cp_enclosing c"
proof -
  have "n = k + length qs \<and> code_of c' = code_of c \<and> pool_of c' = pool_of c \<and> cp_locals c' = ls \<and> depth_of c' = depth_of c \<and>
      cp_enclosing c' = cp_enclosing c"
    using assms
  proof (induction qs arbitrary: c k rule: rev_induct)
    case Nil
    then have "\<not> (cp_locals c \<noteq> [] \<and> lo_depth (last (cp_locals c)) > depth_of c)" by (cases ls rule: rev_cases) auto
    then have "pop_locals c line k = (k, c)" by (subst pop_locals.simps) (rule if_not_P)
    with Nil show ?case by simp
  next
    case (snoc q qs)
    from snoc.prems(4) have "pop_locals (set_locals (set_chunk c (chunk_local_debug_end (cp_chunk c) (lo_dbg q) (int (chunk_pos c)))) (ls @ qs)) line (k + 1) = (n, c')"
      using snoc.prems(1,3) by (subst (asm) pop_locals.simps) (simp add: Let_def butlast_append)
    from snoc.IH [OF _ _ _ this] snoc.prems(2,3) show ?case by simp
  qed
  then show "n = k + length qs" "code_of c' = code_of c" "pool_of c' = pool_of c" "cp_locals c' = ls" "depth_of c' = depth_of c"
    "cp_enclosing c' = cp_enclosing c" by simp_all
qed

lemma visible_append: "length vs = length ls \<Longrightarrow> visible (ls @ qs) (vs @ as) = visible ls vs @ visible qs as"
  and hidden_append: "length vs = length ls \<Longrightarrow> hidden (ls @ qs) (vs @ as) = hidden ls vs @ hidden qs as"
  by (simp_all add: visible_def hidden_def)

lemma visible_named: "V_FALSE \<notin> set (map lo_name qs) \<Longrightarrow> visible qs as = zip (map lo_name qs) as \<and> hidden qs as = []"
proof (induction qs arbitrary: as)
  case (Cons q qs)
  then show ?case by (cases as) (auto simp: visible_def hidden_def)
qed (simp add: visible_def hidden_def)

lemma visible_length: "length vs = length ls \<Longrightarrow> length (visible ls vs) = length (filter (\<lambda>l. lo_name l \<noteq> V_FALSE) ls)"
  by (induction vs ls rule: list_induct2) (simp_all add: visible_def)

lemma end_scope_eq:
  assumes "cp_locals c = ls @ qs" "\<forall>l \<in> set ls. lo_depth l < depth_of c" "\<forall>q \<in> set qs. depth_of c \<le> lo_depth q \<and> \<not> lo_captured q"
  shows "code_of (end_scope c line) = code_of c @ (if qs = [] then [] else [op_byte OP_SLIDE, word_of_nat (length qs)])"
    "pool_of (end_scope c line) = pool_of c" "cp_locals (end_scope c line) = ls" "depth_of (end_scope c line) = depth_of c - 1"
    "cp_enclosing (end_scope c line) = cp_enclosing c"
proof -
  let ?c1 = "c\<lparr>cp_level := (cp_level c)\<lparr>lv_scope_depth := depth_of c - 1\<rparr>\<rparr>"
  obtain n c2 where pop: "pop_locals ?c1 line 0 = (n, c2)" by fastforce
  have "cp_locals ?c1 = ls @ qs" "\<forall>l \<in> set ls. lo_depth l \<le> depth_of ?c1" "\<forall>q \<in> set qs. depth_of ?c1 < lo_depth q \<and> \<not> lo_captured q"
    using assms by auto
  note p = pop_locals_eq [OF this pop]
  then show "code_of (end_scope c line) = code_of c @ (if qs = [] then [] else [op_byte OP_SLIDE, word_of_nat (length qs)])"
    "pool_of (end_scope c line) = pool_of c" "cp_locals (end_scope c line) = ls" "depth_of (end_scope c line) = depth_of c - 1"
    "cp_enclosing (end_scope c line) = cp_enclosing c" by (auto simp: end_scope_def pop)
qed

lemma body_correct:
  assumes "\<And>n. correct e f n" "emit_body f False line body c = Inr c'" "ready c (1 + need_forms body)" "plain_forms (ce_rt e) (depth_of c = 0) body"
  shows "cp_locals c' = cp_locals c \<and> compiled c c' (1 + need_forms body) (\<lambda>v. [v]) (\<lambda>\<sigma>. eval_forms (sem_of \<sigma> e) body)"
proof (cases "body = []")
  case True
  then show ?thesis using assms(2,3) emit_op_correct [of OP_VOID V_VOID c line] by (auto simp: emit_body_def ready_def)
next
  case False
  have "cp_locals c' = cp_locals c \<and> compiled c c' (need_forms body) (\<lambda>v. [v]) (\<lambda>\<sigma>. eval_forms (sem_of \<sigma> e) body)"
    by (rule forms_correct [OF assms(1) _ False]) (use assms False ready_mono in \<open>auto simp: emit_body_def\<close>)
  then show ?thesis by (auto simp: compiled_def simulates_def)
qed

text \<open>Leaving the scope of a \<open>let\<close> under its value.\<close>

lemma leave_scope:
  assumes "good \<sigma> (ls @ qs) (hidden ls vs) ip (\<lambda>v. [v]) env w v s" "V_FALSE \<notin> set (map lo_name qs)" "length vs = length ls" "room \<sigma> vs 1"
    "code_in (si_chunk \<sigma>) ip (if qs = [] then [] else [op_byte OP_SLIDE, word_of_nat (length qs)])" "length qs < 256"
    "ip' = ip + (if qs = [] then 0 else 2)"
  shows "yields \<sigma> s (Inr v) (good \<sigma> ls (hidden ls vs) ip' (\<lambda>v. [v]) (take (length (visible ls vs)) env) w) w'"
proof -
  from assms(1) obtain us0 where us0: "length us0 = length (ls @ qs)" "visible (ls @ qs) us0 = env" "hidden (ls @ qs) us0 = hidden ls vs"
      "site_ok \<sigma> w" "s = here \<sigma> w ip (us0 @ [v])" by (auto simp: good_def)
  define us as where "us = take (length ls) us0" and "as = drop (length ls) us0"
  have parts: "us0 = us @ as" "length us = length ls" "length as = length qs" using us0(1) by (simp_all add: us_def as_def)
  have env: "env = visible ls us @ visible qs as" and hid: "hidden ls us = hidden ls vs"
    using us0(2,3) visible_named [OF assms(2), of as] by (simp_all add: parts visible_append hidden_append)
  have "take (length (visible ls vs)) env = visible ls us"
    unfolding env visible_length [OF assms(3)] using visible_length [OF parts(2)] by simp
  then have fin: "good \<sigma> ls (hidden ls vs) ip' (\<lambda>v. [v]) (take (length (visible ls vs)) env) w v (here \<sigma> w ip' (us @ [v]))"
    using good_here [OF us0(4) parts(2), of ip' "\<lambda>v. [v]" v] hid by simp
  show ?thesis
  proof (cases "qs = []")
    case True
    with fin us0(5) parts assms(7) show ?thesis by (intro yields_done) simp
  next
    case False
    have "site_step \<sigma> (here \<sigma> w ip (us @ as @ [v])) = (Running, here \<sigma> w (ip + 2) (us @ [v]))"
      by (rule step_slide [OF us0(4)]) (use assms(3-6) False parts in \<open>auto simp: u8_index\<close>)
    with fin us0(5) parts assms(7) False show ?thesis by (auto intro!: yields_step [OF _ yields_done])
  qed
qed

lemma inline_call_correct:
  assumes "\<And>n. correct e f n" "ir_emit_inline_call f False c params [] body args line = Inr c'"
    "ready c (2 + need_forms body + need_list args)" "length params = length args" "list_all (vis_symbol (ce_rt e)) params"
    "plain_list (ce_rt e) False args" "plain_forms (ce_rt e) False body"
  shows "cp_locals c' = cp_locals c" "compiled c c' (2 + need_forms body + need_list args) (\<lambda>v. [v])
    (\<lambda>\<sigma>. ebind (eval_args (sem_of \<sigma> e) args) (\<lambda>vs. with_locals params vs (eval_forms (sem_of \<sigma> e) body)))"
proof -
  let ?ls = "cp_locals c" and ?n = "length args" and ?k = "2 + need_forms body + need_list args"
  from assms(2) obtain c1 c2 c3 where em: "emit_args f args (begin_scope c) = Inr c1" "c2 = claim_params (length ?ls) params c1"
      "emit_body f False line body c2 = Inr c3" "c' = end_scope c3 line"
    by (auto simp: ir_emit_inline_call_def rbind_Inr_iff assms(4) [symmetric])
  have depth: "0 \<le> depth_of c" "\<forall>l \<in> set ?ls. lo_depth l \<le> depth_of c \<and> \<not> lo_captured l" "length ?ls + ?k < 256"
    using assms(3) by (auto simp: ready_def)
  have "ready (begin_scope c) (need_list args + (1 + need_forms body))" using assms(3) by (auto simp: ready_def)
  from args_correct [OF assms(1) em(1) this] assms(6) depth(1)
  have a: "cp_locals c1 = ?ls @ replicate ?n (pending (depth_of c + 1))" "ready c1 (1 + need_forms body)" "depth_of c1 = depth_of c + 1"
      "compiled (begin_scope c) c1 (need_list args) (\<lambda>as. as) (\<lambda>\<sigma>. eval_args (sem_of \<sigma> e) args)" by auto
  from claim_params_eq [OF a(1) _ em(2)] assms(4) obtain qs where q: "code_of c2 = code_of c1" "pool_of c2 = pool_of c1" "depth_of c2 = depth_of c1"
      "cp_enclosing c2 = cp_enclosing c1" "cp_locals c2 = ?ls @ qs" "map lo_name qs = params"
      "map lo_depth qs = replicate ?n (depth_of c + 1)" "map lo_captured qs = replicate ?n False" by auto
  have qs: "length qs = ?n" "\<forall>q \<in> set qs. lo_depth q = depth_of c + 1 \<and> \<not> lo_captured q" "V_FALSE \<notin> set (map lo_name qs)"
  proof -
    show "length qs = ?n" using q(6) assms(4) by (metis length_map)
    have "lo_depth ` set qs \<subseteq> {depth_of c + 1}" "lo_captured ` set qs \<subseteq> {False}"
      using arg_cong [OF q(7), of set] arg_cong [OF q(8), of set] by (auto split: if_splits)
    then show "\<forall>q \<in> set qs. lo_depth q = depth_of c + 1 \<and> \<not> lo_captured q" by auto
    show "V_FALSE \<notin> set (map lo_name qs)" unfolding q(6) using assms(5) symbol_not_false by (auto simp: list_all_iff)
  qed
  have ready2: "ready c2 (1 + need_forms body)" using a(1-3) q qs depth by (auto simp: ready_def)
  have "plain_forms (ce_rt e) (depth_of c2 = 0) body" using assms(7) q(3) a(3) depth(1) by simp
  from body_correct [OF assms(1) em(3) ready2 this] q(5) obtain bs where b: "cp_locals c3 = ?ls @ qs" "emits c2 bs c3"
      "\<And>\<sigma>. running \<sigma> c2 bs c3 \<Longrightarrow> simulates \<sigma> (?ls @ qs) (chunk_pos c2) (chunk_pos c3) (1 + need_forms body) (\<lambda>v. [v]) (eval_forms (sem_of \<sigma> e) body)"
    by (auto simp: compiled_def)
  have d3: "depth_of c3 = depth_of c + 1" using b(2) q(3) a(3) by (simp add: emits_def)
  let ?slide = "if qs = [] then [] else [op_byte OP_SLIDE, word_of_nat (length qs)]"
  have "\<forall>l \<in> set ?ls. lo_depth l < depth_of c3" "\<forall>q \<in> set qs. depth_of c3 \<le> lo_depth q \<and> \<not> lo_captured q" using depth qs d3 by auto
  note s = end_scope_eq [OF b(1) this, of line, folded em(4)]
  then show "cp_locals c' = ?ls" by simp
  from a(4) obtain bsa where bsa: "emits (begin_scope c) bsa c1" "\<And>\<sigma>. running \<sigma> (begin_scope c) bsa c1 \<Longrightarrow>
      simulates \<sigma> ?ls (chunk_pos c) (chunk_pos c1) (need_list args) (\<lambda>as. as) (eval_args (sem_of \<sigma> e) args)"
    by (auto simp: compiled_def)
  have emits: "emits c (bsa @ bs @ ?slide) c'" using bsa(1) b(2) s d3 q a(3) by (auto simp: emits_def)
  have pos: "chunk_pos c + length bsa = chunk_pos c1" "chunk_pos c1 + length bs = chunk_pos c3" "chunk_pos c2 = chunk_pos c1"
      "chunk_pos c' = chunk_pos c3 + (if qs = [] then 0 else 2)" using bsa(1) b(2) q(1) s(1) by (auto simp: emits_def)
  have sim: "simulates \<sigma> ?ls (chunk_pos c) (chunk_pos c') ?k (\<lambda>v. [v])
      (ebind (eval_args (sem_of \<sigma> e) args) (\<lambda>vs. with_locals params vs (eval_forms (sem_of \<sigma> e) body)))"
    if run: "running \<sigma> c (bsa @ bs @ ?slide) c'" for \<sigma>
  proof -
    have code: "code_in (si_chunk \<sigma>) (chunk_pos (begin_scope c)) bsa" "code_in (si_chunk \<sigma>) (chunk_pos c2) bs" "code_in (si_chunk \<sigma>) (chunk_pos c3) ?slide"
      using running_code [OF run] unfolding code_in_append pos by auto
    obtain x where "pool_of c' = pool_of c1 @ x" using b(2) q(2) s(2) by (auto simp: emits_def)
    note runs = running_sub [OF run code(1) this] running_sub [OF run code(2), of c3 "[]"]
    show ?thesis
    proof (subst eval_args_guard, rule simulates_bind [OF bsa(2) [OF runs(1)]])
      fix w vs r env' w' and as :: "val list"
      assume 0: "site_ok \<sigma> w" "length vs = length ?ls" "room \<sigma> vs ?k" "(if length as = ?n then with_locals params as (eval_forms (sem_of \<sigma> e) body)
        else (\<lambda>env w. (Inl Undefined, env, w))) (visible ?ls vs) w = (r, env', w')"
      show "yields \<sigma> (here \<sigma> w (chunk_pos c1) (vs @ as)) r (good \<sigma> ?ls (hidden ?ls vs) (chunk_pos c') (\<lambda>v. [v]) env' w') w'"
      proof (cases "length as = ?n")
        case True
        obtain env1 where 1: "eval_forms (sem_of \<sigma> e) body (visible ?ls vs @ zip params as) w = (r, env1, w')" "env' = take (length (visible ?ls vs)) env1"
          using 0(4) True by (auto simp: with_locals_def split: prod.splits)
        have vis: "visible (?ls @ qs) (vs @ as) = visible ?ls vs @ zip params as" "hidden (?ls @ qs) (vs @ as) = hidden ?ls vs"
          using visible_named [OF qs(3), of as] 0(2) q(6) by (simp_all add: visible_append hidden_append)
        have "length as \<le> need_list args" using True need_list_length by simp
        then have "yields \<sigma> (here \<sigma> w (chunk_pos c2) (vs @ as)) r (good \<sigma> (?ls @ qs) (hidden (?ls @ qs) (vs @ as)) (chunk_pos c3) (\<lambda>v. [v]) env1 w') w'"
          using 0 True qs(1) 1(1) vis s(2) by (intro simulatesD [OF b(3) [OF runs(2)]]) simp_all
        then show ?thesis unfolding vis pos(3)
        proof (rule yields_bind)
          fix v s'
          assume "r = Inr v" "good \<sigma> (?ls @ qs) (hidden ?ls vs) (chunk_pos c3) (\<lambda>v. [v]) env1 w' v s'"
          then show "yields \<sigma> s' r (good \<sigma> ?ls (hidden ?ls vs) (chunk_pos c') (\<lambda>v. [v]) env' w') w'"
            using leave_scope [OF _ qs(3) 0(2) _ code(3) _ pos(4)] 0(3) depth(3) need_list_length [of args] qs(1) 1(2) by simp
        qed simp
      qed (use 0(4) in auto)
    qed simp
  qed
  show "compiled c c' ?k (\<lambda>v. [v]) (\<lambda>\<sigma>. ebind (eval_args (sem_of \<sigma> e) args) (\<lambda>vs. with_locals params vs (eval_forms (sem_of \<sigma> e) body)))"
    by (rule compiledI [OF emits sim])
qed

end
