(* ===== verification/Emit_Levels.thy ===== *)
theory Emit_Levels
  imports Emit_Layout
begin

text \<open>
  The levels of a compiler: whatever is emitted, the procedures being compiled are afterwards the same ones,
  with the parameter counts they had before. A nested procedure adds a level and removes it again.
\<close>

definition arities :: "compiler \<Rightarrow> int list" where
  "arities c = map (\<lambda>l. ck_arity (lv_chunk l)) (cp_level c # cp_enclosing c)"

lemma arities_set [simp]:
  "ck_arity ck = ck_arity (cp_chunk c) \<Longrightarrow> arities (set_chunk c ck) = arities c" "arities (set_locals c ls) = arities c"
  "arities (begin_scope c) = arities c" "arities (reserve_pending_slot c) = arities c" "arities (release_pending_slots c n) = arities c"
  "arities (mark_initialised c) = arities c"
  by (simp_all add: arities_def set_chunk_def set_locals_def begin_scope_def reserve_pending_slot_def release_pending_slots_def mark_initialised_def)

lemma chunk_arity [simp]:
  "ck_arity (snd (chunk_emit ck b line)) = ck_arity ck" "ck_arity (chunk_emit16 ck w line) = ck_arity ck"
  "ck_arity (snd (chunk_local_debug_add ck name slot pos)) = ck_arity ck" "ck_arity (chunk_local_debug_end ck dbg pos) = ck_arity ck"
  by (simp_all add: chunk_emit_def chunk_emit16_def ensure_code_def chunk_local_debug_add_def chunk_local_debug_end_def Let_def)

lemma arities_emit [simp]:
  "arities (emit_byte c b line) = arities c" "arities (emit c opc line) = arities c" "arities (emit_ab c opc a line) = arities c"
  "arities (emit_abc c opc a b line) = arities c"
  by (simp_all add: emit_byte_def emit_def emit_ab_def emit_abc_def)

lemma chunk_add_const_arity:
  assumes "chunk_add_const r ck v = Inr (i, ck')"
  shows "ck_arity ck' = ck_arity ck"
proof -
  from assms obtain found where "const_search r v 0 (ck_constants ck) = Inr found" by (auto simp: chunk_add_const_def rbind_Inr_iff)
  with assms show ?thesis by (cases found) (auto simp: chunk_add_const_def Let_def split: if_splits)
qed

lemma arities_results:
  "add_const e c v = Inr (i, c1) \<Longrightarrow> arities c1 = arities c" "emit_const e c v line = Inr c1 \<Longrightarrow> arities c1 = arities c"
  "emit_jump c opc line = (i, c1) \<Longrightarrow> arities c1 = arities c" "patch16 c i target = Inr c1 \<Longrightarrow> arities c1 = arities c"
  "add_local c name = Inr (i, c1) \<Longrightarrow> arities c1 = arities c"
proof -
  show add: "arities c1 = arities c" if const: "add_const e c v = Inr (i, c1)" for i c1
  proof -
    from const obtain ck where ck: "chunk_add_const (ce_rt e) (cp_chunk c) v = Inr (i, ck)" "c1 = set_chunk c ck"
      by (auto simp: add_const_def rbind_Inr_iff)
    from ck(1) have "ck_arity ck = ck_arity (cp_chunk c)" by (rule chunk_add_const_arity)
    with ck(2) show ?thesis by simp
  qed
  show "arities c1 = arities c" if const: "emit_const e c v line = Inr c1"
  proof -
    from const obtain i c2 where c2: "add_const e c v = Inr (i, c2)" by (auto simp: emit_const_def rbind_Inr_iff)
    with const add [OF c2] show ?thesis by (auto simp: emit_const_def Let_def)
  qed
  show "emit_jump c opc line = (i, c1) \<Longrightarrow> arities c1 = arities c" by (auto simp: emit_jump_def Let_def)
  show "patch16 c i target = Inr c1 \<Longrightarrow> arities c1 = arities c"
    by (auto simp: patch16_def chunk_patch16_def rbind_Inr_iff split: if_splits)
  show "add_local c name = Inr (i, c1) \<Longrightarrow> arities c1 = arities c"
    by (auto simp: add_local_def chunk_local_debug_add_def Let_def split: if_splits)
qed

lemma add_upvalue_arity: "add_upvalue lv i is_local name = Inr (u, lv') \<Longrightarrow> ck_arity (lv_chunk lv') = ck_arity (lv_chunk lv)"
  by (auto simp: add_upvalue_def split: option.splits if_splits)

lemma resolve_upvalue_in_arity:
  "resolve_upvalue_in lv encs name = Inr (found, lv', encs') \<Longrightarrow>
    map (\<lambda>l. ck_arity (lv_chunk l)) (lv' # encs') = map (\<lambda>l. ck_arity (lv_chunk l)) (lv # encs)"
proof (induction lv encs name arbitrary: found lv' encs' rule: resolve_upvalue_in.induct)
  case (2 lv enc encs name)
  then show ?case
    by (fastforce simp: rbind_Inr_iff mark_captured_def dest!: add_upvalue_arity split: option.splits)
qed simp

lemma arities_resolve: "resolve_upvalue c name = Inr (found, c1) \<Longrightarrow> arities c1 = arities c"
  by (auto simp: resolve_upvalue_def rbind_Inr_iff arities_def dest: resolve_upvalue_in_arity)

lemma arities_variables:
  "emit_var a b g e c name line = Inr c1 \<Longrightarrow> arities c1 = arities c" "emit_define_store e c name line = Inr c1 \<Longrightarrow> arities c1 = arities c"
proof -
  show "emit_var a b g e c name line = Inr c1 \<Longrightarrow> arities c1 = arities c"
    by (auto simp: emit_var_def rbind_Inr_iff split: option.splits dest!: arities_resolve arities_results)
  show "emit_define_store e c name line = Inr c1 \<Longrightarrow> arities c1 = arities c"
    by (auto simp: emit_define_store_def rbind_Inr_iff split: option.splits if_splits dest!: arities_results(1,5))
qed

lemma arities_pop_locals: "pop_locals c line n = (m, c1) \<Longrightarrow> arities c1 = arities c"
  by (induction c line n rule: pop_locals.induct) (subst (asm) (2) pop_locals.simps, auto simp: Let_def split: if_splits)

lemma arities_end_scope [simp]: "arities (end_scope c line) = arities c"
proof -
  let ?c1 = "c\<lparr>cp_level := (cp_level c)\<lparr>lv_scope_depth := depth_of c - 1\<rparr>\<rparr>"
  obtain n c2 where pop: "pop_locals ?c1 line 0 = (n, c2)" by fastforce
  have "arities ?c1 = arities c" by (simp add: arities_def)
  with arities_pop_locals [OF pop] pop show ?thesis by (simp add: end_scope_def)
qed

lemma arities_claim_params [simp]: "arities (claim_params slot names c) = arities c"
proof (induction names arbitrary: slot c)
  case (Cons name names)
  obtain dbg ck where ck: "chunk_local_debug_add (cp_chunk c) name (int slot) (int (chunk_pos c)) = (dbg, ck)" by fastforce
  then have "ck_arity ck = ck_arity (cp_chunk c)" using chunk_arity(3) by (metis snd_conv)
  with Cons ck show ?case by simp
qed simp

section \<open>Emission\<close>

definition levels_kept :: "emitter \<Rightarrow> bool" where
  "levels_kept f \<longleftrightarrow> (\<forall>tail c n c'. f tail c n = Inr c' \<longrightarrow> arities c' = arities c)"

lemma levels_keptD: "levels_kept f \<Longrightarrow> f tail c n = Inr c' \<Longrightarrow> arities c' = arities c"
  by (simp add: levels_kept_def)

text \<open>In every proof the intermediate compilers are named, and the levels are kept step by step.\<close>

lemma emit_args_levels: "levels_kept f \<Longrightarrow> emit_args f ns c = Inr c' \<Longrightarrow> arities c' = arities c"
proof (induction ns arbitrary: c)
  case (Cons n ns)
  then obtain c1 where "f False c n = Inr c1" "emit_args f ns (reserve_pending_slot c1) = Inr c'" by (auto simp: rbind_Inr_iff)
  then show ?case using Cons.IH [OF Cons.prems(1), of "reserve_pending_slot c1"] levels_keptD [OF Cons.prems(1)] by simp
qed simp

lemma emit_pending_levels:
  assumes "levels_kept f" "emit_pending f ns c = Inr c'"
  shows "arities c' = arities c"
proof -
  from assms(2) obtain c1 where "emit_args f ns c = Inr c1" "c' = release_pending_slots c1 (length (cp_locals c))"
    by (auto simp: emit_pending_def rbind_Inr_iff)
  then show ?thesis using emit_args_levels [OF assms(1)] by simp
qed

lemma emit_forms_levels: "levels_kept f \<Longrightarrow> emit_forms f tail ps c = Inr c' \<Longrightarrow> arities c' = arities c"
proof (induction ps arbitrary: c rule: induct_list012)
  case (2 p)
  then show ?case using levels_keptD [OF "2.prems"(1)] by (cases p) simp
next
  case (3 p q ps)
  obtain line n where p: "p = (line, n)" by (cases p)
  with "3.prems" obtain c1 where "f False c n = Inr c1" "emit_forms f tail (q # ps) (emit c1 OP_POP line) = Inr c'" by (auto simp: rbind_Inr_iff)
  then show ?case using "3.IH"(2) [OF "3.prems"(1), of "emit c1 OP_POP line"] levels_keptD [OF "3.prems"(1)] by simp
qed simp

lemma emit_body_levels: "levels_kept f \<Longrightarrow> emit_body f tail line body c = Inr c' \<Longrightarrow> arities c' = arities c"
  by (auto simp: emit_body_def split: if_splits dest: emit_forms_levels)

lemma emit_and_levels: "levels_kept f \<Longrightarrow> emit_and f tail line ns c = Inr (ats, c') \<Longrightarrow> arities c' = arities c"
proof (induction ns arbitrary: c ats rule: induct_list012)
  case (2 n)
  then show ?case using levels_keptD [OF "2.prems"(1)] by (auto simp: rbind_Inr_iff)
next
  case (3 n k ns)
  from "3.prems"(2) obtain c1 a1 c2 ats' where "f False c n = Inr c1" "emit_jump c1 OP_JUMP_FALSE line = (a1, c2)"
      "emit_and f tail line (k # ns) c2 = Inr (ats', c')"
    by (fastforce simp: rbind_Inr_iff case_prod_beta intro: prod.collapse [symmetric])
  then show ?case using "3.IH"(2) [OF "3.prems"(1), of c2 ats'] levels_keptD [OF "3.prems"(1)] arities_results(3) by simp
qed simp

lemma emit_or_levels: "levels_kept f \<Longrightarrow> emit_or f line ns c = Inr (ats, c') \<Longrightarrow> arities c' = arities c"
proof (induction ns arbitrary: c ats rule: induct_list012)
  case (2 n)
  then show ?case using levels_keptD [OF "2.prems"(1)] by (auto simp: rbind_Inr_iff)
next
  case (3 n k ns)
  from "3.prems"(2) obtain c1 a1 c2 ats' where "f False c n = Inr c1" "emit_jump (emit c1 OP_DUP line) OP_JUMP_TRUE line = (a1, c2)"
      "emit_or f line (k # ns) (emit c2 OP_POP line) = Inr (ats', c')"
    by (fastforce simp: rbind_Inr_iff case_prod_beta intro: prod.collapse [symmetric])
  then show ?case using "3.IH"(2) [OF "3.prems"(1), of "emit c2 OP_POP line" ats'] levels_keptD [OF "3.prems"(1), of False c n c1]
      arities_results(3) [of "emit c1 OP_DUP line" OP_JUMP_TRUE line a1 c2] by simp
qed simp

lemma patch_all_levels: "patch_all target ats c = Inr c' \<Longrightarrow> arities c' = arities c"
  by (induction ats arbitrary: c) (auto simp: rbind_Inr_iff dest!: arities_results(4))

lemma lambda_prescan_levels: "lambda_prescan c names line = Inr c' \<Longrightarrow> arities c' = arities c"
  by (induction names arbitrary: c) (fastforce simp: rbind_Inr_iff dest: arities_results(5))+

lemma compile_params_levels: "compile_params c ps rest = Inr (n, c') \<Longrightarrow> arities c' = arities c"
  by (induction c ps rest arbitrary: n rule: compile_params.induct) (fastforce simp: rbind_Inr_iff dest: arities_results(5))+

lemma inline_call_levels:
  assumes "levels_kept f" "ir_emit_inline_call f tail c params defs body args line = Inr c'"
  shows "arities c' = arities c"
proof -
  from assms(2) obtain c1 c2 c3 where "emit_args f args (begin_scope c) = Inr c1"
      "lambda_prescan (claim_params (length (cp_locals c)) (take (length args) params) c1) defs line = Inr c2"
      "emit_body f tail line body c2 = Inr c3" "c' = end_scope c3 line"
    by (auto simp: ir_emit_inline_call_def rbind_Inr_iff)
  then show ?thesis using emit_args_levels [OF assms(1)] lambda_prescan_levels emit_body_levels [OF assms(1)] by (metis arities_set(3) arities_end_scope arities_claim_params)
qed

lemma emit_call_global_levels:
  assumes "levels_kept f" "emit_call_global e f tail c head args line = Inr c'"
  shows "arities c' = arities c"
proof -
  from assms(2) obtain ci c1 c2 where c: "add_const e c head = Inr (ci, c1)" "emit_pending f args c1 = Inr c2 \<or> f False c1 (args ! 0) = Inr c2"
      "arities c' = arities c2"
    by (cases "if \<not> tail \<and> length args \<in> {1, 2} then open_code e head (length args) else None"; cases "length args = 1")
      (fastforce simp: emit_call_global_def rbind_Inr_iff)+
  from c(2) have "arities c2 = arities c1" using emit_pending_levels [OF assms(1)] levels_keptD [OF assms(1)] by blast
  with c(3) arities_results(1) [OF c(1)] show ?thesis by simp
qed

lemma emit_call_levels:
  assumes "levels_kept f" "emit_call e f tail c head callee args line = Inr c'"
  shows "arities c' = arities c"
proof -
  have generic: "arities c' = arities c1" if "emit_call_generic f tail c1 callee args line = Inr c'" for c1
    using that emit_pending_levels [OF assms(1)] by (auto simp: emit_call_generic_def rbind_Inr_iff)
  have by_head: "arities c' = arities c" if "emit_call_by_head e f tail c head callee args line = Inr c'"
  proof -
    from that consider "emit_call_generic f tail c callee args line = Inr c'"
      | found c1 c2 where "resolve_upvalue c head = Inr (found, c1)" "emit_pending f args c1 = Inr c2" "arities c' = arities c2"
      | found c1 where "resolve_upvalue c head = Inr (found, c1)"
          "emit_call_global e f tail c1 head args line = Inr c' \<or> emit_call_generic f tail c1 callee args line = Inr c'"
      by (fastforce simp: emit_call_by_head_def rbind_Inr_iff split: if_splits)
    then show ?thesis
    proof cases
      case 1
      then show ?thesis by (rule generic)
    next
      case 2
      then show ?thesis using emit_pending_levels [OF assms(1)] arities_resolve by metis
    next
      case 3
      then show ?thesis using generic emit_call_global_levels [OF assms(1)] arities_resolve by metis
    qed
  qed
  from assms(2) consider "emit_call_by_head e f tail c head callee args line = Inr c'"
    | params defs body where "ir_emit_inline_call f tail c params defs body args line = Inr c'"
    by (auto simp: emit_call_def split: ir.splits if_splits)
  then show ?thesis using by_head inline_call_levels [OF assms(1)] by cases blast+
qed

section \<open>Nested procedures\<close>

lemma arities_init_compiler: "arities (init_compiler c self mutated) = 0 # arities c"
  by (simp add: arities_def init_compiler_def new_level_def chunk_new_def)

lemma arities_captures [simp]: "arities (emit_captures us line c) = arities c"
  by (induction us arbitrary: c) simp_all

lemma arities_reloads [simp]: "arities (emit_reloads slot n line c) = arities c"
  by (induction n arbitrary: slot c) simp_all

lemma emit_closure_levels:
  assumes "emit_closure e child line = Inr c'" "tl (arities child) = arities c"
  shows "arities c' = arities c"
proof -
  obtain ch c0 where leave: "leave_compiler e child = (ch, c0)" by fastforce
  have "cp_enclosing child \<noteq> []" using assms(2) by (auto simp: arities_def)
  then have c0: "arities c0 = arities c" using leave assms(2) by (cases "cp_enclosing child") (auto simp: leave_compiler_def Let_def arities_def)
  from assms(1) leave obtain ci c1 where "add_const e c0 ch = Inr (ci, c1)"
      "c' = emit_captures (lv_upvals (cp_level child)) line (emit_ab c1 OP_CLOSURE (word_of_nat ci) line)"
    by (auto simp: emit_closure_def rbind_Inr_iff)
  with arities_results(1) c0 show ?thesis by simp
qed

lemma arities_set_arity: "tl (arities (set_arity c n)) = tl (arities c)"
  by (simp add: arities_def set_arity_def set_chunk_def)

lemma emit_lambda_levels:
  assumes "levels_kept f" "emit_lambda e f self mutated c line params rest defs body = Inr c'"
  shows "arities c' = arities c"
proof -
  from assms(2) obtain arity child child1 child2 where ch: "compile_params (init_compiler c self mutated) params rest = Inr (arity, child)"
      "lambda_prescan (begin_scope (set_arity child arity)) defs line = Inr child1" "emit_body f True line body child1 = Inr child2"
      "emit_closure e child2 line = Inr c'"
    by (auto simp: emit_lambda_def rbind_Inr_iff)
  have "arities child2 = arities (set_arity child arity)"
    using emit_body_levels [OF assms(1) ch(3)] lambda_prescan_levels [OF ch(2)] by simp
  then have "tl (arities child2) = arities c"
    using arities_set_arity [of child arity] compile_params_levels [OF ch(1)] by (simp add: arities_init_compiler)
  with ch(4) show ?thesis by (rule emit_closure_levels)
qed

lemma arities_fold_loads: "arities (fold (\<lambda>i w. emit_ab w opc (word_of_nat i) line) is c) = arities c"
  by (induction "is" arbitrary: c) simp_all

lemma emit_named_let_levels:
  assumes "levels_kept f" "emit_named_let e f tail c line loop vars inits mutated defs body = Inr c'"
  shows "arities c' = arities c"
proof (cases "length (cp_locals c) + 2 * length inits + 2 \<ge> MAX_LOCALS")
  case True
  let ?argc = "length inits"
  obtain arity w i w1 w2 c1 c2 where w: "compile_params (init_compiler c V_FALSE False) vars None = Inr (arity, w)"
      "add_local (set_arity w arity) loop = Inr (i, w1)"
      "emit_lambda e f loop mutated (emit (mark_initialised w1) OP_VOID line) line vars None defs body = Inr w2"
      "emit_closure e (emit_ab (fold (\<lambda>i w. emit_ab w OP_LOAD_LOCAL (word_of_nat i) line) [0..<?argc]
         (emit_ab (emit_ab w2 OP_STORE_LOCAL (word_of_nat ?argc) line) OP_LOAD_LOCAL (word_of_nat ?argc) line)) OP_TAIL_CALL (word_of_nat ?argc) line) line = Inr c1"
      "emit_args f inits (reserve_pending_slot c1) = Inr c2" "arities c' = arities c2"
    using assms(2) True by (auto simp: emit_named_let_def Let_def rbind_Inr_iff)
  have "arities w2 = arities (set_arity w arity)"
    using emit_lambda_levels [OF assms(1) w(3)] arities_results(5) [OF w(2)] by simp
  then have "tl (arities w2) = arities c"
    using arities_set_arity [of w arity] compile_params_levels [OF w(1)] by (simp add: arities_init_compiler)
  then have "arities c1 = arities c" by (intro emit_closure_levels [OF w(4)]) (simp add: arities_fold_loads)
  with w(6) emit_args_levels [OF assms(1) w(5)] show ?thesis by simp
next
  case False
  obtain c1 slot c2 c3 where c: "emit_args f inits c = Inr c1" "add_local c1 loop = Inr (slot, c2)"
      "emit_lambda e f loop mutated (emit (mark_initialised c2) OP_VOID line) line vars None defs body = Inr c3" "arities c' = arities c3"
    using assms(2) False by (auto simp: emit_named_let_def Let_def rbind_Inr_iff split: if_splits)
  with emit_args_levels [OF assms(1) c(1)] arities_results(5) [OF c(2)] emit_lambda_levels [OF assms(1) c(3)] show ?thesis by simp
qed

section \<open>All nodes\<close>

lemma emit_if_levels:
  assumes "levels_kept f" "emit_node e f tail c (IR_IF line test thn els) = Inr c'"
  shows "arities c' = arities c"
proof -
  from assms(2) obtain c1 at1 c2 c3 at2 c4 c5 c6 where em: "f False c test = Inr c1" "emit_jump c1 OP_JUMP_FALSE line = (at1, c2)"
      "f tail c2 thn = Inr c3" "emit_jump c3 OP_JUMP line = (at2, c4)" "patch16 c4 at1 (chunk_pos c4) = Inr c5"
      "f tail c5 els = Inr c6" "patch16 c6 at2 (chunk_pos c6) = Inr c'"
    by (fastforce simp: emit_node_def rbind_Inr_iff patch_jump_def case_prod_beta intro: prod.collapse [symmetric])
  note fk = levels_keptD [OF assms(1)]
  show ?thesis
    using fk [OF em(1)] arities_results(3) [OF em(2)] fk [OF em(3)] arities_results(3) [OF em(4)] arities_results(4) [OF em(5)]
      fk [OF em(6)] arities_results(4) [OF em(7)] by simp
qed

lemma emit_and_node_levels:
  assumes "levels_kept f" "emit_node e f tail c (IR_AND line ns) = Inr c'"
  shows "arities c' = arities c"
proof (cases "ns = []")
  case False
  with assms(2) obtain ats c1 a c2 c3 where em: "emit_and f tail line ns c = Inr (ats, c1)" "emit_jump c1 OP_JUMP line = (a, c2)"
      "patch16 (emit c2 OP_FALSE line) a (chunk_pos c2 + 1) = Inr c3" "patch_all (chunk_pos c2) ats c3 = Inr c'"
    by (fastforce simp: emit_node_def rbind_Inr_iff patch_jump_def case_prod_beta intro: prod.collapse [symmetric])
  show ?thesis
    using emit_and_levels [OF assms(1) em(1)] arities_results(3) [OF em(2)] arities_results(4) [OF em(3)] patch_all_levels [OF em(4)] by simp
qed (use assms(2) in \<open>auto simp: emit_node_def\<close>)

lemma emit_or_node_levels:
  assumes "levels_kept f" "emit_node e f tail c (IR_OR line ns) = Inr c'"
  shows "arities c' = arities c"
proof (cases "ns = []")
  case False
  with assms(2) obtain ats c1 where em: "emit_or f line ns c = Inr (ats, c1)" "patch_all (chunk_pos c1) ats c1 = Inr c'"
    by (auto simp: emit_node_def rbind_Inr_iff)
  show ?thesis using emit_or_levels [OF assms(1) em(1)] patch_all_levels [OF em(2)] by simp
qed (use assms(2) in \<open>auto simp: emit_node_def\<close>)

lemma emit_node_levels:
  assumes "levels_kept f"
  shows "levels_kept (emit_node e f)"
  unfolding levels_kept_def
proof (intro allI impI)
  fix tail c n c'
  assume em: "emit_node e f tail c n = Inr c'"
  show "arities c' = arities c"
  proof (cases n)
    case (IR_CONST line v quoted)
    with em show ?thesis by (auto simp: emit_node_def dest: arities_results(2) split: option.splits if_splits)
  next
    case (IR_SET line name m)
    with em obtain c1 c2 where "f False c m = Inr c1" "emit_store e c1 name line = Inr c2" "c' = emit c2 OP_VOID line"
      by (auto simp: emit_node_def rbind_Inr_iff)
    then show ?thesis using levels_keptD [OF assms] arities_variables(1) by (simp add: emit_store_def)
  next
    case (IR_DEFINE line name m)
    with em obtain c1 where "f False c m = Inr c1" "emit_define_store e c1 name line = Inr c'" by (auto simp: emit_node_def rbind_Inr_iff)
    then show ?thesis using levels_keptD [OF assms] arities_variables(2) by simp
  qed (use em emit_if_levels [OF assms] emit_and_node_levels [OF assms] emit_or_node_levels [OF assms] in
      \<open>auto simp: emit_node_def emit_load_def dest: arities_variables emit_call_levels [OF assms] emit_lambda_levels [OF assms]
        emit_named_let_levels [OF assms] emit_forms_levels [OF assms]\<close>)
qed

lemma ir_emit_levels: "levels_kept (ir_emit d e)"
proof (induction d)
  case 0
  show ?case by (simp add: levels_kept_def check_c_stack_depth_def)
next
  case (Suc d)
  from emit_node_levels [OF this, of e] show ?case by (simp add: levels_kept_def check_c_stack_depth_def)
qed

end
