(* ===== verification/Compile_Top.thy ===== *)
theory Compile_Top
  imports Compile_Calls Emit_Levels
begin

text \<open>
  The compiler as a whole: every node is emitted correctly, the optimiser keeps a form within the covered
  fragment, and a compiled top-level form, run by the virtual machine, returns what the reference
  evaluation says.
\<close>

section \<open>All nodes\<close>

lemma compiled_cong:
  assumes "compiled c c' k emb ev" "k \<le> k'"
    "\<And>\<sigma> vs w. length vs = length (cp_locals c) \<Longrightarrow> ev' \<sigma> (visible (cp_locals c) vs) w = ev \<sigma> (visible (cp_locals c) vs) w"
  shows "compiled c c' k' emb ev'"
  using assms unfolding compiled_def simulates_def by fastforce

lemma head_is_global_visible:
  assumes "length vs = length ls"
  shows "head_is_global (sem_of \<sigma> e) (visible ls vs) head \<longleftrightarrow>
    vis_symbol (ce_rt e) head \<and> \<not> is_keyword_symbol (ce_rt e) head \<and> find_local ls head = None"
proof (cases "vis_symbol (ce_rt e) head")
  case True
  then have "local_index (visible ls vs) head = None \<longleftrightarrow> find_local ls head = None"
    using find_local_visible [OF assms symbol_not_false [OF True]] by (cases "find_local ls head") auto
  with True show ?thesis by (simp add: head_is_global_def)
qed (simp add: head_is_global_def)

lemma call_by_head_correct:
  assumes "\<And>n. correct e f n" "emit_call_by_head e f False c head callee args line = Inr c'"
    "ready c (1 + ir_need callee + need_list args)" "plain (ce_rt e) (depth_of c = 0) callee"
    "plain_list (ce_rt e) (depth_of c = 0) args" "length args \<le> 255"
  shows "cp_locals c' = cp_locals c \<and> compiled c c' (1 + ir_need callee + need_list args) (\<lambda>v. [v])
    (\<lambda>\<sigma>. eval_call (sem_of \<sigma> e) head (ir_eval (sem_of \<sigma> e) callee) (eval_args (sem_of \<sigma> e) args))"
proof (cases "vis_symbol (ce_rt e) head \<and> \<not> is_keyword_symbol (ce_rt e) head \<and> find_local (cp_locals c) head = None")
  case True
  have "cp_enclosing c = []" using assms(3) by (simp add: ready_def)
  with True assms(2) have em: "emit_call_global e f False c head args line = Inr c'"
    by (simp add: emit_call_by_head_def is_self_tail_call_def resolve_local_def resolve_upvalue_top)
  have sym: "vis_symbol (ce_rt e) head" using True by simp
  note g = global_call_correct [OF assms(1) em _ assms(5) sym assms(6)]
  have ready: "ready c (1 + need_list args)" by (rule ready_mono [OF assms(3)]) simp
  have "compiled c c' (1 + ir_need callee + need_list args) (\<lambda>v. [v])
    (\<lambda>\<sigma>. eval_call (sem_of \<sigma> e) head (ir_eval (sem_of \<sigma> e) callee) (eval_args (sem_of \<sigma> e) args))"
    by (rule compiled_cong [OF g(2) [OF ready]]) (use True in \<open>simp_all add: eval_call_def head_is_global_visible\<close>)
  with g(1) [OF ready] show ?thesis by simp
next
  case False
  with assms(2) have em: "emit_call_generic f False c callee args line = Inr c'"
    by (auto simp: emit_call_by_head_def is_self_tail_call_def resolve_local_def)
  note g = generic_call_correct [OF assms(1) em assms(3-6)]
  have "compiled c c' (1 + ir_need callee + need_list args) (\<lambda>v. [v])
    (\<lambda>\<sigma>. eval_call (sem_of \<sigma> e) head (ir_eval (sem_of \<sigma> e) callee) (eval_args (sem_of \<sigma> e) args))"
    by (rule compiled_cong [OF g(2)]) (use False in \<open>auto simp: eval_call_def head_is_global_visible\<close>)
  with g(1) show ?thesis by simp
qed

lemma call_node_correct:
  assumes "\<And>n. correct e f n"
  shows "correct e (emit_node e f) (IR_CALL line head callee args)"
proof (rule correctI)
  fix c c'
  assume em: "emit_node e f False c (IR_CALL line head callee args) = Inr c'" and ready: "ready c (ir_need (IR_CALL line head callee args))"
    and plain: "plain (ce_rt e) (depth_of c = 0) (IR_CALL line head callee args)"
  from ready have room: "length (cp_locals c) + length args < MAX_LOCALS" using need_list_length [of args] by (simp add: ready_def MAX_LOCALS_def)
  show "cp_locals c' = cp_locals c \<and> compiled c c' (ir_need (IR_CALL line head callee args)) (\<lambda>v. [v])
      (\<lambda>\<sigma>. ir_eval (sem_of \<sigma> e) (IR_CALL line head callee args))"
  proof (cases "is_lambda callee")
    case True
    then obtain l params rest defs body where callee: "callee = IR_LAMBDA l params rest defs body" by (cases callee) (auto simp: is_lambda_def)
    with em plain room have "ir_emit_inline_call f False c params [] body args line = Inr c'" "head = V_FALSE"
      by (auto simp: emit_node_def emit_call_def)
    moreover have "ready c (2 + need_forms body + need_list args)" by (rule ready_mono [OF ready]) (simp add: callee)
    ultimately show ?thesis using inline_call_correct [OF assms, of c params body args line c'] plain callee by simp
  next
    case False
    with em plain have em': "emit_call_by_head e f False c head callee args line = Inr c'" and
      pl: "plain (ce_rt e) (depth_of c = 0) callee" "plain_list (ce_rt e) (depth_of c = 0) args" "length args \<le> 255"
      by (cases callee; simp add: emit_node_def emit_call_def is_lambda_def)+
    have "ir_eval (sem_of \<sigma> e) (IR_CALL line head callee args) = eval_call (sem_of \<sigma> e) head (ir_eval (sem_of \<sigma> e) callee) (eval_args (sem_of \<sigma> e) args)" for \<sigma>
      using False by (cases callee) (simp_all add: is_lambda_def)
    with call_by_head_correct [OF assms em' _ pl] ready show ?thesis by simp
  qed
qed

lemma ir_emit_correct: "correct e (ir_emit d e) n"
proof (induction d arbitrary: n)
  case 0
  show ?case by (rule correctI) (simp add: check_c_stack_depth_def)
next
  case (Suc d)
  have "correct e (emit_node e (ir_emit d e)) n"
  proof (cases n)
    case (IR_LAMBDA x1 x2 x3 x4 x5)
    then show ?thesis by (intro correctI) simp
  next
    case (IR_NAMED_LET x1 x2 x3 x4 x5 x6 x7)
    then show ?thesis by (intro correctI) simp
  qed (simp_all add: Suc const_correct var_ref_correct if_correct seq_correct set_correct and_correct or_correct define_correct call_node_correct)
  then show ?case by (simp add: correct_def check_c_stack_depth_def)
qed

section \<open>The optimiser and the fragment\<close>

lemma plain_list_iff: "plain_list r lv ns \<longleftrightarrow> (\<forall>n \<in> set ns. plain r lv n)"
  by (induction ns) auto

lemma need_list_sum: "need_list ns = sum_list (map ir_need ns)"
  by (induction ns) auto

lemma optimize_andor_subset: "set (optimize_andor b ns) \<subseteq> set ns" "need_list (optimize_andor b ns) \<le> need_list ns"
proof -
  show "set (optimize_andor b ns) \<subseteq> set ns"
    by (induction b ns rule: optimize_andor.induct) (auto split: option.splits)
  show "need_list (optimize_andor b ns) \<le> need_list ns"
    by (induction b ns rule: optimize_andor.induct) (auto split: option.splits)
qed

lemma plain_call:
  "plain r lv (IR_CALL line head callee args) \<longleftrightarrow> length args \<le> 255 \<and>
     (if is_lambda callee
      then (\<exists>l params rest body. callee = IR_LAMBDA l params rest [] body \<and> head = V_FALSE \<and> length params = length args \<and>
              list_all (vis_symbol r) params \<and> plain_list r False args \<and> plain_forms r False body)
      else plain r lv callee \<and> plain_list r lv args)"
  by (cases callee) (auto simp: is_lambda_def)

declare plain.simps(9) [simp del]

lemma plain_not_lambda: "plain r lv n \<Longrightarrow> \<not> is_lambda n"
  by (cases n) (auto simp: is_lambda_def)

lemma plain_optimize: "plain r lv n \<Longrightarrow> plain r lv (ir_optimize n) \<and> ir_need (ir_optimize n) \<le> ir_need n"
proof (induction n arbitrary: lv rule: ir_optimize.induct)
  case (1 line test thn els)
  have IH: "plain r lv (ir_optimize test)" "ir_need (ir_optimize test) \<le> ir_need test" using 1(1) [of lv] "1.prems" by simp_all
  show ?case
  proof (cases "is_const (ir_optimize test)")
    case None
    then show ?thesis using IH 1(2) [OF refl None, of lv] 1(3) [OF refl None, of lv] "1.prems" by simp
  next
    case (Some v)
    then show ?thesis using 1(4) [OF refl Some, of lv] 1(5) [OF refl Some, of lv] "1.prems" by auto
  qed
next
  case (3 line ns)
  then have "plain r lv (ir_optimize n) \<and> ir_need (ir_optimize n) \<le> ir_need n" if "n \<in> set ns" for n using that by (auto simp: plain_list_iff)
  then have "plain_list r lv (map ir_optimize ns)" "need_list (map ir_optimize ns) \<le> need_list ns"
    by (auto simp: plain_list_iff need_list_sum intro!: sum_list_mono)
  then show ?case using optimize_andor_subset [of True "map ir_optimize ns"] by (auto simp: plain_list_iff)
next
  case (4 line ns)
  then have "plain r lv (ir_optimize n) \<and> ir_need (ir_optimize n) \<le> ir_need n" if "n \<in> set ns" for n using that by (auto simp: plain_list_iff)
  then have "plain_list r lv (map ir_optimize ns)" "need_list (map ir_optimize ns) \<le> need_list ns"
    by (auto simp: plain_list_iff need_list_sum intro!: sum_list_mono)
  then show ?case using optimize_andor_subset [of False "map ir_optimize ns"] by (auto simp: plain_list_iff)
next
  case (6 line head callee args)
  define lv' where "lv' = (if is_lambda callee then False else lv)"
  have args: "plain_list r lv' args" using "6.prems" by (auto simp: plain_call lv'_def split: if_splits)
  then have "plain r lv' (ir_optimize n) \<and> ir_need (ir_optimize n) \<le> ir_need n" if "n \<in> set args" for n
    using that 6(2) by (auto simp: plain_list_iff)
  then have args': "plain_list r lv' (map ir_optimize args)" "need_list (map ir_optimize args) \<le> need_list args"
    by (auto simp: plain_list_iff need_list_sum intro!: sum_list_mono)
  show ?case
  proof (cases "is_lambda callee")
    case True
    then show ?thesis using args' "6.prems" by (auto simp: plain_call lv'_def is_lambda_optimize)
  next
    case False
    then have "plain r lv (ir_optimize callee)" "ir_need (ir_optimize callee) \<le> ir_need callee" using 6(1) "6.prems" by (auto simp: plain_call)
    with False args' "6.prems" plain_not_lambda show ?thesis by (auto simp: plain_call lv'_def)
  qed
qed auto

text \<open>A constant pool gives \<open>#f\<close> for \<open>#f\<close> only.\<close>

lemma const_same_false: "const_same r V_FALSE v = Inr True \<Longrightarrow> v = V_FALSE" "const_same r v V_FALSE = Inr True \<Longrightarrow> v = V_FALSE"
proof -
  have "obj_at r V_FALSE = None" "\<not> vis_fixnum V_FALSE"
    by (simp_all add: obj_at_def vis_ptr_def vis_fixnum_def vtag_def V_FALSE_def tag_defs)
  then have "\<not> vis_number r V_FALSE" "obj_at r V_FALSE = None" by (simp_all add: vis_number_def)
  then show "const_same r V_FALSE v = Inr True \<Longrightarrow> v = V_FALSE" "const_same r v V_FALSE = Inr True \<Longrightarrow> v = V_FALSE"
    by (auto simp: const_same_def split: if_splits option.splits obj.splits)
qed

lemma pool_value_false: "pool_value r pool v = V_FALSE \<longleftrightarrow> v = V_FALSE"
proof (cases "const_search r v 0 pool")
  case (Inr found)
  then show ?thesis
    using const_search_spec [OF Inr] const_same_false [of r]
    by (auto simp: pool_value_def split: option.splits)
qed (simp add: pool_value_def)

lemma sem_of_keeps_false: "rep_keeps_false (sem_of \<sigma> e)"
  by (simp add: rep_keeps_false_def pool_value_false)

section \<open>Running a compiled form\<close>

lemma runs_loop:
  assumes "runs \<sigma> s s'"
  shows "\<exists>k. \<forall>m. vm_loop (k + m) (si_ext \<sigma>) (si_depth \<sigma>) h s = vm_loop m (si_ext \<sigma>) (si_depth \<sigma>) h s'"
  using assms unfolding runs_def
proof (induction rule: converse_rtranclp_induct)
  case base
  show ?case by (rule exI [of _ 0]) simp
next
  case (step s t)
  then obtain k where "\<forall>m. vm_loop (k + m) (si_ext \<sigma>) (si_depth \<sigma>) h t = vm_loop m (si_ext \<sigma>) (si_depth \<sigma>) h s'" by blast
  with step(1) show ?case by (intro exI [of _ "Suc k"]) (simp add: vm_next_def site_step_def)
qed

text \<open>The site of a top-level form: the frame that \<open>vm_run\<close> pushes for its closure.\<close>

definition top_site :: "vm_ext \<Rightarrow> val \<Rightarrow> chunk \<Rightarrow> vm \<Rightarrow> site" where
  "top_site x cl ck s = \<lparr>si_ext = x, si_chunk = ck, si_below = v_frames s,
     si_frame = \<lparr>cf_closure = cl, cf_ip = 0, cf_slots = length (v_stack s), cf_slot_count = 0, cf_has_callee_slot = True\<rparr>,
     si_handlers = v_handlers s, si_stack = v_stack s, si_depth = length (v_frames s)\<rparr>"

lemma top_site_simps [simp]:
  "si_ext (top_site x cl ck s) = x" "si_chunk (top_site x cl ck s) = ck" "si_below (top_site x cl ck s) = v_frames s"
  "cf_closure (si_frame (top_site x cl ck s)) = cl" "cf_slots (si_frame (top_site x cl ck s)) = length (v_stack s)"
  "cf_has_callee_slot (si_frame (top_site x cl ck s))"
  "si_handlers (top_site x cl ck s) = v_handlers s" "si_stack (top_site x cl ck s) = v_stack s" "si_depth (top_site x cl ck s) = length (v_frames s)"
  by (simp_all add: top_site_def)

lemma enter_top:
  assumes "vm_obj s cl = Some (OBcClosure ch ups)" "x_chunks x ch = Some ck" "ck_arity ck = 0" "length (v_frames s) < x_frames_max x"
  shows "vm_run n x cl 0 s = vm_loop n x (length (v_frames s)) (length (v_handlers s)) (here (top_site x cl ck s) s 0 [])"
  using assms by (simp add: vm_run_def as_closure_def push_frame_def vm_bind_args_def vm_check_arity_def set_top_frame_def here_def top_site_def Let_def)

lemma step_return:
  assumes "\<sigma> = top_site x cl ck s" "site_ok \<sigma> w" "code_in ck ip [op_byte OP_RETURN]" "v_frames s = [] \<or> v_stack s \<noteq> []"
  shows "\<exists>s'. site_step \<sigma> (here \<sigma> w ip [v]) = (Returned v, s') \<and> world s' = world w \<and> v_frames s' = v_frames s \<and>
    v_stack s' = (if v_frames s = [] then [] else butlast (v_stack s)) \<and> v_handlers s' = v_handlers s"
proof -
  have "code_in (si_chunk \<sigma>) ip [op_byte OP_RETURN]" using assms(1,3) by simp
  from site_step_op [OF assms(2) this] obtain u where step: "site_step \<sigma> (here \<sigma> w ip [v]) = exec_op OP_RETURN (si_ext \<sigma>) (si_depth \<sigma>) u (here \<sigma> w (ip + 1) [v])"
    by metis
  have open_w: "v_open w = []" using assms(2) by (simp add: site_ok_def)
  have "POP (return_value d) (here \<sigma> w (ip + 1) [v]) = return_value d v (here \<sigma> w (ip + 1) [])" for d
    using pop_here [of "return_value d" \<sigma> w "ip + 1" "[]" v] by simp
  with step open_w assms(1,4) show ?thesis
    by (auto simp: do_op_return_def return_value_def pop_frame_def vm_close_upvalues_def here_def world_def butlast_conv_take Let_def)
qed

lemma ready_root: "k < 256 \<Longrightarrow> ready root_compiler k" "arities root_compiler = [0]" "code_of root_compiler = []" "cp_locals root_compiler = []"
    "depth_of root_compiler = 0" "pool_of root_compiler = []"
  by (simp_all add: ready_def root_compiler_def new_level_def chunk_new_def arities_def)

text \<open>What is known of the chunk of a compiled top-level form.\<close>

lemma compiler_compile_shape:
  assumes "compiler_compile d e root_compiler n line = Inr c" "lowered n" "plain (ce_rt e) True n" "ir_need n < 256"
  obtains bs c1 where "ck_code (cp_chunk c) = bs @ [op_byte OP_RETURN]" "ck_constants (cp_chunk c) = pool_of c1" "ck_arity (cp_chunk c) = 0"
    "chunk_pos c1 = length bs"
    "\<And>\<sigma>. running \<sigma> root_compiler bs c1 \<Longrightarrow> simulates \<sigma> [] 0 (length bs) (ir_need n) (\<lambda>v. [v]) (ir_eval (sem_of \<sigma> e) n)"
proof -
  from assms(1) obtain c1 where c1: "ir_emit d e False root_compiler (ir_optimize n) = Inr c1"
      "c = set_chunk c1 ((snd (chunk_emit (cp_chunk c1) (op_byte OP_RETURN) line))\<lparr>ck_upval_count := 0\<rparr>)"
    by (auto simp: compiler_compile_def rbind_Inr_iff)
  note opt = plain_optimize [OF assms(3)]
  have "ready root_compiler (ir_need (ir_optimize n))" using opt assms(4) by (intro ready_root) simp
  then obtain bs where bs: "emits root_compiler bs c1" "\<And>\<sigma>. running \<sigma> root_compiler bs c1 \<Longrightarrow>
      simulates \<sigma> [] 0 (chunk_pos c1) (ir_need (ir_optimize n)) (\<lambda>v. [v]) (ir_eval (sem_of \<sigma> e) (ir_optimize n))"
    by (rule correctD [OF ir_emit_correct c1(1)]) (use opt ready_root in auto)
  have code: "code_of c1 = bs" using bs(1) by (simp add: emits_def ready_root)
  show ?thesis
  proof (rule that [of bs c1])
    show "ck_code (cp_chunk c) = bs @ [op_byte OP_RETURN]" "ck_constants (cp_chunk c) = pool_of c1"
      using code by (simp_all add: c1(2))
    have "arities c1 = [0]" using levels_keptD [OF ir_emit_levels c1(1)] by (simp add: ready_root)
    then show "ck_arity (cp_chunk c) = 0" by (simp add: c1(2) arities_def)
    show "chunk_pos c1 = length bs" using code by simp
    fix \<sigma>
    assume "running \<sigma> root_compiler bs c1"
    from bs(2) [OF this] show "simulates \<sigma> [] 0 (length bs) (ir_need n) (\<lambda>v. [v]) (ir_eval (sem_of \<sigma> e) n)"
      using opt code ir_optimize_correct [OF sem_of_keeps_false assms(2)] by (fastforce simp: simulates_def)
  qed
qed

text \<open>The reference evaluation of a form, with the constants of its chunk and the environment it is compiled for.\<close>

definition form_sem :: "vm_ext \<Rightarrow> comp_env \<Rightarrow> chunk \<Rightarrow> sem" where
  "form_sem x e ck = \<lparr>m_vm = x, m_rt = ce_rt e,
     m_env = (if ck_target_env ck = V_VOID then x_global_env x else ck_target_env ck), m_rep = pool_value (ce_rt e) (ck_constants ck)\<rparr>"

lemma form_sem_top: "sem_of (top_site x cl ck s) e = form_sem x e ck"
  by (simp add: sem_of_def form_sem_def site_env_def)

text \<open>The assumptions on the machine in which a form is run.\<close>

definition can_run :: "vm_ext \<Rightarrow> chunk \<Rightarrow> val \<Rightarrow> nat \<Rightarrow> vm \<Rightarrow> bool" where
  "can_run x ck cl k s \<longleftrightarrow> (\<exists>ch ups. vm_obj s cl = Some (OBcClosure ch ups) \<and> x_chunks x ch = Some ck) \<and> code_len ck \<le> 0xFFFF \<and>
     v_open s = [] \<and> foreign_ok x cl \<and> prims_ok x \<and> length (v_stack s) + k \<le> x_stack_max x \<and> length (v_frames s) < x_frames_max x \<and>
     (v_frames s = [] \<or> v_stack s \<noteq> [])"

text \<open>
  C1: The compiler is correct. Take a lowered top-level form of the covered kinds - constants, variables,
  \<open>if\<close>, \<open>begin\<close>, \<open>set!\<close>, \<open>and\<close>, \<open>or\<close>, \<open>define\<close>, \<open>let\<close>, and calls of variables, of primitives and of computed
  procedures, nested in any way -, optimise and compile it, and run its code with \<open>vm_run\<close>. If the reference
  evaluation of the form gives a value, then the machine returns this value after finitely many
  instructions, with the globals, heap and output that the evaluation gives and the caller's frames, stack
  and handlers as before. If the evaluation raises an error, the machine raises the same error with the same
  effects before it. Calls of procedures that are themselves compiled closures are the one case in which the
  evaluation gives nothing to compare with. The form uses fewer than 256 slots, its code is shorter than
  64 KB, and what the machine calls does not touch the machine's own stacks.
\<close>

theorem compile_correct:
  assumes "compiler_compile d e root_compiler n line = Inr c" "lowered n" "plain (ce_rt e) True n" "ir_need n < 256"
    "can_run x (cp_chunk c) cl (ir_need n) s" "ir_eval (form_sem x e (cp_chunk c)) n [] s = (r, env', w')" "r \<noteq> Inl Undefined"
  shows "case r of
      Inr v \<Rightarrow> \<exists>k s'. vm_run k x cl 0 s = (Returned v, s') \<and> world s' = world w' \<and> v_frames s' = v_frames s \<and>
        v_stack s' = (if v_frames s = [] then [] else butlast (v_stack s)) \<and> v_handlers s' = v_handlers s
    | Inl er \<Rightarrow> \<exists>k s'. vm_run k x cl 0 s = (Raised er, s') \<and> world s' = world w'"
proof -
  let ?ck = "cp_chunk c" let ?\<sigma> = "top_site x cl ?ck s"
  obtain bs c1 where sh: "ck_code ?ck = bs @ [op_byte OP_RETURN]" "ck_constants ?ck = pool_of c1" "ck_arity ?ck = 0" "chunk_pos c1 = length bs"
      "\<And>\<sigma>. running \<sigma> root_compiler bs c1 \<Longrightarrow> simulates \<sigma> [] 0 (length bs) (ir_need n) (\<lambda>v. [v]) (ir_eval (sem_of \<sigma> e) n)"
    by (rule compiler_compile_shape [OF assms(1-4)]) (rule that)
  from assms(5) obtain ch ups where can: "vm_obj s cl = Some (OBcClosure ch ups)" "x_chunks x ch = Some ?ck" "code_len ?ck \<le> 0xFFFF"
      "v_open s = []" "foreign_ok x cl" "prims_ok x" "length (v_stack s) + ir_need n \<le> x_stack_max x" "length (v_frames s) < x_frames_max x"
      "v_frames s = [] \<or> v_stack s \<noteq> []" unfolding can_run_def by blast
  have ok: "site_ok ?\<sigma> s" using can by (simp add: site_ok_def)
  have "running ?\<sigma> root_compiler bs c1" using can sh(1,2) by (simp add: running_def code_in_def ready_root)
  from simulatesD [OF sh(5) [OF this] ok] can(7) assms(6)
  have run: "yields ?\<sigma> (here ?\<sigma> s 0 []) r (good ?\<sigma> [] (hidden [] []) (length bs) (\<lambda>v. [v]) env' w') w'"
    by (simp add: form_sem_top visible_def)
  note start = enter_top [OF can(1,2) sh(3) can(8)]
  have loop: "\<exists>k. vm_run k x cl 0 s = (st, s2)" if "runs ?\<sigma> (here ?\<sigma> s 0 []) s1" "site_step ?\<sigma> s1 = (st, s2)"
    "st \<noteq> Running" "v_handlers s2 = v_handlers s" for st s1 s2
  proof -
    from runs_loop [OF that(1), of "length (v_handlers s)"] obtain k where
      k: "\<forall>m. vm_loop (k + m) x (length (v_frames s)) (length (v_handlers s)) (here ?\<sigma> s 0 []) = vm_loop m x (length (v_frames s)) (length (v_handlers s)) s1"
      by auto
    have "vm_loop 1 x (length (v_frames s)) (length (v_handlers s)) s1 = (st, s2)"
      using that(2-4) by (cases st) (simp_all add: vm_next_def site_step_def)
    then have "vm_run (k + 1) x cl 0 s = (st, s2)" using k by (simp only: start)
    then show ?thesis by blast
  qed
  show ?thesis
  proof (cases r)
    case (Inl er)
    with run assms(7) obtain s1 s2 where "runs ?\<sigma> (here ?\<sigma> s 0 []) s1" "site_step ?\<sigma> s1 = (Raised er, s2)" "world s2 = world w'"
        "v_handlers s2 = v_handlers s" by (auto simp: yields_def)
    with loop [of s1 "Raised er" s2] Inl show ?thesis by auto
  next
    case (Inr v)
    with run obtain s1 where s1: "runs ?\<sigma> (here ?\<sigma> s 0 []) s1" "site_ok ?\<sigma> w'" "s1 = here ?\<sigma> w' (length bs) [v]"
      by (auto simp: yields_def good_def)
    have "code_in ?ck (length bs) [op_byte OP_RETURN]" by (simp add: sh(1) nth_append)
    from step_return [OF refl s1(2) this can(9), of v] obtain s2 where "site_step ?\<sigma> s1 = (Returned v, s2)" "world s2 = world w'"
        "v_frames s2 = v_frames s" "v_stack s2 = (if v_frames s = [] then [] else butlast (v_stack s))" "v_handlers s2 = v_handlers s"
      unfolding s1(3) by blast
    moreover from this loop [OF s1(1), of "Returned v" s2] obtain k where "vm_run k x cl 0 s = (Returned v, s2)" by auto
    ultimately show ?thesis unfolding Inr sum.case by blast
  qed
qed

text \<open>\<open>(let ((y '())) (if #t y 1))\<close>, with the symbol \<open>y\<close> at address 48, compiled and run at top level.\<close>

definition sample_comp :: comp_env where
  "sample_comp = \<lparr>ce_rt = \<lparr>heap = [48 \<mapsto> OSymbol [121] 0], stack_left = 64, sx_equal = (\<lambda>_ _. False), mpz_hex = (\<lambda>_. [])\<rparr>,
     ce_symbol = (\<lambda>_. 0), ce_chunk_addr = (\<lambda>n. word_of_nat (128 + 16 * n))\<rparr>"

definition sample_form :: ir where
  "sample_form = IR_IF 1 (IR_CONST 1 V_TRUE False) (IR_CALL 1 V_FALSE (IR_LAMBDA 1 [48] None [] [(1, IR_VAR_REF 1 48)]) [IR_CONST 1 V_NIL False])
     (IR_CONST 1 (vfix 1) False)"

lemma sample_compiles:
  "\<exists>c. compiler_compile 2 sample_comp root_compiler sample_form 1 = Inr c \<and> code_len (cp_chunk c) = 6"
proof -
  let ?c1 = "reserve_pending_slot (emit (begin_scope root_compiler) OP_NIL 1)"
  let ?c2 = "claim_params 0 [48] ?c1"
  let ?c3 = "emit_ab ?c2 OP_LOAD_LOCAL 0 1"
  have nil: "emit_immediate V_NIL = Some OP_NIL" by (simp add: emit_immediate_def V_TRUE_def V_FALSE_def V_NIL_def)
  have locals1: "cp_locals ?c1 = [] @ [pending 1]" by (simp add: ready_root MAX_LOCALS_def)
  from claim_params_eq [OF this, of "[48]" ?c2] obtain q where c2: "code_of ?c2 = [op_byte OP_NIL]" "depth_of ?c2 = 1" "cp_locals ?c2 = [q]"
      "lo_name q = 48" "lo_depth q = 1" "\<not> lo_captured q" by (auto simp: ready_root)
  have end_scope_code: "code_of (end_scope ?c3 1) = code_of ?c3 @ [op_byte OP_SLIDE, 1]"
    using end_scope_eq(1) [of ?c3 "[]" "[q]" 1] c2 by simp
  have opt: "ir_optimize sample_form = IR_CALL 1 V_FALSE (IR_LAMBDA 1 [48] None [] [(1, IR_VAR_REF 1 48)]) [IR_CONST 1 V_NIL False]"
    by (simp add: sample_form_def is_const_def V_TRUE_def V_FALSE_def)
  have "find_local [q] 48 = Some 0" using find_local_snoc [of "[]" q 48] c2(4) by simp
  then have load: "emit_load sample_comp ?c2 48 1 = Inr ?c3" using c2(3) by (simp add: emit_load_def emit_var_def resolve_local_def)
  have "ir_emit 2 sample_comp False root_compiler (ir_optimize sample_form) = Inr (end_scope ?c3 1)"
    unfolding opt numeral_2_eq_2 using nil load
    by (simp add: check_c_stack_depth_def emit_node_def emit_call_def ready_root MAX_LOCALS_def ir_emit_inline_call_def emit_body_def del: claim_params.simps)
  then show ?thesis using end_scope_code c2(1) by (simp add: compiler_compile_def)
qed

definition sample_machine :: "chunk \<Rightarrow> vm_ext" where
  "sample_machine ck = sample_ext\<lparr>x_chunks := [16 \<mapsto> ck], x_addr := (\<lambda>n. word_of_nat (64 + 16 * (n mod 64))),
     x_prim := (\<lambda>p as s. case as of [a, b] \<Rightarrow>
       (case vm_alloc (sample_ext\<lparr>x_addr := (\<lambda>n. word_of_nat (64 + 16 * (n mod 64)))\<rparr>) (OPair a b) s of (v, s') \<Rightarrow> (Inr v, s')) | _ \<Rightarrow> (Inl (Raise p), s))\<rparr>"

lemma sample_foreign: "foreign_ok (sample_machine ck) 32" "prims_ok (sample_machine ck)"
proof -
  have fresh: "(word_of_nat (64 + 16 * (n mod 64)) :: val) \<noteq> 32" for n
  proof -
    have "n mod 64 < 64" by simp
    then have "unat (word_of_nat (64 + 16 * (n mod 64)) :: val) = 64 + 16 * (n mod 64)" by (simp add: unat_of_nat del: of_nat_add of_nat_mult)
    then have "unat (word_of_nat (64 + 16 * (n mod 64)) :: val) \<noteq> unat (32 :: val)" by simp
    then show ?thesis by metis
  qed
  show "foreign_ok (sample_machine ck) 32"
    using fresh by (auto simp: foreign_ok_def blind_def sample_machine_def sample_ext_def vm_alloc_def Let_def split: list.splits)
  show "prims_ok (sample_machine ck)"
    by (auto simp: prims_ok_def sample_machine_def sample_ext_def vm_alloc_def Let_def)
qed

theorem compile_correct_witness:
  "\<exists>c k s'. compiler_compile 2 sample_comp root_compiler sample_form 1 = Inr c \<and>
     vm_run k (sample_machine (cp_chunk c)) 32 0 (empty_vm\<lparr>v_heap := [32 \<mapsto> OBcClosure 16 []]\<rparr>) = (Returned V_NIL, s') \<and> v_stack s' = []"
proof -
  obtain c where c: "compiler_compile 2 sample_comp root_compiler sample_form 1 = Inr c" "code_len (cp_chunk c) = 6"
    using sample_compiles by blast
  let ?x = "sample_machine (cp_chunk c)" and ?s = "empty_vm\<lparr>v_heap := [32 \<mapsto> OBcClosure 16 []]\<rparr>"
  have "lowered sample_form" "plain (ce_rt sample_comp) True sample_form" "ir_need sample_form < 256"
    by (simp_all add: sample_form_def is_lambda_def plain_call vis_symbol_def obj_at_def vis_ptr_def vtag_def tag_defs sample_comp_def)
  moreover have "can_run ?x (cp_chunk c) 32 (ir_need sample_form) ?s"
    using sample_foreign [of "cp_chunk c"] c(2)
    by (auto simp: can_run_def sample_form_def vm_obj_def vis_ptr_def vtag_def tag_defs empty_vm_def sample_machine_def sample_ext_def)
  moreover have "ir_eval (form_sem ?x sample_comp (cp_chunk c)) sample_form [] ?s = (Inr V_NIL, [], ?s)"
    by (simp add: sample_form_def ebind_def eret_def with_locals_def const_value_def emit_immediate_def variable_value_def
        local_index_def V_FALSE_def V_TRUE_def V_NIL_def)
  ultimately show ?thesis using compile_correct [OF c(1), of ?x 32 ?s "Inr V_NIL" "[]" ?s] c(1) by (auto simp: empty_vm_def)
qed

end
