(* ===== verification/Channel.thy ===== *)
theory Channel
  imports Curry_Value
begin

text \<open>
  Channels between threads (\<open>src/src/channel.c\<close>) and their primitives (\<open>src/src/builtins_curry.c\<close>): a ring
  buffer under one mutex, with the condition variables \<open>not_full\<close> and \<open>not_empty\<close>. Everything a thread does
  between taking the mutex and releasing it, or waiting, is one \<open>section\<close>; threads interleave only between
  sections. The indices are of type \<open>uint32_t\<close> in the code and stay below the capacity, so they are
  natural numbers here. The slots of a new buffer are 0; none is read before it is written.
\<close>

section \<open>State\<close>

record channel =
  ch_buf :: "val list"
  ch_head :: nat
  ch_tail :: nat
  ch_count :: nat
  ch_cap :: nat
  ch_closed :: bool
  ch_waiting_send :: bool
  ch_waiting_recv :: bool

text \<open>The last two fields are the bits \<open>CH_SYNC_WAITING_SEND\<close> and \<open>CH_SYNC_WAITING_RECV\<close> of the header's flags.\<close>

definition channel_make :: "u32 \<Rightarrow> channel" where
  "channel_make cap = \<lparr>ch_buf = replicate (if cap = 0 then 1 else unat cap) 0, ch_head = 0, ch_tail = 0, ch_count = 0,
     ch_cap = unat cap, ch_closed = False, ch_waiting_send = False, ch_waiting_recv = False\<rparr>"

definition prim_make_channel :: "val list \<Rightarrow> channel res" where
  "prim_make_channel av = (case av of
     [v] \<Rightarrow> if \<not> vis_fixnum v then Inl (Raise ''make-channel: capacity must be an exact integer'')
            else if vunfix v < 0 then Inl (Raise ''make-channel: capacity must be >= 0'')
            else Inr (channel_make (word_of_int (vunfix v)))
   | _ \<Rightarrow> Inr (channel_make 0))"

section \<open>Sections\<close>

text \<open>
  What a thread is doing: nothing, waiting for a condition variable inside a loop of one of the four
  blocking branches (asleep until it is woken, awake until it has the mutex again and re-evaluates the loop's
  condition), or back from an operation with its result.
\<close>

datatype cv = Not_Full | Not_Empty

datatype wake = Signal cv | Broadcast cv

datatype thr = Idle | Finished "val res"
  | Send_Asleep val | Send_Awake val | Recv_Asleep | Recv_Awake
  | Sync_Send_Asleep | Sync_Send_Awake | Sync_Recv_Asleep | Sync_Recv_Awake

text \<open>The ghost field \<open>sec_event\<close> records that a value entered or left the channel.\<close>

datatype chan_event = Sent val | Received val

record section_result =
  sec_thr :: thr
  sec_ch :: channel
  sec_wakes :: "wake list"
  sec_event :: "chan_event option"

definition returns :: "val res \<Rightarrow> channel \<Rightarrow> section_result" where
  "returns r ch = \<lparr>sec_thr = Finished r, sec_ch = ch, sec_wakes = [], sec_event = None\<rparr>"

definition waits :: "thr \<Rightarrow> channel \<Rightarrow> section_result" where
  "waits t ch = \<lparr>sec_thr = t, sec_ch = ch, sec_wakes = [], sec_event = None\<rparr>"

definition enqueue :: "val \<Rightarrow> channel \<Rightarrow> channel" where
  "enqueue v ch = ch\<lparr>ch_buf := (ch_buf ch)[ch_tail ch := v], ch_tail := (ch_tail ch + 1) mod ch_cap ch, ch_count := ch_count ch + 1\<rparr>"

definition front :: "channel \<Rightarrow> val" where
  "front ch = ch_buf ch ! ch_head ch"

definition dequeue :: "channel \<Rightarrow> channel" where
  "dequeue ch = ch\<lparr>ch_head := (ch_head ch + 1) mod ch_cap ch, ch_count := ch_count ch - 1\<rparr>"

text \<open>The loop of a send into a buffer and what follows it.\<close>

definition send_loop :: "val \<Rightarrow> channel \<Rightarrow> section_result" where
  "send_loop v ch =
     (if ch_count ch = ch_cap ch \<and> \<not> ch_closed ch then waits (Send_Asleep v) ch
      else if ch_closed ch then returns (Inl (Raise ''channel-send!: channel closed while waiting'')) ch
      else \<lparr>sec_thr = Finished (Inr V_VOID), sec_ch = enqueue v ch, sec_wakes = [Signal Not_Empty], sec_event = Some (Sent v)\<rparr>)"

text \<open>The loop of a sender without buffer: until a receiver has cleared the flag.\<close>

definition sync_send_loop :: "channel \<Rightarrow> section_result" where
  "sync_send_loop ch =
     (if ch_waiting_send ch \<and> \<not> ch_closed ch then waits Sync_Send_Asleep ch else returns (Inr V_VOID) ch)"

definition channel_send :: "val \<Rightarrow> channel \<Rightarrow> section_result" where
  "channel_send v ch =
     (if ch_closed ch then returns (Inl (Raise ''channel-send!: channel is closed'')) ch
      else if ch_cap ch = 0
      then (sync_send_loop (ch\<lparr>ch_buf := (ch_buf ch)[0 := v], ch_waiting_send := True\<rparr>))
             \<lparr>sec_wakes := [Signal Not_Empty], sec_event := Some (Sent v)\<rparr>
      else send_loop v ch)"

definition recv_loop :: "channel \<Rightarrow> section_result" where
  "recv_loop ch =
     (if ch_count ch = 0 \<and> \<not> ch_closed ch then waits Recv_Asleep ch
      else if ch_count ch = 0 then returns (Inl (Raise ''channel-recv!: channel closed and empty'')) ch
      else \<lparr>sec_thr = Finished (Inr (front ch)), sec_ch = dequeue ch, sec_wakes = [Signal Not_Full], sec_event = Some (Received (front ch))\<rparr>)"

definition sync_recv_loop :: "channel \<Rightarrow> section_result" where
  "sync_recv_loop ch =
     (if \<not> ch_waiting_send ch \<and> \<not> ch_closed ch then waits Sync_Recv_Asleep ch
      else if ch_closed ch \<and> \<not> ch_waiting_send ch
      then returns (Inl (Raise ''channel-recv!: channel closed with no sender'')) (ch\<lparr>ch_waiting_recv := False\<rparr>)
      else \<lparr>sec_thr = Finished (Inr (ch_buf ch ! 0)), sec_ch = ch\<lparr>ch_waiting_send := False, ch_waiting_recv := False\<rparr>,
            sec_wakes = [Broadcast Not_Full], sec_event = Some (Received (ch_buf ch ! 0))\<rparr>)"

definition channel_recv :: "channel \<Rightarrow> section_result" where
  "channel_recv ch =
     (if ch_cap ch = 0
      then let s = sync_recv_loop (ch\<lparr>ch_waiting_recv := True\<rparr>) in s\<lparr>sec_wakes := Signal Not_Full # sec_wakes s\<rparr>
      else recv_loop ch)"

definition channel_close :: "channel \<Rightarrow> section_result" where
  "channel_close ch = \<lparr>sec_thr = Finished (Inr V_VOID), sec_ch = ch\<lparr>ch_closed := True\<rparr>,
     sec_wakes = [Broadcast Not_Full, Broadcast Not_Empty], sec_event = None\<rparr>"

definition channel_closed :: "channel \<Rightarrow> section_result" where
  "channel_closed ch = returns (Inr (if ch_closed ch then V_TRUE else V_FALSE)) ch"

definition channel_try_send :: "val \<Rightarrow> channel \<Rightarrow> section_result" where
  "channel_try_send v ch =
     (if \<not> ch_closed ch \<and> ch_cap ch > 0 \<and> ch_count ch < ch_cap ch
      then \<lparr>sec_thr = Finished (Inr V_VOID), sec_ch = enqueue v ch, sec_wakes = [Signal Not_Empty], sec_event = Some (Sent v)\<rparr>
      else returns (Inr V_UNDEF) ch)"

definition channel_try_recv :: "channel \<Rightarrow> section_result" where
  "channel_try_recv ch =
     (if ch_cap ch > 0 \<and> ch_count ch > 0
      then \<lparr>sec_thr = Finished (Inr (front ch)), sec_ch = dequeue ch, sec_wakes = [Signal Not_Full], sec_event = Some (Received (front ch))\<rparr>
      else returns (Inr V_UNDEF) ch)"

datatype chan_op = Op_Send val | Op_Recv | Op_Close | Op_Closed | Op_Try_Send val | Op_Try_Recv

fun begin_op :: "chan_op \<Rightarrow> channel \<Rightarrow> section_result" where
  "begin_op (Op_Send v) ch = channel_send v ch"
| "begin_op Op_Recv ch = channel_recv ch"
| "begin_op Op_Close ch = channel_close ch"
| "begin_op Op_Closed ch = channel_closed ch"
| "begin_op (Op_Try_Send v) ch = channel_try_send v ch"
| "begin_op Op_Try_Recv ch = channel_try_recv ch"

fun op_name :: "chan_op \<Rightarrow> string" where
  "op_name (Op_Send _) = ''channel-send!''"
| "op_name Op_Recv = ''channel-recv!''"
| "op_name Op_Close = ''channel-close!''"
| "op_name Op_Closed = ''channel-closed?''"
| "op_name (Op_Try_Send _) = ''channel-try-send!''"
| "op_name Op_Try_Recv = ''channel-try-recv!''"

text \<open>Every operation first tests that its argument is a channel.\<close>

definition checked_op :: "chan_op \<Rightarrow> channel option \<Rightarrow> section_result res" where
  "checked_op op cv = (case cv of None \<Rightarrow> Inl (Raise (op_name op @ '': not a channel'')) | Some ch \<Rightarrow> Inr (begin_op op ch))"

text \<open>A thread that was woken continues in its loop; the others have nothing to continue.\<close>

fun resume_op :: "thr \<Rightarrow> channel \<Rightarrow> section_result option" where
  "resume_op (Send_Awake v) ch = Some (send_loop v ch)"
| "resume_op Recv_Awake ch = Some (recv_loop ch)"
| "resume_op Sync_Send_Awake ch = Some (sync_send_loop ch)"
| "resume_op Sync_Recv_Awake ch = Some (sync_recv_loop ch)"
| "resume_op t ch = None"

section \<open>Condition variables\<close>

fun asleep_on :: "cv \<Rightarrow> thr \<Rightarrow> bool" where
  "asleep_on Not_Full (Send_Asleep v) \<longleftrightarrow> True"
| "asleep_on Not_Full Sync_Send_Asleep \<longleftrightarrow> True"
| "asleep_on Not_Empty Recv_Asleep \<longleftrightarrow> True"
| "asleep_on Not_Empty Sync_Recv_Asleep \<longleftrightarrow> True"
| "asleep_on c t \<longleftrightarrow> False"

fun awaken :: "thr \<Rightarrow> thr" where
  "awaken (Send_Asleep v) = Send_Awake v"
| "awaken Sync_Send_Asleep = Sync_Send_Awake"
| "awaken Recv_Asleep = Recv_Awake"
| "awaken Sync_Recv_Asleep = Sync_Recv_Awake"
| "awaken t = t"

text \<open>\<open>pthread_cond_signal\<close> wakes one of the waiting threads, which one is up to the system (\<open>k\<close>).\<close>

definition sleepers :: "cv \<Rightarrow> thr list \<Rightarrow> nat list" where
  "sleepers c ts = filter (\<lambda>i. asleep_on c (ts ! i)) [0..<length ts]"

fun wake_threads :: "nat \<Rightarrow> wake \<Rightarrow> thr list \<Rightarrow> thr list" where
  "wake_threads k (Signal c) ts =
     (if sleepers c ts = [] then ts
      else let i = sleepers c ts ! (k mod length (sleepers c ts)) in ts[i := awaken (ts ! i)])"
| "wake_threads k (Broadcast c) ts = map (\<lambda>t. if asleep_on c t then awaken t else t) ts"

section \<open>Threads on one channel\<close>

record chan_sys =
  cs_ch :: channel
  cs_threads :: "thr list"

definition after_section :: "nat \<Rightarrow> nat \<Rightarrow> section_result \<Rightarrow> chan_sys \<Rightarrow> chan_sys" where
  "after_section k i sec s = \<lparr>cs_ch = sec_ch sec, cs_threads = (fold (wake_threads k) (sec_wakes sec) (cs_threads s))[i := sec_thr sec]\<rparr>"

definition can_start :: "thr \<Rightarrow> bool" where
  "can_start t \<longleftrightarrow> (case t of Idle \<Rightarrow> True | Finished _ \<Rightarrow> True | _ \<Rightarrow> False)"

text \<open>
  The steps of the system: a thread begins an operation, a woken thread gets the mutex and runs on, or a
  thread wakes up without a reason, which \<open>pthread_cond_wait\<close> may do.
\<close>

inductive chan_step :: "chan_sys \<Rightarrow> chan_event option \<Rightarrow> chan_sys \<Rightarrow> bool" where
  start: "i < length (cs_threads s) \<Longrightarrow> can_start (cs_threads s ! i) \<Longrightarrow> sec = begin_op op (cs_ch s) \<Longrightarrow>
    chan_step s (sec_event sec) (after_section k i sec s)"
| resume: "i < length (cs_threads s) \<Longrightarrow> resume_op (cs_threads s ! i) (cs_ch s) = Some sec \<Longrightarrow>
    chan_step s (sec_event sec) (after_section k i sec s)"
| spurious: "i < length (cs_threads s) \<Longrightarrow> chan_step s None (s\<lparr>cs_threads := (cs_threads s)[i := awaken (cs_threads s ! i)]\<rparr>)"

inductive chan_run :: "chan_sys \<Rightarrow> chan_event list \<Rightarrow> chan_sys \<Rightarrow> bool" where
  none: "chan_run s [] s"
| more: "chan_run s es s1 \<Longrightarrow> chan_step s1 e s2 \<Longrightarrow> chan_run s (es @ (case e of None \<Rightarrow> [] | Some ev \<Rightarrow> [ev])) s2"

inductive_cases chan_stepE: "chan_step s e s'"

definition new_system :: "u32 \<Rightarrow> nat \<Rightarrow> chan_sys" where
  "new_system cap n = \<lparr>cs_ch = channel_make cap, cs_threads = replicate n Idle\<rparr>"

end
