(* ===== verification/Channel_Props.thy ===== *)
theory Channel_Props
  imports Channel
begin

text \<open>
  What channels promise. Between any interleaving of threads a buffered channel is a first-in-first-out
  queue of bounded length, no wakeup is lost, and closing releases every waiting thread. An unbuffered channel
  does not keep the promise of its description when two threads send at the same time.
\<close>

section \<open>The ring buffer as a bounded queue\<close>

locale bounded_fifo =
  fixes ok :: "'q \<Rightarrow> bool" and capacity :: "'q \<Rightarrow> nat" and items :: "'q \<Rightarrow> 'v list" and size_of :: "'q \<Rightarrow> nat"
    and put :: "'v \<Rightarrow> 'q \<Rightarrow> 'q" and first :: "'q \<Rightarrow> 'v" and rest :: "'q \<Rightarrow> 'q"
  assumes size_items: "ok q \<Longrightarrow> size_of q = length (items q)"
    and size_bounded: "ok q \<Longrightarrow> size_of q \<le> capacity q"
    and put_items: "ok q \<Longrightarrow> size_of q < capacity q \<Longrightarrow> ok (put v q) \<and> items (put v q) = items q @ [v] \<and> capacity (put v q) = capacity q"
    and rest_items: "ok q \<Longrightarrow> 0 < size_of q \<Longrightarrow> ok (rest q) \<and> items q = first q # items (rest q) \<and> capacity (rest q) = capacity q"
begin

lemma put_history: "ok q \<Longrightarrow> size_of q < capacity q \<Longrightarrow> sent = received @ items q \<Longrightarrow> sent @ [v] = received @ items (put v q)"
  using put_items by simp

lemma rest_history: "ok q \<Longrightarrow> 0 < size_of q \<Longrightarrow> sent = received @ items q \<Longrightarrow> sent = (received @ [first q]) @ items (rest q)"
  using rest_items by simp

lemma size_put: "ok q \<Longrightarrow> size_of q < capacity q \<Longrightarrow> size_of (put v q) = size_of q + 1"
  using put_items size_items by fastforce

lemma size_rest: "ok q \<Longrightarrow> 0 < size_of q \<Longrightarrow> size_of (rest q) + 1 = size_of q"
  using rest_items size_items by fastforce

end

definition contents :: "channel \<Rightarrow> val list" where
  "contents ch = map (\<lambda>i. ch_buf ch ! ((ch_head ch + i) mod ch_cap ch)) [0..<ch_count ch]"

definition ring_ok :: "channel \<Rightarrow> bool" where
  "ring_ok ch \<longleftrightarrow> 0 < ch_cap ch \<and> length (ch_buf ch) = ch_cap ch \<and> ch_head ch < ch_cap ch \<and> ch_count ch \<le> ch_cap ch \<and>
     ch_tail ch = (ch_head ch + ch_count ch) mod ch_cap ch"

lemma mod_neq: "i < j \<Longrightarrow> j - i < n \<Longrightarrow> (h + i) mod n \<noteq> (h + j) mod (n :: nat)"
proof
  assume "i < j" "j - i < n" "(h + i) mod n = (h + j) mod n"
  then have "n dvd (h + j) - (h + i)" by (subst mod_eq_dvd_iff_nat [symmetric]) auto
  with \<open>i < j\<close> \<open>j - i < n\<close> show False by (auto dest: dvd_imp_le)
qed

lemma enqueue_contents:
  assumes "ring_ok ch" "ch_count ch < ch_cap ch"
  shows "ring_ok (enqueue v ch) \<and> contents (enqueue v ch) = contents ch @ [v] \<and> ch_cap (enqueue v ch) = ch_cap ch"
proof -
  have "(ch_head ch + ch_count ch) mod ch_cap ch \<noteq> (ch_head ch + i) mod ch_cap ch" if "i < ch_count ch" for i
    using mod_neq [of i "ch_count ch" "ch_cap ch" "ch_head ch"] that assms(2) by linarith
  then have "contents (enqueue v ch) = contents ch @ [v]"
    using assms by (simp add: contents_def enqueue_def ring_ok_def nth_list_update_neq)
  with assms show ?thesis by (simp add: ring_ok_def enqueue_def mod_Suc_eq)
qed

lemma dequeue_contents:
  assumes "ring_ok ch" "0 < ch_count ch"
  shows "ring_ok (dequeue ch) \<and> contents ch = front ch # contents (dequeue ch) \<and> ch_cap (dequeue ch) = ch_cap ch"
proof -
  obtain n where n: "ch_count ch = Suc n" using assms(2) by (cases "ch_count ch") auto
  have "[0..<Suc n] = 0 # map Suc [0..<n]" by (simp add: map_Suc_upt upt_conv_Cons del: upt_Suc)
  then have "contents ch = front ch # map (\<lambda>i. ch_buf ch ! ((ch_head ch + Suc i) mod ch_cap ch)) [0..<n]"
    using assms(1) unfolding contents_def n by (simp add: front_def ring_ok_def comp_def del: upt_Suc)
  moreover have "contents (dequeue ch) = map (\<lambda>i. ch_buf ch ! ((ch_head ch + Suc i) mod ch_cap ch)) [0..<n]"
    using n by (simp add: contents_def dequeue_def mod_simps)
  moreover have "ring_ok (dequeue ch)" using assms n by (simp add: ring_ok_def dequeue_def mod_simps)
  ultimately show ?thesis by (simp add: dequeue_def)
qed

interpretation ring: bounded_fifo ring_ok ch_cap contents ch_count enqueue front dequeue
  by unfold_locales (auto simp: enqueue_contents dequeue_contents, auto simp: contents_def ring_ok_def)

section \<open>Sections of a buffered channel\<close>

text \<open>
  With a capacity, a section either leaves the channel alone, goes to sleep, puts a value, takes one or
  closes the channel.
\<close>

fun awake_on :: "cv \<Rightarrow> thr \<Rightarrow> bool" where
  "awake_on Not_Full (Send_Awake v) \<longleftrightarrow> True"
| "awake_on Not_Full Sync_Send_Awake \<longleftrightarrow> True"
| "awake_on Not_Empty Recv_Awake \<longleftrightarrow> True"
| "awake_on Not_Empty Sync_Recv_Awake \<longleftrightarrow> True"
| "awake_on c t \<longleftrightarrow> False"

fun sync_thr :: "thr \<Rightarrow> bool" where
  "sync_thr Sync_Send_Asleep \<longleftrightarrow> True"
| "sync_thr Sync_Send_Awake \<longleftrightarrow> True"
| "sync_thr Sync_Recv_Asleep \<longleftrightarrow> True"
| "sync_thr Sync_Recv_Awake \<longleftrightarrow> True"
| "sync_thr t \<longleftrightarrow> False"

text \<open>How many of the waiting threads on a condition variable could go on: free slots, or values.\<close>

fun room :: "cv \<Rightarrow> channel \<Rightarrow> nat" where
  "room Not_Full ch = ch_cap ch - ch_count ch"
| "room Not_Empty ch = ch_count ch"

inductive buffered_section :: "thr \<Rightarrow> channel \<Rightarrow> section_result \<Rightarrow> bool" where
  ret: "can_start t \<or> ch_closed ch \<Longrightarrow> buffered_section t ch (returns r ch)"
| sleep: "asleep_on c t' \<Longrightarrow> \<not> sync_thr t' \<Longrightarrow> room c ch = 0 \<Longrightarrow> \<not> ch_closed ch \<Longrightarrow> (\<And>c'. awake_on c' t \<Longrightarrow> c' = c) \<Longrightarrow>
    buffered_section t ch (waits t' ch)"
| put: "ch_count ch < ch_cap ch \<Longrightarrow> \<not> awake_on Not_Empty t \<Longrightarrow>
    buffered_section t ch \<lparr>sec_thr = Finished r, sec_ch = enqueue v ch, sec_wakes = [Signal Not_Empty], sec_event = Some (Sent v)\<rparr>"
| get: "0 < ch_count ch \<Longrightarrow> \<not> awake_on Not_Full t \<Longrightarrow>
    buffered_section t ch \<lparr>sec_thr = Finished r, sec_ch = dequeue ch, sec_wakes = [Signal Not_Full], sec_event = Some (Received (front ch))\<rparr>"
| close: "buffered_section t ch (channel_close ch)"

lemma send_loop_buffered:
  "ring_ok ch \<Longrightarrow> can_start t \<or> t = Send_Awake v \<Longrightarrow> buffered_section t ch (send_loop v ch)"
  unfolding send_loop_def
  by (auto simp: ring_ok_def can_start_def split: thr.splits
    intro!: buffered_section.put buffered_section.sleep [of Not_Full] elim: awake_on.elims intro: buffered_section.ret)

lemma recv_loop_buffered:
  "ring_ok ch \<Longrightarrow> can_start t \<or> t = Recv_Awake \<Longrightarrow> buffered_section t ch (recv_loop ch)"
  unfolding recv_loop_def
  by (auto simp: ring_ok_def can_start_def split: thr.splits
    intro!: buffered_section.get buffered_section.sleep [of Not_Empty] elim: awake_on.elims intro: buffered_section.ret)

lemma begin_buffered:
  assumes "ring_ok ch" "can_start t"
  shows "buffered_section t ch (begin_op op ch)"
proof -
  have idle: "\<not> awake_on c t" for c using assms(2) by (cases t; cases c) (auto simp: can_start_def)
  have cap: "0 < ch_cap ch" using assms(1) by (simp add: ring_ok_def)
  show ?thesis
    by (cases op) (use assms cap idle send_loop_buffered recv_loop_buffered in
      \<open>auto simp: channel_send_def channel_recv_def channel_try_send_def channel_try_recv_def channel_closed_def
        intro: buffered_section.intros\<close>)
qed

lemma resume_buffered: "ring_ok ch \<Longrightarrow> \<not> sync_thr t \<Longrightarrow> resume_op t ch = Some sec \<Longrightarrow> buffered_section t ch sec"
  by (cases t) (auto intro: send_loop_buffered recv_loop_buffered)

section \<open>Wakeups\<close>

abbreviation sleeping :: "cv \<Rightarrow> thr list \<Rightarrow> bool" where
  "sleeping c ts \<equiv> \<exists>t\<in>set ts. asleep_on c t"

abbreviation awake_count :: "cv \<Rightarrow> thr list \<Rightarrow> nat" where
  "awake_count c ts \<equiv> length (filter (awake_on c) ts)"

lemma finished_up [simp]: "\<not> asleep_on c (Finished r)" "\<not> awake_on c (Finished r)"
  by (cases c; simp)+

lemma asleep_unique: "asleep_on c t \<Longrightarrow> asleep_on c' t \<Longrightarrow> c' = c"
  by (cases c; cases c'; cases t) auto

lemma awaken_awake: "asleep_on c t \<Longrightarrow> awake_on c' (awaken t) \<longleftrightarrow> c' = c" and awaken_up: "\<not> asleep_on c (awaken t)"
  by (cases c; cases c'; cases t; simp)+

lemma asleep_not_awake: "asleep_on c t \<Longrightarrow> \<not> awake_on c' t"
  by (cases c; cases c'; cases t; simp)

lemma awaken_sync [simp]: "sync_thr (awaken t) \<longleftrightarrow> sync_thr t" and awaken_id: "\<forall>c. \<not> asleep_on c t \<Longrightarrow> awaken t = t"
  by (cases t; auto dest: spec [of _ Not_Full] spec [of _ Not_Empty])+

lemma sleeping_update: "sleeping c (ts[i := x]) \<Longrightarrow> \<not> asleep_on c x \<Longrightarrow> sleeping c ts"
  using set_update_subset_insert [of ts i x] by auto

lemma awake_count_update:
  "i < length ts \<Longrightarrow> awake_count c (ts[i := x]) + (if awake_on c (ts ! i) then 1 else 0) = awake_count c ts + (if awake_on c x then 1 else 0)"
  by (rule length_filter_update)

lemma signal_none: "\<not> sleeping c ts \<Longrightarrow> wake_threads k (Signal c) ts = ts"
  by (auto simp: sleepers_def filter_empty_conv)

lemma signal_some:
  assumes "sleeping c ts"
  shows "\<exists>i<length ts. asleep_on c (ts ! i) \<and> wake_threads k (Signal c) ts = ts[i := awaken (ts ! i)]"
proof -
  let ?l = "sleepers c ts"
  have "?l \<noteq> []" using assms by (fastforce simp: sleepers_def filter_empty_conv in_set_conv_nth)
  then have "?l ! (k mod length ?l) \<in> set ?l" by (intro nth_mem) simp
  then have "?l ! (k mod length ?l) < length ts \<and> asleep_on c (ts ! (?l ! (k mod length ?l)))" by (simp add: sleepers_def)
  then show ?thesis using \<open>?l \<noteq> []\<close> by (intro exI [of _ "?l ! (k mod length ?l)"]) (simp add: Let_def)
qed

lemma awaken_count:
  assumes "i < length ts" "asleep_on c (ts ! i)"
  shows "awake_count c' (ts[i := awaken (ts ! i)]) = awake_count c' ts + (if c' = c then 1 else 0)"
  using awake_count_update [OF assms(1), of c' "awaken (ts ! i)"] assms(2)
  by (simp add: awaken_awake asleep_not_awake split: if_splits)

lemma signal_count:
  "awake_count c' (wake_threads k (Signal c) ts) = awake_count c' ts + (if c' = c \<and> sleeping c ts then 1 else 0)"
proof (cases "sleeping c ts")
  case True
  then show ?thesis using signal_some [OF True, of k] by (auto simp: awaken_count simp del: wake_threads.simps)
qed (simp add: signal_none del: wake_threads.simps)

lemma wake_sleeping: "sleeping c' (wake_threads k w ts) \<Longrightarrow> sleeping c' ts"
proof (cases w)
  case (Signal c)
  assume "sleeping c' (wake_threads k w ts)"
  then show ?thesis
    using signal_some [of ts c k] signal_none [of ts c k] sleeping_update [OF _ awaken_up]
    unfolding Signal by (cases "sleeping c ts") metis+
qed (auto simp: awaken_up split: if_splits)

lemma wake_other:
  assumes "j < length ts" "\<forall>c. \<not> asleep_on c (ts ! j)"
  shows "wake_threads k w ts ! j = ts ! j"
proof (cases w)
  case (Signal c)
  then show ?thesis using signal_some [of ts c k] signal_none [of ts c k] assms
    by (cases "sleeping c ts") (metis nth_list_update_neq)+
qed (use assms in auto)

lemma wake_length [simp]: "length (wake_threads k w ts) = length ts"
  by (cases w) (simp_all add: Let_def)

lemma wake_sync: "\<forall>t\<in>set ts. \<not> sync_thr t \<Longrightarrow> \<forall>t\<in>set (wake_threads k w ts). \<not> sync_thr t"
proof (cases w)
  case (Signal c)
  assume "\<forall>t\<in>set ts. \<not> sync_thr t"
  then show ?thesis using signal_some [of ts c k] signal_none [of ts c k] unfolding Signal
    by (cases "sleeping c ts") (auto simp del: wake_threads.simps dest!: subsetD [OF set_update_subset_insert])
qed auto

section \<open>The invariant\<close>

text \<open>
  A thread sleeps only while the channel is open, and then enough threads are awake to use all the room there is:
  whoever made room has woken one more.
\<close>

definition no_lost_wakeup :: "channel \<Rightarrow> thr list \<Rightarrow> bool" where
  "no_lost_wakeup ch ts \<longleftrightarrow> (\<forall>c. sleeping c ts \<longrightarrow> \<not> ch_closed ch \<and> room c ch \<le> awake_count c ts)"

definition chan_inv :: "chan_sys \<Rightarrow> bool" where
  "chan_inv s \<longleftrightarrow> ring_ok (cs_ch s) \<and> (\<forall>t\<in>set (cs_threads s). \<not> sync_thr t) \<and> no_lost_wakeup (cs_ch s) (cs_threads s)"

lemma closed_kept [simp]: "ch_closed (enqueue v ch) = ch_closed ch" "ch_closed (dequeue ch) = ch_closed ch"
  by (simp_all add: enqueue_def dequeue_def)

lemma room_enqueue: "ch_count ch < ch_cap ch \<Longrightarrow> room d (enqueue v ch) = (if d = Not_Empty then room d ch + 1 else room d ch - 1)"
  by (cases d) (auto simp: enqueue_def)

lemma room_dequeue: "ring_ok ch \<Longrightarrow> 0 < ch_count ch \<Longrightarrow> room d (dequeue ch) = (if d = Not_Full then room d ch + 1 else room d ch - 1)"
  by (cases d) (auto simp: dequeue_def ring_ok_def)

text \<open>One value enters or leaves: the room on one side shrinks by the acting thread's part, the other side gets a signal.\<close>

lemma no_lost_transfer:
  assumes "no_lost_wakeup ch ts" and j: "j < length ts" "\<forall>c. \<not> asleep_on c (ts ! j)" "\<not> awake_on c (ts ! j)"
    and room: "\<And>d. room d ch' = (if d = c then room d ch + 1 else room d ch - 1)" and "ch_closed ch' = ch_closed ch"
  shows "no_lost_wakeup ch' ((wake_threads k (Signal c) ts)[j := Finished r])"
  unfolding no_lost_wakeup_def
proof (intro allI impI)
  fix d
  let ?ts = "wake_threads k (Signal c) ts"
  assume "sleeping d (?ts[j := Finished r])"
  then have "sleeping d ?ts" by (rule sleeping_update) simp
  then have d: "sleeping d ts" by (rule wake_sleeping)
  have "awake_count d (?ts[j := Finished r]) + (if awake_on d (ts ! j) then 1 else 0) = awake_count d ts + (if d = c then 1 else 0)"
    using awake_count_update [of j ?ts d "Finished r"] j d by (auto simp: wake_other signal_count simp del: wake_threads.simps)
  with assms d room [of d] show "\<not> ch_closed ch' \<and> room d ch' \<le> awake_count d (?ts[j := Finished r])"
    by (auto simp: no_lost_wakeup_def split: if_splits)
qed

lemma no_lost_update:
  assumes "no_lost_wakeup ch ts" "j < length ts"
    and "\<And>c. sleeping c (ts[j := x]) \<Longrightarrow> sleeping c ts \<and> \<not> awake_on c (ts ! j) \<or> \<not> ch_closed ch \<and> room c ch = 0"
  shows "no_lost_wakeup ch (ts[j := x])"
  unfolding no_lost_wakeup_def
proof (intro allI impI)
  fix c
  assume "sleeping c (ts[j := x])"
  from assms(3) [OF this] assms(1) awake_count_update [OF assms(2), of c x]
  show "\<not> ch_closed ch \<and> room c ch \<le> awake_count c (ts[j := x])"
    by (auto simp: no_lost_wakeup_def split: if_splits)
qed

lemma can_start_not_awake: "can_start t \<Longrightarrow> \<not> awake_on c t"
  by (cases t; cases c) (auto simp: can_start_def)

lemma close_wakes_all: "\<not> sleeping c ((fold (wake_threads k) (sec_wakes (channel_close ch)) ts)[j := sec_thr (channel_close ch)])"
proof
  assume "sleeping c ((fold (wake_threads k) (sec_wakes (channel_close ch)) ts)[j := sec_thr (channel_close ch)])"
  then have "sleeping c (fold (wake_threads k) [Broadcast Not_Full, Broadcast Not_Empty] ts)"
    unfolding channel_close_def section_result.simps by (rule sleeping_update) (rule finished_up)
  then show False by (cases c) (auto simp: awaken_up)
qed

lemma no_lost_section:
  assumes "buffered_section (ts ! j) ch sec" "ring_ok ch" "no_lost_wakeup ch ts" "j < length ts" "\<forall>c. \<not> asleep_on c (ts ! j)"
  shows "no_lost_wakeup (sec_ch sec) ((fold (wake_threads k) (sec_wakes sec) ts)[j := sec_thr sec])"
  using assms(1)
proof cases
  case (ret r)
  have "sleeping c (ts[j := Finished r]) \<Longrightarrow> sleeping c ts" for c
    using sleeping_update [of ts j "Finished r" c] finished_up by blast
  then have "no_lost_wakeup ch (ts[j := Finished r])"
    using ret(2) assms(3) by (intro no_lost_update assms) (auto simp: no_lost_wakeup_def can_start_not_awake)
  with ret show ?thesis by (simp add: returns_def)
next
  case (sleep c t')
  have "no_lost_wakeup ch (ts[j := t'])"
  proof (intro no_lost_update assms)
    fix d assume "sleeping d (ts[j := t'])"
    then show "sleeping d ts \<and> \<not> awake_on d (ts ! j) \<or> \<not> ch_closed ch \<and> room d ch = 0"
      using sleep asleep_unique [of c t' d] sleeping_update [of ts j t' d] by (cases "d = c") blast+
  qed
  with sleep show ?thesis by (simp add: waits_def)
next
  case (put r v)
  then show ?thesis using assms by (simp add: no_lost_transfer [OF assms(3)] room_enqueue del: wake_threads.simps)
next
  case (get r)
  then show ?thesis using assms by (simp add: no_lost_transfer [OF assms(3)] room_dequeue del: wake_threads.simps)
next
  case close
  then show ?thesis using close_wakes_all [of k ch ts j] unfolding no_lost_wakeup_def by simp
qed

lemma inv_section:
  assumes "chan_inv s" "j < length (cs_threads s)" "\<forall>c. \<not> asleep_on c (cs_threads s ! j)" "buffered_section (cs_threads s ! j) (cs_ch s) sec"
  shows "chan_inv (after_section k j sec s)"
proof -
  have "\<not> sync_thr (sec_thr sec) \<and> ring_ok (sec_ch sec)"
    using assms(4,1) by cases (auto simp: chan_inv_def returns_def waits_def channel_close_def ring.put_items ring.rest_items, auto simp: ring_ok_def)
  moreover have "\<forall>t\<in>set (fold (wake_threads k) ws (cs_threads s)). \<not> sync_thr t" for ws
    using assms(1) by (induction ws rule: rev_induct) (auto simp: chan_inv_def wake_sync simp del: wake_threads.simps)
  ultimately show ?thesis
    using assms no_lost_section [of "cs_threads s" j "cs_ch s" sec k]
    by (auto simp: chan_inv_def after_section_def dest!: subsetD [OF set_update_subset_insert])
qed

lemma inv_spurious:
  assumes "chan_inv s" "i < length (cs_threads s)"
  shows "chan_inv (s\<lparr>cs_threads := (cs_threads s)[i := awaken (cs_threads s ! i)]\<rparr>)"
proof -
  have "sleeping c ((cs_threads s)[i := awaken (cs_threads s ! i)]) \<Longrightarrow> sleeping c (cs_threads s)" for c
    using sleeping_update [OF _ awaken_up] .
  moreover have "awake_count c (cs_threads s) \<le> awake_count c ((cs_threads s)[i := awaken (cs_threads s ! i)])" for c
    using awaken_count [OF assms(2)] awaken_id [of "cs_threads s ! i"] by (cases "\<exists>c. asleep_on c (cs_threads s ! i)") auto
  ultimately have "no_lost_wakeup (cs_ch s) ((cs_threads s)[i := awaken (cs_threads s ! i)])"
    using assms(1) unfolding chan_inv_def no_lost_wakeup_def by (meson order_trans)
  then show ?thesis using assms by (auto simp: chan_inv_def dest!: subsetD [OF set_update_subset_insert])
qed

lemma resume_up: "resume_op t ch = Some sec \<Longrightarrow> \<not> asleep_on c t"
  by (cases t; cases c) auto

lemma start_up: "can_start t \<Longrightarrow> \<not> asleep_on c t"
  by (cases t; cases c) (auto simp: can_start_def)

lemma step_cases:
  assumes "chan_step s e s'" "chan_inv s"
  obtains (section_step) i k sec where "i < length (cs_threads s)" "\<forall>c. \<not> asleep_on c (cs_threads s ! i)"
      "buffered_section (cs_threads s ! i) (cs_ch s) sec" "e = sec_event sec" "s' = after_section k i sec s"
    | (spurious_step) i where "i < length (cs_threads s)" "e = None"
      "s' = s\<lparr>cs_threads := (cs_threads s)[i := awaken (cs_threads s ! i)]\<rparr>"
  using assms(1)
proof cases
  case (start i sec op k)
  then show ?thesis using assms(2) by (auto simp: start_up chan_inv_def intro!: section_step [of i sec k] begin_buffered)
next
  case (resume i sec k)
  then show ?thesis using assms(2) by (auto simp: resume_up chan_inv_def intro!: section_step [of i sec k] resume_buffered)
qed (rule spurious_step)

lemma chan_inv_step: "chan_step s e s' \<Longrightarrow> chan_inv s \<Longrightarrow> chan_inv s'"
  by (erule step_cases) (auto intro: inv_section inv_spurious)

lemma chan_inv_new: "cap \<noteq> 0 \<Longrightarrow> chan_inv (new_system cap n)"
  by (auto simp: chan_inv_def new_system_def channel_make_def ring_ok_def no_lost_wakeup_def unat_gt_0)

lemma chan_inv_run: "chan_run s es s' \<Longrightarrow> chan_inv s \<Longrightarrow> chan_inv s'"
  by (induction rule: chan_run.induct) (auto intro: chan_inv_step)

section \<open>Histories\<close>

fun sent :: "chan_event list \<Rightarrow> val list" where
  "sent [] = []"
| "sent (Sent v # es) = v # sent es"
| "sent (Received v # es) = sent es"

fun received :: "chan_event list \<Rightarrow> val list" where
  "received [] = []"
| "received (Sent v # es) = received es"
| "received (Received v # es) = v # received es"

lemma history_append [simp]: "sent (xs @ ys) = sent xs @ sent ys" "received (xs @ ys) = received xs @ received ys"
  by (induction xs rule: sent.induct) auto

text \<open>The specification: a bounded queue that takes a value at its end or gives the one at its front.\<close>

fun queue_event :: "nat \<Rightarrow> val list \<Rightarrow> chan_event option \<Rightarrow> val list \<Rightarrow> bool" where
  "queue_event cap q None q' \<longleftrightarrow> q' = q"
| "queue_event cap q (Some (Sent v)) q' \<longleftrightarrow> q' = q @ [v] \<and> length q < cap"
| "queue_event cap q (Some (Received v)) q' \<longleftrightarrow> q = v # q'"

lemma step_refines:
  assumes "chan_step s e s'" "chan_inv s"
  shows "queue_event (ch_cap (cs_ch s)) (contents (cs_ch s)) e (contents (cs_ch s')) \<and> ch_cap (cs_ch s') = ch_cap (cs_ch s)"
  using assms
proof (cases rule: step_cases)
  case (section_step i k sec)
  have ring: "ring_ok (cs_ch s)" using assms(2) by (simp add: chan_inv_def)
  from section_step(3) have "queue_event (ch_cap (cs_ch s)) (contents (cs_ch s)) e (contents (sec_ch sec)) \<and> ch_cap (sec_ch sec) = ch_cap (cs_ch s)"
    by cases (use section_step(4) ring ring.size_items [OF ring] ring.put_items [OF ring] ring.rest_items [OF ring] in
      \<open>auto simp: returns_def waits_def channel_close_def\<close>, simp_all add: contents_def)
  then show ?thesis by (simp add: section_step(5) after_section_def)
qed simp

lemma run_history:
  assumes "chan_run s es s'" "chan_inv s" "contents (cs_ch s) = []"
  shows "sent es = received es @ contents (cs_ch s') \<and> ch_cap (cs_ch s') = ch_cap (cs_ch s)"
  using assms
proof (induction rule: chan_run.induct)
  case (more s es s1 e s2)
  then have "chan_inv s1" by (auto intro: chan_inv_run)
  with more step_refines [of s1 e s2] show ?case
    by (cases e) (auto split: chan_event.splits elim: queue_event.elims)
qed simp

section \<open>Closing\<close>

lemma closed_section:
  assumes "ch_closed ch"
  shows "ch_closed (sec_ch (begin_op op ch)) \<and> (\<exists>r. sec_thr (begin_op op ch) = Finished r)"
    and "resume_op t ch = Some sec \<Longrightarrow> ch_closed (sec_ch sec) \<and> (\<exists>r. sec_thr sec = Finished r)"
proof -
  show "ch_closed (sec_ch (begin_op op ch)) \<and> (\<exists>r. sec_thr (begin_op op ch) = Finished r)"
    using assms by (cases op) (auto simp: channel_send_def channel_recv_def recv_loop_def sync_recv_loop_def channel_close_def
      channel_closed_def channel_try_send_def channel_try_recv_def returns_def Let_def)
  show "ch_closed (sec_ch sec) \<and> (\<exists>r. sec_thr sec = Finished r)" if "resume_op t ch = Some sec"
    using assms that by (cases t) (auto simp: recv_loop_def sync_recv_loop_def send_loop_def sync_send_loop_def returns_def)
qed

lemma open_section:
  assumes "\<not> ch_closed ch"
  shows "ch_closed (sec_ch (begin_op op ch)) \<Longrightarrow> begin_op op ch = channel_close ch"
    and "resume_op t ch = Some sec \<Longrightarrow> \<not> ch_closed (sec_ch sec)"
proof -
  show "begin_op op ch = channel_close ch" if "ch_closed (sec_ch (begin_op op ch))"
    using assms that by (cases op) (auto simp: channel_send_def channel_recv_def recv_loop_def sync_recv_loop_def send_loop_def
      sync_send_loop_def channel_closed_def channel_try_send_def channel_try_recv_def returns_def waits_def Let_def split: if_splits)
  show "\<not> ch_closed (sec_ch sec)" if "resume_op t ch = Some sec"
    using assms that by (cases t) (auto simp: recv_loop_def sync_recv_loop_def send_loop_def sync_send_loop_def returns_def waits_def split: if_splits)
qed

lemma fold_wake_sleeping: "sleeping c (fold (wake_threads k) ws ts) \<Longrightarrow> sleeping c ts"
  by (induction ws arbitrary: ts) (simp, metis fold_simps(2) wake_sleeping)

definition closed_released :: "chan_sys \<Rightarrow> bool" where
  "closed_released s \<longleftrightarrow> (ch_closed (cs_ch s) \<longrightarrow> (\<forall>c. \<not> sleeping c (cs_threads s)))"

lemma released_finished:
  "ch_closed (cs_ch s) \<Longrightarrow> closed_released s \<Longrightarrow> sec_thr sec = Finished r \<Longrightarrow> closed_released (after_section k i sec s)"
  unfolding closed_released_def after_section_def
  using sleeping_update [OF _ finished_up(1)] fold_wake_sleeping by (metis chan_sys.select_convs(2))

lemma released_step: "chan_step s e s' \<Longrightarrow> closed_released s \<Longrightarrow> closed_released s'"
proof (induction rule: chan_step.induct)
  case (start i s sec op k)
  show ?case
  proof (cases "ch_closed (cs_ch s)")
    case True
    then show ?thesis using start closed_section(1) [OF True, of op] by (auto intro: released_finished)
  next
    case False
    have "closed_released (after_section k i (channel_close (cs_ch s)) s)"
      using close_wakes_all [of k "cs_ch s" "cs_threads s" i] by (simp add: closed_released_def after_section_def)
    then show ?thesis using start open_section(1) [OF False, of op] by (auto simp: closed_released_def after_section_def)
  qed
next
  case (resume i s sec k)
  show ?case
  proof (cases "ch_closed (cs_ch s)")
    case True
    then show ?thesis using resume closed_section(2) [OF True resume(2)] by (auto intro: released_finished)
  next
    case False
    then show ?thesis using open_section(2) [OF False resume(2)] by (simp add: closed_released_def after_section_def)
  qed
next
  case (spurious i s)
  then show ?case using sleeping_update [OF _ awaken_up, of "cs_threads s" i "cs_threads s ! i"] unfolding closed_released_def by simp metis
qed

lemma released_run: "chan_run s es s' \<Longrightarrow> closed_released s \<Longrightarrow> closed_released s'"
  by (induction rule: chan_run.induct) (auto intro: released_step)

section \<open>Running\<close>

lemma run_start:
  "chan_run s es s1 \<Longrightarrow> i < length (cs_threads s1) \<Longrightarrow> can_start (cs_threads s1 ! i) \<Longrightarrow> sec = begin_op op (cs_ch s1) \<Longrightarrow>
   chan_run s (es @ (case sec_event sec of None \<Rightarrow> [] | Some ev \<Rightarrow> [ev])) (after_section 0 i sec s1)"
  by (intro chan_run.more [of s es s1] chan_step.start)

lemma run_resume:
  "chan_run s es s1 \<Longrightarrow> i < length (cs_threads s1) \<Longrightarrow> resume_op (cs_threads s1 ! i) (cs_ch s1) = Some sec \<Longrightarrow>
   chan_run s (es @ (case sec_event sec of None \<Rightarrow> [] | Some ev \<Rightarrow> [ev])) (after_section 0 i sec s1)"
  by (intro chan_run.more [of s es s1] chan_step.resume)

lemmas sections = channel_send_def channel_recv_def send_loop_def recv_loop_def sync_send_loop_def sync_recv_loop_def channel_close_def
  returns_def waits_def after_section_def new_system_def channel_make_def can_start_def sleepers_def

lemma first_send: "chan_run (new_system 1 1) [Sent v] \<lparr>cs_ch = enqueue v (channel_make 1), cs_threads = [Finished (Inr V_VOID)]\<rparr>"
  using run_start [OF chan_run.none [of "new_system 1 1"], of 0 "channel_send v (channel_make 1)" "Op_Send v"] by (simp add: sections)

lemma first_recv: "chan_run (new_system 1 1) [] \<lparr>cs_ch = channel_make 1, cs_threads = [Recv_Asleep]\<rparr>"
  using run_start [OF chan_run.none [of "new_system 1 1"], of 0 "channel_recv (channel_make 1)" "Op_Recv"] by (simp add: sections)

lemma first_close: "chan_run (new_system 1 1) [] \<lparr>cs_ch = (channel_make 1)\<lparr>ch_closed := True\<rparr>, cs_threads = [Finished (Inr V_VOID)]\<rparr>"
  using run_start [OF chan_run.none [of "new_system 1 1"], of 0 "channel_close (channel_make 1)" "Op_Close"] by (simp add: sections)

section \<open>The properties\<close>

text \<open>
  C3: A channel with a buffer is a first-in-first-out queue of bounded length, however its threads interleave:
  in every run from a new channel the values received so far, followed by those in the buffer, are the values sent
  so far in their order, so that none is lost, doubled or overtaken, and the buffer never holds more than the capacity.
\<close>

theorem channel_fifo:
  assumes "cap \<noteq> 0" "chan_run (new_system cap n) es s"
  shows "sent es = received es @ contents (cs_ch s) \<and> length (contents (cs_ch s)) \<le> unat cap"
proof -
  have "chan_inv s" using assms chan_inv_new chan_inv_run by blast
  then have "length (contents (cs_ch s)) \<le> ch_cap (cs_ch s)"
    using ring.size_items ring.size_bounded by (metis chan_inv_def)
  with run_history [OF assms(2) chan_inv_new [OF assms(1)]] show ?thesis
    by (auto simp: new_system_def channel_make_def contents_def)
qed

text \<open>
  C4: No wakeup is lost and no deadlock arises. When every thread of a buffered channel is idle, finished or
  asleep, a sender that sleeps finds the buffer full and the channel open, a receiver that sleeps finds it empty and
  the channel open; hence senders and receivers never sleep at the same time with nobody awake.
\<close>

theorem channel_no_lost_wakeup:
  assumes "cap \<noteq> 0" "chan_run (new_system cap n) es s"
    and "\<forall>t\<in>set (cs_threads s). resume_op t (cs_ch s) = None"
  shows "(Send_Asleep v \<in> set (cs_threads s) \<longrightarrow> ch_count (cs_ch s) = unat cap \<and> \<not> ch_closed (cs_ch s) \<and> Recv_Asleep \<notin> set (cs_threads s)) \<and>
    (Recv_Asleep \<in> set (cs_threads s) \<longrightarrow> ch_count (cs_ch s) = 0 \<and> \<not> ch_closed (cs_ch s))"
proof -
  have inv: "chan_inv s" using assms chan_inv_new chan_inv_run by blast
  have cap: "ch_cap (cs_ch s) = unat cap" "0 < unat cap" using run_history [OF assms(2) chan_inv_new [OF assms(1)]] assms(1)
    by (auto simp: new_system_def channel_make_def contents_def unat_gt_0)
  have "\<not> awake_on c t" if "t \<in> set (cs_threads s)" for c t using assms(3) that by (cases t; cases c) force+
  then have room: "sleeping c (cs_threads s) \<Longrightarrow> \<not> ch_closed (cs_ch s) \<and> room c (cs_ch s) = 0" for c
    using inv by (force simp: chan_inv_def no_lost_wakeup_def filter_empty_conv)
  have "ch_count (cs_ch s) \<le> ch_cap (cs_ch s)" using inv by (simp add: chan_inv_def ring_ok_def)
  with room [of Not_Full] room [of Not_Empty] cap show ?thesis by force
qed

text \<open>
  C7: Closing a channel, buffered or not, releases every thread: after it no thread sleeps, and whichever thread
  runs next, in the operation it was woken in or in a new one, comes back with a result or an error.
\<close>

theorem channel_close_releases:
  assumes "chan_run (new_system cap n) es s" "ch_closed (cs_ch s)"
  shows "(\<forall>t\<in>set (cs_threads s). \<not> asleep_on c t) \<and> (\<exists>r. sec_thr (begin_op op (cs_ch s)) = Finished r) \<and>
    (resume_op t (cs_ch s) = Some sec \<longrightarrow> (\<exists>r. sec_thr sec = Finished r))"
proof -
  have "closed_released s" using released_run [OF assms(1)] by (simp add: closed_released_def new_system_def channel_make_def)
  then show ?thesis using assms(2) closed_section by (auto simp: closed_released_def)
qed

theorem channel_fifo_witness:
  "(1 :: u32) \<noteq> 0 \<and> chan_run (new_system 1 1) [Sent 8] \<lparr>cs_ch = enqueue 8 (channel_make 1), cs_threads = [Finished (Inr V_VOID)]\<rparr> \<and>
   sent [Sent 8] = received [Sent 8] @ contents (enqueue 8 (channel_make 1))"
  using first_send [of 8] channel_fifo [OF _ first_send [of 8]] by simp

theorem channel_no_lost_wakeup_witness:
  "chan_run (new_system 1 1) [] \<lparr>cs_ch = channel_make 1, cs_threads = [Recv_Asleep]\<rparr> \<and>
   Recv_Asleep \<in> set [Recv_Asleep] \<and> ch_count (channel_make 1) = 0"
  using first_recv channel_no_lost_wakeup [OF _ first_recv] by simp

theorem channel_close_releases_witness:
  "chan_run (new_system 1 1) [] \<lparr>cs_ch = (channel_make 1)\<lparr>ch_closed := True\<rparr>, cs_threads = [Finished (Inr V_VOID)]\<rparr> \<and>
   (\<exists>r. sec_thr (begin_op Op_Recv ((channel_make 1)\<lparr>ch_closed := True\<rparr>)) = Finished r)"
  using first_close channel_close_releases [OF first_close, of Not_Full Op_Recv Idle undefined] by simp

text \<open>
  C10: Without a buffer two threads that send at the same time lose a value: the second overwrites the slot and sets
  the flag that is set already, one receive clears it and wakes both senders, and both return although only the
  second value was ever received; the next receiver waits for a value that was reported as delivered.
\<close>

theorem rendezvous_value_lost:
  "\<exists>es s. chan_run (new_system 0 4) es s \<and> sent es = [v, w] \<and> received es = [w] \<and>
     cs_threads s = [Finished (Inr V_VOID), Finished (Inr V_VOID), Finished (Inr w), Sync_Recv_Asleep]"
proof -
  let ?run = "chan_run (new_system 0 4)"
  let ?ch = "channel_make 0"
  have "?run [Sent v] \<lparr>cs_ch = ?ch\<lparr>ch_buf := [v], ch_waiting_send := True\<rparr>, cs_threads = [Sync_Send_Asleep, Idle, Idle, Idle]\<rparr>"
    using run_start [OF chan_run.none [of "new_system 0 4"], of 0 _ "Op_Send v", OF _ _ refl] by (simp add: sections numeral_eq_Suc)
  from run_start [OF this, of 1 _ "Op_Send w", OF _ _ refl]
  have "?run [Sent v, Sent w] \<lparr>cs_ch = ?ch\<lparr>ch_buf := [w], ch_waiting_send := True\<rparr>, cs_threads = [Sync_Send_Asleep, Sync_Send_Asleep, Idle, Idle]\<rparr>"
    by (simp add: sections numeral_eq_Suc)
  from run_start [OF this, of 2 _ Op_Recv, OF _ _ refl]
  have "?run [Sent v, Sent w, Received w] \<lparr>cs_ch = ?ch\<lparr>ch_buf := [w]\<rparr>, cs_threads = [Sync_Send_Awake, Sync_Send_Awake, Finished (Inr w), Idle]\<rparr>"
    by (simp add: sections numeral_eq_Suc Let_def)
  from run_resume [OF this, of 0]
  have "?run [Sent v, Sent w, Received w] \<lparr>cs_ch = ?ch\<lparr>ch_buf := [w]\<rparr>, cs_threads = [Finished (Inr V_VOID), Sync_Send_Awake, Finished (Inr w), Idle]\<rparr>"
    by (simp add: sections)
  from run_resume [OF this, of 1]
  have "?run [Sent v, Sent w, Received w] \<lparr>cs_ch = ?ch\<lparr>ch_buf := [w]\<rparr>, cs_threads = [Finished (Inr V_VOID), Finished (Inr V_VOID), Finished (Inr w), Idle]\<rparr>"
    by (simp add: sections)
  from run_start [OF this, of 3 _ Op_Recv, OF _ _ refl] show ?thesis
    by (intro exI conjI) (assumption | simp add: sections numeral_eq_Suc Let_def)+
qed

end
