(* ===== verification/Stm.thy ===== *)
theory Stm
  imports Curry_Value
begin

text \<open>
  Software transactional memory (\<open>src/src/stm.c\<close>): threads run transactions over shared variables with the TL2
  algorithm. Every step of the model is at most one access of a thread to shared memory (a load, a store, a
  lock, the clock) with the local work around it, so runs are the interleavings of sequentially consistent
  threads. What a transaction's body does next is up to the program: it is the action given to the step. Variables are
  numbered in the order of their addresses, \<open>uint64_t\<close> versions are natural numbers (the clock would have to be
  bumped \<open>2^64\<close> times to wrap), and the condition variable \<open>changed\<close> and the counter \<open>n_waiters\<close> are never read.
\<close>

section \<open>State\<close>

record tvar =
  tv_value :: val
  tv_version :: nat
  tv_lock :: "nat option"
  tv_waiters :: int
  tv_dirty :: bool

text \<open>
  The lock names the thread that holds it. Ghost fields: \<open>tv_dirty\<close> says that a value was stored and its version is
  still to come, \<open>re_val\<close> is the value a read returned, \<open>tx_got\<close> logs all reads of an attempt.
\<close>

record rentry =
  re_tv :: nat
  re_ver :: nat
  re_val :: val

type_synonym wentry = "nat \<times> val"

text \<open>Where a retry goes: the handlers of the enclosing \<open>stm_or_else\<close> calls, innermost first, then \<open>stm_atomically\<close>.\<close>

record checkpoint =
  ck_rlen :: nat
  ck_wlen :: nat
  ck_read_ver :: nat
  ck_second :: bool

datatype tx_pc = Outside | Body
  | Read_Value nat nat | Read_Again nat nat val
  | Lock nat | Validate nat nat | Apply_Value nat nat | Apply_Version nat nat | Unlock nat bool | Notify
  | Wait_Enter nat | Sleeping | Woken | Wait_Leave nat
  | Direct_Value nat val | Direct_Bump nat | Direct_Load nat | Direct_Version nat nat | Direct_Unlock nat

record txstate =
  tx_rset :: "rentry list"
  tx_wset :: "wentry list"
  tx_read_ver :: nat
  tx_retry :: "checkpoint list"
  tx_pc :: tx_pc
  tx_got :: "(nat \<times> val) list"

record stm =
  g_vclock :: nat
  tvars :: "tvar list"
  txs :: "txstate list"

definition stm_make_tvar :: "val \<Rightarrow> tvar" where
  "stm_make_tvar init = \<lparr>tv_value = init, tv_version = 0, tv_lock = None, tv_waiters = 0, tv_dirty = False\<rparr>"

definition tx_new :: txstate where
  "tx_new = \<lparr>tx_rset = [], tx_wset = [], tx_read_ver = 0, tx_retry = [], tx_pc = Outside, tx_got = []\<rparr>"

definition tx_reset :: "nat \<Rightarrow> txstate \<Rightarrow> txstate" where
  "tx_reset clock x = x\<lparr>tx_rset := [], tx_wset := [], tx_read_ver := clock, tx_got := []\<rparr>"

definition rset_add :: "nat \<Rightarrow> nat \<Rightarrow> val \<Rightarrow> txstate \<Rightarrow> txstate" where
  "rset_add a ver v x = (if a \<in> re_tv ` set (tx_rset x) then x else x\<lparr>tx_rset := tx_rset x @ [\<lparr>re_tv = a, re_ver = ver, re_val = v\<rparr>]\<rparr>)"

fun wset_lookup :: "wentry list \<Rightarrow> nat \<Rightarrow> val" where
  "wset_lookup [] a = V_UNDEF"
| "wset_lookup ((b, v) # ws) a = (if b = a then v else wset_lookup ws a)"

fun wset_put :: "wentry list \<Rightarrow> nat \<Rightarrow> val \<Rightarrow> wentry list" where
  "wset_put [] a v = [(a, v)]"
| "wset_put ((b, w) # ws) a v = (if b = a then (a, v) # ws else (b, w) # wset_put ws a v)"

section \<open>Steps\<close>

abbreviation tv :: "stm \<Rightarrow> nat \<Rightarrow> tvar" where
  "tv s a \<equiv> tvars s ! a"

definition set_tv :: "nat \<Rightarrow> tvar \<Rightarrow> stm \<Rightarrow> stm" where
  "set_tv a v s = s\<lparr>tvars := (tvars s)[a := v]\<rparr>"

definition set_tx :: "nat \<Rightarrow> txstate \<Rightarrow> stm \<Rightarrow> stm" where
  "set_tx t x s = s\<lparr>txs := (txs s)[t := x]\<rparr>"

definition goto_pc :: "nat \<Rightarrow> tx_pc \<Rightarrow> stm \<Rightarrow> stm" where
  "goto_pc t pc s = set_tx t ((txs s ! t)\<lparr>tx_pc := pc\<rparr>) s"

text \<open>A lock blocks while another thread holds it; there is no step then.\<close>

definition lock_tv :: "nat \<Rightarrow> nat \<Rightarrow> stm \<Rightarrow> stm option" where
  "lock_tv t a s = (if tv_lock (tv s a) = None then Some (set_tv a ((tv s a)\<lparr>tv_lock := Some t\<rparr>) s) else None)"

definition unlock_tv :: "nat \<Rightarrow> stm \<Rightarrow> stm" where
  "unlock_tv a s = set_tv a ((tv s a)\<lparr>tv_lock := None\<rparr>) s"

definition store_value :: "nat \<Rightarrow> val \<Rightarrow> stm \<Rightarrow> stm" where
  "store_value a v s = set_tv a ((tv s a)\<lparr>tv_value := v, tv_dirty := True\<rparr>) s"

definition store_version :: "nat \<Rightarrow> nat \<Rightarrow> stm \<Rightarrow> stm" where
  "store_version a n s = set_tv a ((tv s a)\<lparr>tv_version := n, tv_dirty := False\<rparr>) s"

text \<open>
  A retry jumps to the innermost handler. That of a first alternative restores the lengths and the version of
  the checkpoint and runs the second one; that of a second alternative restores them and jumps on.
\<close>

fun retry_to :: "checkpoint list \<Rightarrow> txstate \<Rightarrow> txstate" where
  "retry_to [] x = x\<lparr>tx_retry := [], tx_pc := Wait_Enter 0\<rparr>"
| "retry_to (c # cs) x =
     (let x' = x\<lparr>tx_rset := take (ck_rlen c) (tx_rset x), tx_wset := take (ck_wlen c) (tx_wset x), tx_read_ver := ck_read_ver c\<rparr>
      in if ck_second c then retry_to cs x' else x'\<lparr>tx_retry := c\<lparr>ck_second := True\<rparr> # cs, tx_pc := Body\<rparr>)"

definition stm_retry :: "nat \<Rightarrow> stm \<Rightarrow> stm" where
  "stm_retry t s = (let x = txs s ! t in set_tx t (retry_to (tx_retry x) x) s)"

text \<open>\<open>stm_atomically\<close> begins an attempt; \<open>stm_or_else\<close> pushes its handler and pops it when an alternative returns.\<close>

definition stm_begin :: "nat \<Rightarrow> stm \<Rightarrow> stm" where
  "stm_begin t s = set_tx t ((tx_reset (g_vclock s) tx_new)\<lparr>tx_pc := Body\<rparr>) s"

definition stm_restart :: "nat \<Rightarrow> stm \<Rightarrow> stm" where
  "stm_restart t s = set_tx t ((tx_reset (g_vclock s) (txs s ! t))\<lparr>tx_pc := Body\<rparr>) s"

definition or_else_enter :: "nat \<Rightarrow> stm \<Rightarrow> stm" where
  "or_else_enter t s = (let x = txs s ! t in set_tx t (x\<lparr>tx_retry :=
     \<lparr>ck_rlen = length (tx_rset x), ck_wlen = length (tx_wset x), ck_read_ver = tx_read_ver x, ck_second = False\<rparr> # tx_retry x\<rparr>) s)"

definition or_else_leave :: "nat \<Rightarrow> stm \<Rightarrow> stm option" where
  "or_else_leave t s = (let x = txs s ! t in if tx_retry x = [] then None else Some (set_tx t (x\<lparr>tx_retry := tl (tx_retry x)\<rparr>) s))"

text \<open>\<open>stm_tvar_read\<close>: the write set first, then version, value and version again.\<close>

definition got :: "nat \<Rightarrow> val \<Rightarrow> txstate \<Rightarrow> txstate" where
  "got a v x = x\<lparr>tx_got := tx_got x @ [(a, v)], tx_pc := Body\<rparr>"

definition read_start :: "nat \<Rightarrow> nat \<Rightarrow> stm \<Rightarrow> stm" where
  "read_start t a s = (let x = txs s ! t; pending = wset_lookup (tx_wset x) a; ver = tv_version (tv s a) in
     if pending \<noteq> V_UNDEF then set_tx t (got a pending x) s
     else if ver > tx_read_ver x then stm_retry t s
     else goto_pc t (Read_Value a ver) s)"

definition read_again :: "nat \<Rightarrow> nat \<Rightarrow> nat \<Rightarrow> val \<Rightarrow> stm \<Rightarrow> stm" where
  "read_again t a ver v s =
     (if tv_version (tv s a) \<noteq> ver then stm_retry t s else set_tx t (got a v (rset_add a ver v (txs s ! t))) s)"

text \<open>\<open>stm_tvar_write\<close> inside a transaction.\<close>

definition write_start :: "nat \<Rightarrow> nat \<Rightarrow> val \<Rightarrow> stm \<Rightarrow> stm" where
  "write_start t a v s = (let x = txs s ! t in set_tx t (x\<lparr>tx_wset := wset_put (tx_wset x) a v\<rparr>) s)"

text \<open>\<open>tx_commit\<close>: sort, lock, bump the clock, validate, apply, unlock, notify.\<close>

definition commit_start :: "nat \<Rightarrow> stm \<Rightarrow> stm" where
  "commit_start t s = (let x = txs s ! t in set_tx t (x\<lparr>tx_wset := sort_key fst (tx_wset x), tx_pc := Lock 0\<rparr>) s)"

definition commit_lock :: "nat \<Rightarrow> nat \<Rightarrow> stm \<Rightarrow> stm option" where
  "commit_lock t i s = (let ws = tx_wset (txs s ! t) in
     if i < length ws then map_option (goto_pc t (Lock (i + 1))) (lock_tv t (fst (ws ! i)) s)
     else Some (goto_pc t (Validate 0 (g_vclock s + 1)) (s\<lparr>g_vclock := g_vclock s + 1\<rparr>)))"

definition commit_validate :: "nat \<Rightarrow> nat \<Rightarrow> nat \<Rightarrow> stm \<Rightarrow> stm" where
  "commit_validate t i wv s = (let rs = tx_rset (txs s ! t) in
     if i < length rs
     then goto_pc t (if tv_version (tv s (re_tv (rs ! i))) \<noteq> re_ver (rs ! i) then Unlock 0 False else Validate (i + 1) wv) s
     else goto_pc t (Apply_Value 0 wv) s)"

definition commit_apply_value :: "nat \<Rightarrow> nat \<Rightarrow> nat \<Rightarrow> stm \<Rightarrow> stm" where
  "commit_apply_value t i wv s = (let ws = tx_wset (txs s ! t) in
     if i < length ws then goto_pc t (Apply_Version i wv) (store_value (fst (ws ! i)) (snd (ws ! i)) s)
     else goto_pc t (Unlock 0 True) s)"

definition commit_apply_version :: "nat \<Rightarrow> nat \<Rightarrow> nat \<Rightarrow> stm \<Rightarrow> stm" where
  "commit_apply_version t i wv s = goto_pc t (Apply_Value (i + 1) wv) (store_version (fst (tx_wset (txs s ! t) ! i)) wv s)"

definition commit_unlock :: "nat \<Rightarrow> nat \<Rightarrow> bool \<Rightarrow> stm \<Rightarrow> stm" where
  "commit_unlock t i valid s = (let ws = tx_wset (txs s ! t) in
     if i < length ws then goto_pc t (Unlock (i + 1) valid) (unlock_tv (fst (ws ! i)) s)
     else if valid then goto_pc t Notify s
     else stm_restart t s)"

definition wake_tx :: "txstate \<Rightarrow> txstate" where
  "wake_tx x = (if tx_pc x = Sleeping then x\<lparr>tx_pc := Woken\<rparr> else x)"

definition notify :: "nat \<Rightarrow> stm \<Rightarrow> stm" where
  "notify t s = goto_pc t Outside (s\<lparr>txs := map wake_tx (txs s)\<rparr>)"

text \<open>\<open>tx_wait_for_change\<close>: count the waiter in every variable read, sleep while the clock is that of the snapshot.\<close>

definition count_waiter :: "nat \<Rightarrow> int \<Rightarrow> stm \<Rightarrow> stm option" where
  "count_waiter a d s =
     (if tv_lock (tv s a) = None then Some (set_tv a ((tv s a)\<lparr>tv_waiters := tv_waiters (tv s a) + d\<rparr>) s) else None)"

definition wait_check :: "nat \<Rightarrow> stm \<Rightarrow> stm" where
  "wait_check t s = goto_pc t (if g_vclock s = tx_read_ver (txs s ! t) then Sleeping else Wait_Leave 0) s"

definition wait_enter :: "nat \<Rightarrow> nat \<Rightarrow> stm \<Rightarrow> stm option" where
  "wait_enter t i s = (let rs = tx_rset (txs s ! t) in
     if i < length rs then map_option (goto_pc t (Wait_Enter (i + 1))) (count_waiter (re_tv (rs ! i)) 1 s) else Some (wait_check t s))"

definition wait_leave :: "nat \<Rightarrow> nat \<Rightarrow> stm \<Rightarrow> stm option" where
  "wait_leave t i s = (let rs = tx_rset (txs s ! t) in
     if i < length rs then map_option (goto_pc t (Wait_Leave (i + 1))) (count_waiter (re_tv (rs ! i)) (-1) s) else Some (stm_restart t s))"

text \<open>
  What the program asks for next when its thread is free to choose; a thread inside an operation goes on with
  it. An exception that leaves the body ends the transaction without a commit. A read outside a transaction changes
  nothing, and neither do the calls that raise at once (an argument that is no variable, \<open>retry\<close> or \<open>or-else\<close>
  outside a transaction), so they are no steps.
\<close>

datatype tx_action = Do_Begin | Do_Read nat | Do_Write nat val | Do_Commit | Do_Retry | Do_Raise | Do_Or_Else | Do_Or_Else_Return | Go

fun body_step :: "nat \<Rightarrow> tx_action \<Rightarrow> stm \<Rightarrow> stm option" where
  "body_step t (Do_Read a) s = (if a < length (tvars s) then Some (read_start t a s) else None)"
| "body_step t (Do_Write a v) s = (if a < length (tvars s) then Some (write_start t a v s) else None)"
| "body_step t Do_Commit s = (if tx_retry (txs s ! t) = [] then Some (commit_start t s) else None)"
| "body_step t Do_Retry s = Some (stm_retry t s)"
| "body_step t Do_Raise s = Some (goto_pc t Outside s)"
| "body_step t Do_Or_Else s = Some (or_else_enter t s)"
| "body_step t Do_Or_Else_Return s = or_else_leave t s"
| "body_step t act s = None"

fun outside_step :: "nat \<Rightarrow> tx_action \<Rightarrow> stm \<Rightarrow> stm option" where
  "outside_step t Do_Begin s = Some (stm_begin t s)"
| "outside_step t (Do_Write a v) s = (if a < length (tvars s) then map_option (goto_pc t (Direct_Value a v)) (lock_tv t a s) else None)"
| "outside_step t act s = None"

fun op_step :: "nat \<Rightarrow> tx_pc \<Rightarrow> stm \<Rightarrow> stm option" where
  "op_step t (Read_Value a ver) s = Some (goto_pc t (Read_Again a ver (tv_value (tv s a))) s)"
| "op_step t (Read_Again a ver v) s = Some (read_again t a ver v s)"
| "op_step t (Lock i) s = commit_lock t i s"
| "op_step t (Validate i wv) s = Some (commit_validate t i wv s)"
| "op_step t (Apply_Value i wv) s = Some (commit_apply_value t i wv s)"
| "op_step t (Apply_Version i wv) s = Some (commit_apply_version t i wv s)"
| "op_step t (Unlock i valid) s = Some (commit_unlock t i valid s)"
| "op_step t Notify s = Some (notify t s)"
| "op_step t (Wait_Enter i) s = wait_enter t i s"
| "op_step t Sleeping s = Some (goto_pc t Woken s)"
| "op_step t Woken s = Some (wait_check t s)"
| "op_step t (Wait_Leave i) s = wait_leave t i s"
| "op_step t (Direct_Value a v) s = Some (goto_pc t (Direct_Bump a) (store_value a v s))"
| "op_step t (Direct_Bump a) s = Some (goto_pc t (Direct_Load a) (s\<lparr>g_vclock := g_vclock s + 1\<rparr>))"
| "op_step t (Direct_Load a) s = Some (goto_pc t (Direct_Version a (g_vclock s)) s)"
| "op_step t (Direct_Version a n) s = Some (goto_pc t (Direct_Unlock a) (store_version a n s))"
| "op_step t (Direct_Unlock a) s = Some (goto_pc t Notify (unlock_tv a s))"
| "op_step t pc s = None"

text \<open>\<open>Go\<close> on a sleeping thread is a wakeup without reason, which \<open>pthread_cond_wait\<close> may do.\<close>

definition stm_step :: "nat \<Rightarrow> tx_action \<Rightarrow> stm \<Rightarrow> stm option" where
  "stm_step t act s =
     (if length (txs s) \<le> t then None
      else case tx_pc (txs s ! t) of
        Outside \<Rightarrow> outside_step t act s
      | Body \<Rightarrow> body_step t act s
      | pc \<Rightarrow> if act = Go then op_step t pc s else None)"

fun stm_run :: "(nat \<times> tx_action) list \<Rightarrow> stm \<Rightarrow> stm option" where
  "stm_run [] s = Some s"
| "stm_run ((t, act) # sched) s = (case stm_step t act s of None \<Rightarrow> None | Some s' \<Rightarrow> stm_run sched s')"

definition new_stm :: "val list \<Rightarrow> nat \<Rightarrow> stm" where
  "new_stm vs n = \<lparr>g_vclock = 0, tvars = map stm_make_tvar vs, txs = replicate n tx_new\<rparr>"

end
