(* ===== verification/Stm_Props.thy ===== *)
theory Stm_Props
  imports Stm "HOL-Library.Multiset"
begin

text \<open>
  What the transactional memory guarantees between any interleaving of threads, proved by rely-guarantee
  reasoning: every thread's own invariant is kept by its steps and by the changes other threads may make. A
  read-modify-write of one variable is never lost and committing threads never deadlock. Atomicity over
  several variables, the isolation of the first alternative of an \<open>or-else\<close> and the wakeup of a retrying thread do not hold.
\<close>

section \<open>Rely and guarantee\<close>

text \<open>
  Threads that act on a shared state: what a thread relies on keeps its invariant, and a step of a thread keeps
  its own invariant, the global one, and what every other thread relies on.
\<close>

locale interleaved =
  fixes ok :: "nat \<Rightarrow> 'x \<Rightarrow> 'g \<Rightarrow> bool" and global_ok :: "'g \<Rightarrow> bool" and rely :: "nat \<Rightarrow> 'g \<Rightarrow> 'g \<Rightarrow> bool"
    and acts :: "nat \<Rightarrow> 'x \<Rightarrow> 'g \<Rightarrow> 'x \<Rightarrow> 'g \<Rightarrow> bool"
  assumes stable: "ok u y g \<Longrightarrow> rely u g g' \<Longrightarrow> ok u y g'"
    and guarantee: "acts t x g x' g' \<Longrightarrow> ok t x g \<Longrightarrow> global_ok g \<Longrightarrow> ok t x' g' \<and> global_ok g' \<and> (\<forall>u. u \<noteq> t \<longrightarrow> rely u g g')"
begin

lemma all_ok_step:
  assumes "acts t (xs ! t) g x' g'" "t < length xs" "global_ok g" "\<forall>u < length xs. ok u (xs ! u) g"
  shows "global_ok g' \<and> (\<forall>u < length xs. ok u (xs[t := x'] ! u) g')"
proof -
  have g: "ok t x' g' \<and> global_ok g' \<and> (\<forall>u. u \<noteq> t \<longrightarrow> rely u g g')" using guarantee [OF assms(1)] assms(2-4) by blast
  then have "ok u (xs[t := x'] ! u) g'" if "u < length xs" for u
    using stable [of u "xs ! u" g g'] assms(2,4) that by (cases "u = t") auto
  with g show ?thesis by blast
qed

end

section \<open>The invariant of a thread\<close>

text \<open>The variables a thread has locked, and the one between its value and its version store.\<close>

definition wkeys :: "txstate \<Rightarrow> nat list" where
  "wkeys x = map fst (tx_wset x)"

definition held :: "txstate \<Rightarrow> nat set" where
  "held x = (case tx_pc x of
     Lock i \<Rightarrow> set (take i (wkeys x)) | Validate _ _ \<Rightarrow> set (wkeys x) | Apply_Value _ _ \<Rightarrow> set (wkeys x) | Apply_Version _ _ \<Rightarrow> set (wkeys x)
   | Unlock i _ \<Rightarrow> set (drop i (wkeys x))
   | Direct_Value a _ \<Rightarrow> {a} | Direct_Bump a \<Rightarrow> {a} | Direct_Load a \<Rightarrow> {a} | Direct_Version a _ \<Rightarrow> {a} | Direct_Unlock a \<Rightarrow> {a}
   | _ \<Rightarrow> {})"

definition mid :: "txstate \<Rightarrow> nat set" where
  "mid x = (case tx_pc x of
     Apply_Version i _ \<Rightarrow> {wkeys x ! i} | Direct_Bump a \<Rightarrow> {a} | Direct_Load a \<Rightarrow> {a} | Direct_Version a _ \<Rightarrow> {a} | _ \<Rightarrow> {})"

text \<open>What a thread has seen of a variable: its version, and its value unless a store of it was under way.\<close>

definition saw :: "tvar list \<Rightarrow> nat \<Rightarrow> nat \<Rightarrow> val \<Rightarrow> bool" where
  "saw T a ver v \<longleftrightarrow> a < length T \<and> ver \<le> tv_version (T ! a) \<and>
     (tv_version (T ! a) = ver \<and> \<not> tv_dirty (T ! a) \<longrightarrow> tv_value (T ! a) = v)"

definition reads_ok :: "tvar list \<Rightarrow> txstate \<Rightarrow> bool" where
  "reads_ok T x \<longleftrightarrow> (\<forall>r\<in>set (tx_rset x). saw T (re_tv r) (re_ver r) (re_val r)) \<and>
     (case tx_pc x of
        Read_Value a ver \<Rightarrow> a < length T \<and> ver \<le> tv_version (T ! a)
      | Read_Again a ver v \<Rightarrow> saw T a ver v
      | _ \<Rightarrow> True)"

text \<open>The read entries of variables in \<open>A\<close> hold the current version.\<close>

definition current :: "tvar list \<Rightarrow> rentry list \<Rightarrow> nat set \<Rightarrow> bool" where
  "current T rs A \<longleftrightarrow> (\<forall>r\<in>set rs. re_tv r \<in> A \<longrightarrow> tv_version (T ! re_tv r) = re_ver r)"

definition older :: "tvar list \<Rightarrow> nat \<Rightarrow> nat set \<Rightarrow> bool" where
  "older T wv A \<longleftrightarrow> (\<forall>a\<in>A. tv_version (T ! a) < wv)"

text \<open>Where a commit or a direct write stands.\<close>

definition commit_ok :: "nat \<Rightarrow> tvar list \<Rightarrow> txstate \<Rightarrow> bool" where
  "commit_ok clock T x \<longleftrightarrow> (let ks = wkeys x; n = length ks in
     case tx_pc x of
       Lock i \<Rightarrow> sorted ks \<and> i \<le> n
     | Validate i wv \<Rightarrow> wv \<le> clock \<and> older T wv (set ks) \<and> current T (take i (tx_rset x)) (set ks)
     | Apply_Value i wv \<Rightarrow> wv \<le> clock \<and> i \<le> n \<and> older T wv (set (drop i ks)) \<and> current T (tx_rset x) (set (drop i ks))
     | Apply_Version i wv \<Rightarrow> wv \<le> clock \<and> i < n \<and> older T wv (set (drop i ks)) \<and> current T (tx_rset x) (set (drop i ks))
     | Unlock i _ \<Rightarrow> i \<le> n
     | Direct_Value a _ \<Rightarrow> a < length T
     | Direct_Bump a \<Rightarrow> a < length T
     | Direct_Load a \<Rightarrow> a < length T \<and> tv_version (T ! a) < clock
     | Direct_Version a n \<Rightarrow> a < length T \<and> tv_version (T ! a) < n \<and> n \<le> clock
     | Direct_Unlock a \<Rightarrow> a < length T
     | _ \<Rightarrow> True)"

definition locks_ok :: "nat \<Rightarrow> tvar list \<Rightarrow> txstate \<Rightarrow> bool" where
  "locks_ok t T x \<longleftrightarrow> (\<forall>a < length T. (tv_lock (T ! a) = Some t \<longleftrightarrow> a \<in> held x) \<and> (a \<in> held x \<longrightarrow> (tv_dirty (T ! a) \<longleftrightarrow> a \<in> mid x)))"

type_synonym shared = "nat \<times> tvar list"

fun thread_ok :: "nat \<Rightarrow> txstate \<Rightarrow> shared \<Rightarrow> bool" where
  "thread_ok t x (clock, T) \<longleftrightarrow> distinct (wkeys x) \<and> set (wkeys x) \<subseteq> {..<length T} \<and> locks_ok t T x \<and> reads_ok T x \<and> commit_ok clock T x"

fun shared_ok :: "nat \<Rightarrow> shared \<Rightarrow> bool" where
  "shared_ok m (clock, T) \<longleftrightarrow> (\<forall>a < length T. tv_version (T ! a) \<le> clock \<and> (tv_dirty (T ! a) \<longrightarrow> tv_lock (T ! a) \<noteq> None) \<and>
     (\<forall>t. tv_lock (T ! a) = Some t \<longrightarrow> t < m))"

text \<open>
  Versions never get older, and a value that is there to be read under the same version is the same value.
\<close>

definition evolves :: "tvar \<Rightarrow> tvar \<Rightarrow> bool" where
  "evolves v v' \<longleftrightarrow> tv_version v \<le> tv_version v' \<and>
     (tv_version v' = tv_version v \<and> \<not> tv_dirty v' \<longrightarrow> \<not> tv_dirty v \<and> tv_value v' = tv_value v)"

text \<open>What a thread relies on: the others leave its locks and what it has locked alone, and all variables evolve.\<close>

fun tx_rely :: "nat \<Rightarrow> shared \<Rightarrow> shared \<Rightarrow> bool" where
  "tx_rely u (c, T) (c', T') \<longleftrightarrow> c \<le> c' \<and> length T' = length T \<and>
     (\<forall>a < length T. (tv_lock (T' ! a) = Some u \<longleftrightarrow> tv_lock (T ! a) = Some u) \<and>
        (tv_lock (T ! a) = Some u \<longrightarrow> tv_version (T' ! a) = tv_version (T ! a) \<and> tv_dirty (T' ! a) = tv_dirty (T ! a)) \<and>
        evolves (T ! a) (T' ! a))"

section \<open>Stability\<close>

lemma evolves_refl [simp]: "evolves v v"
  by (simp add: evolves_def)

abbreviation all_evolve :: "tvar list \<Rightarrow> tvar list \<Rightarrow> bool" where
  "all_evolve T T' \<equiv> length T' = length T \<and> (\<forall>a < length T. evolves (T ! a) (T' ! a))"

lemma all_evolve_update: "evolves (T ! a) v \<Longrightarrow> all_evolve T (T[a := v])"
  by (cases "a < length T") (auto simp: nth_list_update)

lemma saw_stable: "saw T a ver v \<Longrightarrow> all_evolve T T' \<Longrightarrow> saw T' a ver v"
  unfolding saw_def evolves_def by (metis le_antisym order_trans)

lemma reads_stable: "reads_ok T x \<Longrightarrow> all_evolve T T' \<Longrightarrow> reads_ok T' x"
  unfolding reads_ok_def by (auto intro: saw_stable split: tx_pc.splits) (auto simp: evolves_def intro: order_trans)

lemma locks_stable: "locks_ok u T x \<Longrightarrow> tx_rely u (c, T) (c', T') \<Longrightarrow> locks_ok u T' x"
  by (auto simp: locks_ok_def)

lemma held_same:
  assumes "locks_ok u T x" "tx_rely u (c, T) (c', T')" "a \<in> held x" "a < length T"
  shows "tv_version (T' ! a) = tv_version (T ! a)"
  using assms by (auto simp: locks_ok_def)

lemma older_same: "older T wv A \<Longrightarrow> \<forall>a\<in>A. tv_version (T' ! a) = tv_version (T ! a) \<Longrightarrow> older T' wv A"
  by (simp add: older_def)

lemma current_same: "current T rs A \<Longrightarrow> \<forall>a\<in>A. tv_version (T' ! a) = tv_version (T ! a) \<Longrightarrow> current T' rs A"
  by (simp add: current_def)

lemma commit_ok_same:
  assumes "commit_ok c T x" "c \<le> c'" "length T' = length T" "\<forall>a\<in>held x. tv_version (T' ! a) = tv_version (T ! a)"
  shows "commit_ok c' T' x"
  using assms unfolding commit_ok_def held_def Let_def
  by (cases "tx_pc x") (auto dest: older_same current_same in_set_dropD intro: order_trans simp: older_same [of T] current_same [of T] in_set_dropD)

lemma held_bounded:
  assumes "commit_ok c T x" "set (wkeys x) \<subseteq> {..<length T}"
  shows "held x \<subseteq> {..<length T}"
  using assms unfolding held_def commit_ok_def
  by (cases "tx_pc x") (auto dest: in_set_takeD in_set_dropD)

lemma thread_stable: "thread_ok u y g \<Longrightarrow> tx_rely u g g' \<Longrightarrow> thread_ok u y g'"
proof -
  assume ok: "thread_ok u y g" and rely: "tx_rely u g g'"
  obtain c T c' T' where g: "g = (c, T)" "g' = (c', T')" by (cases g, cases g')
  have len: "length T' = length T" "c \<le> c'" using rely g by auto
  have "tv_version (T' ! a) = tv_version (T ! a)" if "a \<in> held y" for a
    using held_same [of u T y c c' T' a] held_bounded [of c T y] ok rely g that by (auto simp del: tx_rely.simps)
  then have "commit_ok c' T' y" using ok g len by (auto intro: commit_ok_same)
  then show ?thesis using ok rely g len reads_stable [of T y T'] locks_stable [of u T y c c' T'] by auto
qed

section \<open>Changes of the shared state\<close>

lemma rely_refl: "tx_rely u g g"
  by (cases g) auto

lemma rely_clock: "c \<le> c' \<Longrightarrow> tx_rely u (c, T) (c', T)"
  by auto

text \<open>An update of one variable that the thread itself has locked, or whose lock it takes or gives back.\<close>

lemma rely_update:
  assumes "a < length T" "tv_lock (T ! a) \<noteq> Some u" "tv_lock v \<noteq> Some u" "evolves (T ! a) v"
  shows "tx_rely u (c, T) (c, T[a := v])"
  using assms by (auto simp: nth_list_update)

definition keeps :: "nat \<Rightarrow> nat \<Rightarrow> shared \<Rightarrow> txstate \<Rightarrow> shared \<Rightarrow> bool" where
  "keeps m t g x' g' \<longleftrightarrow> thread_ok t x' g' \<and> shared_ok m g' \<and> (\<forall>u. u \<noteq> t \<longrightarrow> tx_rely u g g')"

lemma keeps_local: "shared_ok m g \<Longrightarrow> thread_ok t x' g \<Longrightarrow> keeps m t g x' g"
  by (simp add: keeps_def rely_refl)

lemma keeps_clock: "shared_ok m (c, T) \<Longrightarrow> c \<le> c' \<Longrightarrow> thread_ok t x' (c', T) \<Longrightarrow> keeps m t (c, T) x' (c', T)"
  unfolding keeps_def by (auto intro: order_trans)

lemma keeps_update:
  assumes "shared_ok m (c, T)" "a < length T" "tv_lock (T ! a) \<in> {None, Some t}" "tv_lock v \<in> {None, Some t}" "t < m"
    and "evolves (T ! a) v" "tv_version v \<le> c" "tv_dirty v \<Longrightarrow> tv_lock v \<noteq> None" "thread_ok t x' (c, T[a := v])"
  shows "keeps m t (c, T) x' (c, T[a := v])"
proof -
  have "tx_rely u (c, T) (c, T[a := v])" if "u \<noteq> t" for u using assms that by (intro rely_update) auto
  moreover have "shared_ok m (c, T[a := v])" using assms by (auto simp: nth_list_update)
  ultimately show ?thesis using assms(9) by (simp add: keeps_def del: tx_rely.simps shared_ok.simps thread_ok.simps)
qed

lemma locks_update:
  assumes "locks_ok t T x" "a < length T" "\<And>b. b \<noteq> a \<Longrightarrow> (b \<in> held x' \<longleftrightarrow> b \<in> held x) \<and> (b \<in> mid x' \<longleftrightarrow> b \<in> mid x)"
    and "tv_lock v = Some t \<longleftrightarrow> a \<in> held x'" "a \<in> held x' \<Longrightarrow> tv_dirty v \<longleftrightarrow> a \<in> mid x'"
  shows "locks_ok t (T[a := v]) x'"
  using assms by (auto simp: locks_ok_def nth_list_update)

section \<open>Local steps\<close>

fun quiet :: "tx_pc \<Rightarrow> bool" where
  "quiet Outside \<longleftrightarrow> True"
| "quiet Body \<longleftrightarrow> True"
| "quiet Notify \<longleftrightarrow> True"
| "quiet (Wait_Enter _) \<longleftrightarrow> True"
| "quiet Sleeping \<longleftrightarrow> True"
| "quiet Woken \<longleftrightarrow> True"
| "quiet (Wait_Leave _) \<longleftrightarrow> True"
| "quiet _ \<longleftrightarrow> False"

lemma quiet_held: "quiet (tx_pc x) \<Longrightarrow> held x = {} \<and> mid x = {}"
  by (cases "tx_pc x") (auto simp: held_def mid_def)

lemma quiet_ok:
  assumes "quiet (tx_pc x)"
  shows "reads_ok T x \<longleftrightarrow> (\<forall>r\<in>set (tx_rset x). saw T (re_tv r) (re_ver r) (re_val r))" and "commit_ok c T x"
  using assms by (cases "tx_pc x"; simp add: reads_ok_def commit_ok_def)+

lemma locks_none: "locks_ok t T x \<Longrightarrow> held x = {} \<Longrightarrow> held x' = {} \<Longrightarrow> locks_ok t T x'"
  by (simp add: locks_ok_def)

lemma reads_rset: "reads_ok T x \<Longrightarrow> r \<in> set (tx_rset x) \<Longrightarrow> saw T (re_tv r) (re_ver r) (re_val r)"
  by (simp add: reads_ok_def)

lemma ok_quiet:
  assumes "thread_ok t x (c, T)" "held x = {}" "quiet (tx_pc x')"
    and "set (tx_rset x') \<subseteq> set (tx_rset x)" "distinct (wkeys x')" "set (wkeys x') \<subseteq> {..<length T}"
  shows "thread_ok t x' (c, T)"
proof -
  have "reads_ok T x'" using assms(1,4) by (auto simp: quiet_ok(1) [OF assms(3)] dest: reads_rset subsetD)
  then show ?thesis using assms quiet_held [OF assms(3)] locks_none [of t T x x'] by (simp add: quiet_ok(2))
qed

lemma wset_put_keys: "set (map fst (wset_put ws a v)) = insert a (set (map fst ws))"
  by (induction ws a v rule: wset_put.induct) auto

lemma wset_put_distinct: "distinct (map fst (wset_put ws a v)) \<longleftrightarrow> distinct (map fst ws)"
proof (induction ws a v rule: wset_put.induct)
  case (2 b w ws a v)
  then show ?case using wset_put_keys [of ws a v] by auto
qed simp

lemma retry_ok:
  assumes "thread_ok t x (c, T)" "held x = {}"
  shows "thread_ok t (retry_to cs x) (c, T)"
proof -
  have "set (tx_rset (retry_to cs x)) \<subseteq> set (tx_rset x) \<and> quiet (tx_pc (retry_to cs x)) \<and>
      (\<exists>n. tx_wset (retry_to cs x) = take n (tx_wset x))"
  proof (induction cs x rule: retry_to.induct)
    case (2 k cs x)
    then show ?case by (auto simp: Let_def dest: in_set_takeD)
  qed (simp, metis order_refl take_all)
  then obtain n where "set (tx_rset (retry_to cs x)) \<subseteq> set (tx_rset x)" "quiet (tx_pc (retry_to cs x))"
    "wkeys (retry_to cs x) = take n (wkeys x)" by (auto simp: wkeys_def take_map)
  then show ?thesis using assms by (intro ok_quiet [OF assms]) (auto dest: in_set_takeD)
qed

section \<open>Every step keeps the invariants\<close>

definition glob :: "stm \<Rightarrow> shared" where
  "glob s = (g_vclock s, tvars s)"

definition good :: "nat \<Rightarrow> nat \<Rightarrow> stm \<Rightarrow> bool" where
  "good m t s \<longleftrightarrow> t < length (txs s) \<and> t < m \<and> thread_ok t (txs s ! t) (glob s) \<and> shared_ok m (glob s)"

definition kept :: "nat \<Rightarrow> nat \<Rightarrow> stm \<Rightarrow> stm \<Rightarrow> bool" where
  "kept m t s s' \<longleftrightarrow> keeps m t (glob s) (txs s' ! t) (glob s')"

lemma access [simp]:
  "glob (set_tx t x s) = glob s" "t < length (txs s) \<Longrightarrow> txs (set_tx t x s) ! t = x" "txs (set_tv a v s) = txs s"
  "glob (set_tv a v s) = (g_vclock s, (tvars s)[a := v])" "glob (goto_pc t pc s) = glob s"
  "t < length (txs s) \<Longrightarrow> txs (goto_pc t pc s) ! t = (txs s ! t)\<lparr>tx_pc := pc\<rparr>"
  "glob (s\<lparr>g_vclock := n\<rparr>) = (n, tvars s)"
  by (auto simp: glob_def set_tx_def set_tv_def goto_pc_def)

lemma wkeys_pc [simp]: "wkeys (x\<lparr>tx_pc := pc\<rparr>) = wkeys x"
  by (simp add: wkeys_def)

lemma kept_local: "good m t s \<Longrightarrow> thread_ok t x' (glob s) \<Longrightarrow> kept m t s (set_tx t x' s)"
  by (simp add: good_def kept_def keeps_local)

lemma kept_quiet:
  assumes "good m t s" "held (txs s ! t) = {}" "quiet (tx_pc x')" "set (tx_rset x') \<subseteq> set (tx_rset (txs s ! t))"
    and "distinct (wkeys (txs s ! t)) \<Longrightarrow> distinct (wkeys x')" "set (wkeys x') \<subseteq> insert a (set (wkeys (txs s ! t)))" "a < length (tvars s) \<or> set (wkeys x') \<subseteq> set (wkeys (txs s ! t))"
  shows "kept m t s (set_tx t x' s)"
  using assms by (intro kept_local) (auto simp: good_def glob_def intro!: ok_quiet [where x = "txs s ! t"] simp del: thread_ok.simps, auto)

lemma kept_retry: "good m t s \<Longrightarrow> held (txs s ! t) = {} \<Longrightarrow> kept m t s (stm_retry t s)"
  by (auto simp: stm_retry_def Let_def glob_def good_def intro!: kept_local retry_ok simp del: thread_ok.simps)

lemma kept_begin: "good m t s \<Longrightarrow> held (txs s ! t) = {} \<Longrightarrow> kept m t s (stm_begin t s)"
  unfolding stm_begin_def by (rule kept_quiet) (auto simp: tx_reset_def tx_new_def wkeys_def)

lemma kept_restart: "good m t s \<Longrightarrow> held (txs s ! t) = {} \<Longrightarrow> kept m t s (stm_restart t s)"
  unfolding stm_restart_def by (rule kept_quiet) (auto simp: tx_reset_def wkeys_def)

lemma kept_write: "good m t s \<Longrightarrow> tx_pc (txs s ! t) = Body \<Longrightarrow> a < length (tvars s) \<Longrightarrow> kept m t s (write_start t a v s)"
  unfolding write_start_def Let_def
  by (rule kept_quiet [where a = a]) (auto simp: held_def wkeys_def wset_put_distinct wset_put_keys simp flip: set_map)

lemma goodD:
  assumes "good m t s"
  shows "distinct (wkeys (txs s ! t))" "a \<in> set (wkeys (txs s ! t)) \<Longrightarrow> a < length (tvars s)" "locks_ok t (tvars s) (txs s ! t)"
    "reads_ok (tvars s) (txs s ! t)" "commit_ok (g_vclock s) (tvars s) (txs s ! t)" "t < length (txs s)" "t < m"
    "shared_ok m (g_vclock s, tvars s)"
  using assms by (auto simp: good_def glob_def)

text \<open>A local step that changes only the program counter.\<close>

lemma kept_pc:
  assumes "good m t s" "held ((txs s ! t)\<lparr>tx_pc := pc\<rparr>) = held (txs s ! t)" "mid ((txs s ! t)\<lparr>tx_pc := pc\<rparr>) = mid (txs s ! t)"
    and "reads_ok (tvars s) ((txs s ! t)\<lparr>tx_pc := pc\<rparr>)" "commit_ok (g_vclock s) (tvars s) ((txs s ! t)\<lparr>tx_pc := pc\<rparr>)"
  shows "kept m t s (goto_pc t pc s)"
  unfolding goto_pc_def using assms goodD [OF assms(1)] by (intro kept_local) (auto simp: glob_def locks_ok_def)

lemma reads_pc: "reads_ok T x \<Longrightarrow> (\<And>a ver v. pc \<noteq> Read_Value a ver \<and> pc \<noteq> Read_Again a ver v) \<Longrightarrow> reads_ok T (x\<lparr>tx_pc := pc\<rparr>)"
  by (cases pc) (auto simp: reads_ok_def)

lemma kept_read_start:
  assumes "good m t s" "tx_pc (txs s ! t) = Body" "a < length (tvars s)"
  shows "kept m t s (read_start t a s)"
proof -
  have "kept m t s (set_tx t (got a v (txs s ! t)) s)" for v
    using assms by (intro kept_quiet) (auto simp: got_def held_def wkeys_def)
  moreover have "kept m t s (goto_pc t (Read_Value a (tv_version (tv s a))) s)"
    using assms goodD(4) [OF assms(1)] by (intro kept_pc) (auto simp: held_def mid_def reads_ok_def commit_ok_def)
  ultimately show ?thesis using assms kept_retry [OF assms(1)] by (simp add: read_start_def Let_def held_def)
qed

lemma kept_read_value:
  assumes "good m t s" "tx_pc (txs s ! t) = Read_Value a ver"
  shows "kept m t s (goto_pc t (Read_Again a ver (tv_value (tv s a))) s)"
  using assms goodD(4) [OF assms(1)] by (intro kept_pc) (auto simp: held_def mid_def reads_ok_def commit_ok_def saw_def)

lemma kept_read_again:
  assumes "good m t s" "tx_pc (txs s ! t) = Read_Again a ver v"
  shows "kept m t s (read_again t a ver v s)"
proof -
  have "held (txs s ! t) = {}" using assms(2) by (simp add: held_def)
  moreover have "kept m t s (set_tx t (got a v (rset_add a ver v (txs s ! t))) s)"
    using assms goodD [OF assms(1)]
    by (intro kept_local) (auto simp: glob_def got_def rset_add_def wkeys_def locks_ok_def held_def reads_ok_def commit_ok_def)
  ultimately show ?thesis using kept_retry [OF assms(1)] by (simp add: read_again_def)
qed

lemma kept_commit_start:
  assumes "good m t s" "tx_pc (txs s ! t) = Body"
  shows "kept m t s (commit_start t s)"
proof -
  have "mset (map fst (sort_key fst (tx_wset (txs s ! t)))) = mset (wkeys (txs s ! t))" by (simp add: wkeys_def)
  then have "distinct (map fst (sort_key fst (tx_wset (txs s ! t))))" using goodD(1) [OF assms(1)] mset_eq_imp_distinct_iff by blast
  then show ?thesis unfolding commit_start_def Let_def using assms goodD [OF assms(1)]
    by (intro kept_local) (auto simp: glob_def wkeys_def locks_ok_def held_def reads_ok_def commit_ok_def)
qed

text \<open>A step that updates one variable, and one that bumps the clock.\<close>

lemma kept_update:
  fixes pc :: tx_pc and s :: stm and t :: nat
  defines "x' \<equiv> (txs s ! t)\<lparr>tx_pc := pc\<rparr>"
  assumes "good m t s" "a < length (tvars s)" "tv_lock (tv s a) \<in> {None, Some t}" "tv_lock v \<in> {None, Some t}"
    and "evolves (tv s a) v" "tv_version v \<le> g_vclock s" "tv_dirty v \<Longrightarrow> tv_lock v \<noteq> None"
    and "\<And>b. b \<noteq> a \<Longrightarrow> (b \<in> held x' \<longleftrightarrow> b \<in> held (txs s ! t)) \<and> (b \<in> mid x' \<longleftrightarrow> b \<in> mid (txs s ! t))"
    and "tv_lock v = Some t \<longleftrightarrow> a \<in> held x'" "a \<in> held x' \<Longrightarrow> tv_dirty v \<longleftrightarrow> a \<in> mid x'"
    and "\<And>b ver v. pc \<noteq> Read_Value b ver \<and> pc \<noteq> Read_Again b ver v" "commit_ok (g_vclock s) ((tvars s)[a := v]) x'"
  shows "kept m t s (goto_pc t pc (set_tv a v s))"
proof -
  note g = goodD [OF assms(2)]
  have "locks_ok t ((tvars s)[a := v]) x'" by (rule locks_update [OF g(3) assms(3)]) (use assms in auto)
  moreover have "reads_ok ((tvars s)[a := v]) x'"
    using reads_stable [OF g(4) all_evolve_update [OF assms(6)]] assms(12) unfolding x'_def by (rule reads_pc)
  ultimately have "thread_ok t x' (g_vclock s, (tvars s)[a := v])" using g(1,2) assms(13) by (auto simp: x'_def)
  then have "keeps m t (g_vclock s, tvars s) x' (g_vclock s, (tvars s)[a := v])"
    using g(7,8) assms by (intro keeps_update) simp_all
  with g(6) show ?thesis by (simp add: kept_def glob_def [of s] x'_def)
qed

lemma kept_bump:
  fixes pc :: tx_pc and s :: stm and t :: nat
  defines "x' \<equiv> (txs s ! t)\<lparr>tx_pc := pc\<rparr>"
  assumes "good m t s" "held x' = held (txs s ! t)" "mid x' = mid (txs s ! t)"
    and "\<And>b ver v. pc \<noteq> Read_Value b ver \<and> pc \<noteq> Read_Again b ver v" "commit_ok (g_vclock s + 1) (tvars s) x'"
  shows "kept m t s (goto_pc t pc (s\<lparr>g_vclock := g_vclock s + 1\<rparr>))"
proof -
  note g = goodD [OF assms(2)]
  have "reads_ok (tvars s) x'" unfolding x'_def using g(4) assms(5) by (rule reads_pc)
  then have "thread_ok t x' (g_vclock s + 1, tvars s)" using g(1-3) assms by (auto simp: locks_ok_def)
  then have "keeps m t (g_vclock s, tvars s) x' (g_vclock s + 1, tvars s)" using g(8) by (intro keeps_clock) simp_all
  then show ?thesis using g(6) by (simp add: kept_def glob_def [of s] x'_def)
qed

lemma kept_lock:
  assumes "good m t s" "tx_pc (txs s ! t) = Lock i" "commit_lock t i s = Some s'"
  shows "kept m t s s'"
proof (cases "i < length (wkeys (txs s ! t))")
  case True
  let ?a = "wkeys (txs s ! t) ! i"
  note g = goodD [OF assms(1)]
  have lock: "tv_lock (tv s ?a) = None" "s' = goto_pc t (Lock (i + 1)) (set_tv ?a ((tv s ?a)\<lparr>tv_lock := Some t\<rparr>) s)"
    using assms(3) True by (auto simp: commit_lock_def wkeys_def Let_def lock_tv_def split: if_splits)
  have a: "?a < length (tvars s)" using True by (intro g(2)) simp
  then show ?thesis unfolding lock(2) using g(5,8) assms(2) True lock(1)
    by (intro kept_update [OF assms(1)]) (auto simp: evolves_def held_def mid_def commit_ok_def take_Suc_conv_app_nth Let_def)
next
  case False
  note g = goodD [OF assms(1)]
  have "older (tvars s) (g_vclock s + 1) (set (wkeys (txs s ! t)))" using g(2,8) by (auto simp: older_def less_Suc_eq_le)
  then have "kept m t s (goto_pc t (Validate 0 (g_vclock s + 1)) (s\<lparr>g_vclock := g_vclock s + 1\<rparr>))"
    using assms(2) False by (intro kept_bump [OF assms(1)]) (auto simp: held_def mid_def commit_ok_def current_def)
  then show ?thesis using assms(3) False by (simp add: commit_lock_def wkeys_def Let_def)
qed

lemma current_snoc: "i < length rs \<Longrightarrow> current T (take (Suc i) rs) A \<longleftrightarrow> current T (take i rs) A \<and> (re_tv (rs ! i) \<in> A \<longrightarrow> tv_version (T ! re_tv (rs ! i)) = re_ver (rs ! i))"
  by (auto simp: current_def take_Suc_conv_app_nth)

lemma kept_validate:
  assumes "good m t s" "tx_pc (txs s ! t) = Validate i wv"
  shows "kept m t s (commit_validate t i wv s)"
proof -
  note g = goodD [OF assms(1)]
  have "kept m t s (goto_pc t (Unlock 0 False) s)"
    using assms g(4) by (intro kept_pc) (auto simp: held_def mid_def commit_ok_def intro: reads_pc)
  moreover have "kept m t s (goto_pc t (Validate (i + 1) wv) s)"
    if "i < length (tx_rset (txs s ! t))" "tv_version (tv s (re_tv (tx_rset (txs s ! t) ! i))) = re_ver (tx_rset (txs s ! t) ! i)"
    using assms g(4,5) that by (intro kept_pc) (auto simp: held_def mid_def commit_ok_def Let_def current_snoc intro: reads_pc)
  moreover have "kept m t s (goto_pc t (Apply_Value 0 wv) s)" if "\<not> i < length (tx_rset (txs s ! t))"
    using assms g(4,5) that by (intro kept_pc) (auto simp: held_def mid_def commit_ok_def Let_def intro: reads_pc)
  ultimately show ?thesis by (simp add: commit_validate_def Let_def)
qed

lemma wkeys_fst: "i < length (tx_wset x) \<Longrightarrow> fst (tx_wset x ! i) = wkeys x ! i" "length (tx_wset x) = length (wkeys x)"
  by (simp_all add: wkeys_def)

lemma older_update: "a \<notin> A \<Longrightarrow> older (T[a := v]) wv A \<longleftrightarrow> older T wv A"
  by (auto simp: older_def) (metis nth_list_update_neq)+

lemma current_update: "a \<notin> A \<Longrightarrow> current (T[a := v]) rs A \<longleftrightarrow> current T rs A"
  by (auto simp: current_def) (metis nth_list_update_neq)+

lemma same_version_update:
  assumes "tv_version v = tv_version (T ! a)"
  shows "older (T[a := v]) wv A \<longleftrightarrow> older T wv A" "current (T[a := v]) rs A \<longleftrightarrow> current T rs A"
proof -
  have "tv_version (T[a := v] ! b) = tv_version (T ! b)" for b
    using assms by (cases "b = a"; cases "a < length T") (simp_all add: list_update_beyond)
  then show "older (T[a := v]) wv A \<longleftrightarrow> older T wv A" "current (T[a := v]) rs A \<longleftrightarrow> current T rs A"
    by (simp_all add: older_def current_def)
qed

text \<open>The lock of a variable that the thread holds.\<close>

lemma held_lock: "good m t s \<Longrightarrow> a \<in> held (txs s ! t) \<Longrightarrow> a < length (tvars s) \<Longrightarrow> tv_lock (tv s a) = Some t \<and> (tv_dirty (tv s a) \<longleftrightarrow> a \<in> mid (txs s ! t))"
  using goodD(3) by (auto simp: locks_ok_def)

lemma kept_apply_value:
  assumes "good m t s" "tx_pc (txs s ! t) = Apply_Value i wv"
  shows "kept m t s (commit_apply_value t i wv s)"
proof (cases "i < length (wkeys (txs s ! t))")
  case True
  let ?a = "wkeys (txs s ! t) ! i"
  note g = goodD [OF assms(1)]
  have a: "?a < length (tvars s)" using True by (intro g(2)) simp
  have "tv_lock (tv s ?a) = Some t" using held_lock [OF assms(1) _ a] assms(2) True by (simp add: held_def)
  moreover have "tv_version (tv s ?a) \<le> g_vclock s" using g(8) a by simp
  ultimately show ?thesis unfolding commit_apply_value_def store_value_def using True a assms(2) g(5)
    by (auto simp: wkeys_fst Let_def evolves_def held_def mid_def commit_ok_def same_version_update intro!: kept_update [OF assms(1)])
next
  case False
  then show ?thesis unfolding commit_apply_value_def using assms goodD(4) [OF assms(1)]
    by (auto simp: wkeys_fst Let_def held_def mid_def commit_ok_def intro!: kept_pc intro: reads_pc)
qed

lemma drop_nth_notin:
  assumes "distinct ks" "i < length ks"
  shows "ks ! i \<notin> set (drop (Suc i) ks) \<and> set (drop i ks) = insert (ks ! i) (set (drop (Suc i) ks))"
proof -
  have "drop i ks = ks ! i # drop (Suc i) ks" using assms(2) by (rule Cons_nth_drop_Suc [symmetric])
  moreover have "distinct (drop i ks)" using assms(1) by (rule distinct_drop)
  ultimately show ?thesis by auto
qed

lemma kept_apply_version:
  assumes "good m t s" "tx_pc (txs s ! t) = Apply_Version i wv"
  shows "kept m t s (commit_apply_version t i wv s)"
proof -
  let ?a = "wkeys (txs s ! t) ! i" and ?ks = "wkeys (txs s ! t)"
  note g = goodD [OF assms(1)]
  have c: "wv \<le> g_vclock s" "i < length ?ks" "older (tvars s) wv (set (drop i ?ks))" "current (tvars s) (tx_rset (txs s ! t)) (set (drop i ?ks))"
    using g(5) assms(2) by (auto simp: commit_ok_def Let_def)
  have a: "?a < length (tvars s)" using c(2) by (intro g(2)) simp
  have rest: "?a \<notin> set (drop (Suc i) ?ks)" "set (drop i ?ks) = insert ?a (set (drop (Suc i) ?ks))" using drop_nth_notin [OF g(1) c(2)] by auto
  then have new: "tv_version (tv s ?a) < wv" using c(3) by (simp add: older_def)
  have "older (tvars s) wv (set (drop (Suc i) ?ks))" "current (tvars s) (tx_rset (txs s ! t)) (set (drop (Suc i) ?ks))"
    using c(3,4) rest(2) by (auto simp: older_def current_def)
  moreover have "tv_lock (tv s ?a) = Some t" using held_lock [OF assms(1) _ a] assms(2) c(2) by (simp add: held_def)
  ultimately show ?thesis unfolding commit_apply_version_def store_version_def using a assms(2) c(1,2) new rest(1)
    by (auto simp: wkeys_fst evolves_def held_def mid_def commit_ok_def older_update current_update Let_def intro!: kept_update [OF assms(1)])
qed

lemma kept_unlock:
  assumes "good m t s" "tx_pc (txs s ! t) = Unlock i valid"
  shows "kept m t s (commit_unlock t i valid s)"
proof (cases "i < length (wkeys (txs s ! t))")
  case True
  let ?a = "wkeys (txs s ! t) ! i"
  note g = goodD [OF assms(1)] and d = drop_nth_notin [OF goodD(1) [OF assms(1)] True]
  have a: "?a < length (tvars s)" using True by (intro g(2)) simp
  have "tv_lock (tv s ?a) = Some t" "\<not> tv_dirty (tv s ?a)" using held_lock [OF assms(1) _ a] assms(2) d by (simp_all add: held_def mid_def)
  moreover have "tv_version (tv s ?a) \<le> g_vclock s" using g(8) a by simp
  ultimately show ?thesis unfolding commit_unlock_def unlock_tv_def using True a assms(2) g(5) d
    by (auto simp: wkeys_fst Let_def evolves_def held_def mid_def commit_ok_def intro!: kept_update [OF assms(1)])
next
  case False
  then have none: "held (txs s ! t) = {}" using assms(2) by (simp add: held_def)
  have "kept m t s (goto_pc t Notify s)" unfolding goto_pc_def
    using assms(1) none goodD(1) [OF assms(1)] by (intro kept_quiet) auto
  then show ?thesis using False kept_restart [OF assms(1) none] by (simp add: commit_unlock_def wkeys_fst Let_def)
qed

text \<open>The waiting part holds no lock.\<close>

lemma kept_quiet_pc: "good m t s \<Longrightarrow> quiet (tx_pc (txs s ! t)) \<Longrightarrow> quiet pc \<Longrightarrow> kept m t s (goto_pc t pc s)"
  unfolding goto_pc_def by (intro kept_quiet) (auto simp: quiet_held)

lemma kept_count:
  assumes "good m t s" "quiet (tx_pc (txs s ! t))" "quiet pc" "count_waiter a d s = Some s'" "a < length (tvars s)"
  shows "kept m t s (goto_pc t pc s')"
proof -
  have "held ((txs s ! t)\<lparr>tx_pc := pc\<rparr>) = {}" "mid ((txs s ! t)\<lparr>tx_pc := pc\<rparr>) = {}" "held (txs s ! t) = {}" "mid (txs s ! t) = {}"
    using quiet_held assms(2,3) by auto
  moreover have "tv_version (tv s a) \<le> g_vclock s" "\<not> tv_dirty (tv s a)" "tv_lock (tv s a) = None" 
      "s' = set_tv a ((tv s a)\<lparr>tv_waiters := tv_waiters (tv s a) + d\<rparr>) s"
    using goodD(8) [OF assms(1)] assms(4,5) by (auto simp: count_waiter_def split: if_splits)
  ultimately show ?thesis using assms
    by (auto simp: evolves_def quiet_ok intro!: kept_update [OF assms(1)])
qed

lemma rset_bounded: "good m t s \<Longrightarrow> i < length (tx_rset (txs s ! t)) \<Longrightarrow> re_tv (tx_rset (txs s ! t) ! i) < length (tvars s)"
  using reads_rset [OF goodD(4)] nth_mem by (fastforce simp: saw_def)

lemma kept_wait_check: "good m t s \<Longrightarrow> quiet (tx_pc (txs s ! t)) \<Longrightarrow> kept m t s (wait_check t s)"
  by (simp add: wait_check_def kept_quiet_pc)

lemma kept_wait_enter: "good m t s \<Longrightarrow> quiet (tx_pc (txs s ! t)) \<Longrightarrow> wait_enter t i s = Some s' \<Longrightarrow> kept m t s s'"
  by (auto simp: wait_enter_def Let_def kept_wait_check rset_bounded split: if_splits intro: kept_count)

lemma kept_wait_leave: "good m t s \<Longrightarrow> quiet (tx_pc (txs s ! t)) \<Longrightarrow> wait_leave t i s = Some s' \<Longrightarrow> kept m t s s'"
  by (auto simp: wait_leave_def Let_def kept_restart quiet_held rset_bounded split: if_splits intro: kept_count)

lemma wake_tx_ok [simp]: "thread_ok u (wake_tx x) g \<longleftrightarrow> thread_ok u x g"
  by (cases g) (auto simp: wake_tx_def wkeys_def locks_ok_def held_def mid_def reads_ok_def commit_ok_def)

lemma kept_notify: "good m t s \<Longrightarrow> tx_pc (txs s ! t) = Notify \<Longrightarrow> kept m t s (notify t s)"
  using kept_quiet_pc [of m t s Outside]
  by (simp add: good_def kept_def notify_def wake_tx_def) (simp add: glob_def)

lemma kept_direct_lock:
  assumes "good m t s" "tx_pc (txs s ! t) = Outside" "lock_tv t a s = Some s'" "a < length (tvars s)"
  shows "kept m t s (goto_pc t (Direct_Value a v) s')"
proof -
  have "tv_version (tv s a) \<le> g_vclock s" "\<not> tv_dirty (tv s a)" "tv_lock (tv s a) = None" "s' = set_tv a ((tv s a)\<lparr>tv_lock := Some t\<rparr>) s"
    using goodD(8) [OF assms(1)] assms(3,4) by (auto simp: lock_tv_def split: if_splits)
  then show ?thesis using assms
    by (auto simp: evolves_def held_def mid_def commit_ok_def intro!: kept_update [OF assms(1)])
qed

lemma direct_held:
  assumes "good m t s" "tx_pc (txs s ! t) \<in> {Direct_Value a v, Direct_Bump a, Direct_Load a, Direct_Version a n, Direct_Unlock a}"
  shows "a < length (tvars s) \<and> tv_lock (tv s a) = Some t \<and> tv_version (tv s a) \<le> g_vclock s \<and> (tv_dirty (tv s a) \<longleftrightarrow> a \<in> mid (txs s ! t))"
proof -
  have "a < length (tvars s)" "a \<in> held (txs s ! t)" using goodD(5) [OF assms(1)] assms(2) by (auto simp: commit_ok_def held_def)
  then show ?thesis using held_lock [OF assms(1)] goodD(8) [OF assms(1)] by auto
qed

lemma kept_direct:
  assumes "good m t s" "tx_pc (txs s ! t) \<in> {Direct_Value a v, Direct_Bump a, Direct_Load a, Direct_Version a n, Direct_Unlock a}"
    "op_step t (tx_pc (txs s ! t)) s = Some s'"
  shows "kept m t s s'"
  using assms(2,3) direct_held [OF assms(1,2)] goodD(4,5) [OF assms(1)]
  by (auto simp: store_value_def store_version_def unlock_tv_def evolves_def held_def mid_def commit_ok_def nth_list_update
    intro!: kept_update [OF assms(1)] kept_bump [OF assms(1), simplified] kept_pc [OF assms(1)] intro: reads_pc)

lemma kept_body:
  assumes "good m t s" "tx_pc (txs s ! t) = Body" "body_step t act s = Some s'"
  shows "kept m t s s'"
proof -
  have none: "held (txs s ! t) = {}" using assms(2) by (simp add: held_def)
  have "kept m t s (or_else_enter t s)" "kept m t s (set_tx t ((txs s ! t)\<lparr>tx_retry := cs\<rparr>) s)" for cs
    unfolding or_else_enter_def Let_def using assms(1,2) none by (intro kept_quiet; simp add: wkeys_def; blast)+
  then show ?thesis using assms none kept_retry [OF assms(1) none] kept_read_start [OF assms(1,2)] kept_write [OF assms(1,2)]
      kept_commit_start [OF assms(1,2)] kept_quiet_pc [OF assms(1), of Outside]
    by (cases act) (auto simp: or_else_leave_def Let_def split: if_splits)
qed

lemma kept_op:
  assumes "good m t s" "op_step t (tx_pc (txs s ! t)) s = Some s'"
  shows "kept m t s s'"
proof (cases "tx_pc (txs s ! t)")
  case (Lock i)
  then show ?thesis using assms kept_lock by simp
next
  case (Wait_Enter i)
  then show ?thesis using assms kept_wait_enter by simp
next
  case (Wait_Leave i)
  then show ?thesis using assms kept_wait_leave by simp
next
  case Sleeping
  then show ?thesis using assms kept_quiet_pc [OF assms(1), of Woken] by simp
next
  case Woken
  then show ?thesis using assms kept_wait_check [OF assms(1)] by simp
qed (use assms in \<open>auto intro: kept_read_value kept_read_again kept_validate kept_apply_value kept_apply_version kept_unlock kept_notify kept_direct\<close>)

lemma stm_stepE:
  assumes "stm_step t act s = Some s'"
  obtains (outside) "tx_pc (txs s ! t) = Outside" "outside_step t act s = Some s'"
    | (body) "tx_pc (txs s ! t) = Body" "body_step t act s = Some s'"
    | (inside) "op_step t (tx_pc (txs s ! t)) s = Some s'"
  using assms unfolding stm_step_def by (cases "tx_pc (txs s ! t)") (auto split: if_splits)

lemma kept_step: "stm_step t act s = Some s' \<Longrightarrow> good m t s \<Longrightarrow> kept m t s s'"
proof (erule stm_stepE)
  assume "good m t s" "tx_pc (txs s ! t) = Outside" "outside_step t act s = Some s'"
  then show ?thesis by (cases act) (auto split: if_splits intro: kept_direct_lock kept_begin simp: held_def)
qed (auto intro: kept_op kept_body)

text \<open>The steps of a thread on its own state and the shared one.\<close>

definition tx_acts :: "nat \<Rightarrow> nat \<Rightarrow> txstate \<Rightarrow> shared \<Rightarrow> txstate \<Rightarrow> shared \<Rightarrow> bool" where
  "tx_acts m t x g x' g' \<longleftrightarrow> t < m \<and> (\<exists>s act s'. t < length (txs s) \<and> stm_step t act s = Some s' \<and>
     x = txs s ! t \<and> g = glob s \<and> x' = txs s' ! t \<and> g' = glob s')"

interpretation tl2: interleaved thread_ok "shared_ok m" tx_rely "tx_acts m" for m
proof
  show "thread_ok u y g \<Longrightarrow> tx_rely u g g' \<Longrightarrow> thread_ok u y g'" for u y g g' by (rule thread_stable)
  show "thread_ok t x' g' \<and> shared_ok m g' \<and> (\<forall>u. u \<noteq> t \<longrightarrow> tx_rely u g g')"
    if "tx_acts m t x g x' g'" "thread_ok t x g" "shared_ok m g" for t x g x' g'
    using that kept_step unfolding tx_acts_def good_def kept_def keeps_def by blast
qed

section \<open>The invariant of the system\<close>

definition stm_inv :: "stm \<Rightarrow> bool" where
  "stm_inv s \<longleftrightarrow> shared_ok (length (txs s)) (glob s) \<and> (\<forall>u < length (txs s). thread_ok u (txs s ! u) (glob s))"

text \<open>A step changes its own thread and wakes others at most.\<close>

definition others_kept :: "nat \<Rightarrow> stm \<Rightarrow> stm \<Rightarrow> bool" where
  "others_kept t s s' \<longleftrightarrow> length (txs s') = length (txs s) \<and>
     (\<forall>u < length (txs s). u \<noteq> t \<longrightarrow> txs s' ! u = txs s ! u \<or> txs s' ! u = wake_tx (txs s ! u))"

lemma others_set_tx [simp]: "others_kept t s (set_tx t x s') \<longleftrightarrow> others_kept t s s'"
  by (auto simp: others_kept_def set_tx_def)

lemma others_goto [simp]: "others_kept t s (goto_pc t pc s') \<longleftrightarrow> others_kept t s s'"
  by (simp add: goto_pc_def)

lemma others_shared [simp]: "others_kept t s s" "others_kept t s (set_tv a v s)" "others_kept t s (s\<lparr>g_vclock := n\<rparr>)"
  "others_kept t s (s\<lparr>txs := map wake_tx (txs s)\<rparr>)"
  by (auto simp: others_kept_def set_tv_def)

lemmas step_defs = stm_begin_def stm_restart_def stm_retry_def read_start_def read_again_def write_start_def or_else_enter_def or_else_leave_def
  commit_start_def commit_lock_def lock_tv_def unlock_tv_def store_value_def store_version_def commit_validate_def commit_apply_value_def
  commit_apply_version_def commit_unlock_def notify_def count_waiter_def wait_check_def wait_enter_def wait_leave_def

lemma step_others: "stm_step t act s = Some s' \<Longrightarrow> others_kept t s s'"
  unfolding stm_step_def
  by (cases "tx_pc (txs s ! t)"; cases act) (auto simp: step_defs Let_def split: if_splits)

lemma stm_inv_step:
  assumes "stm_step t act s = Some s'" "stm_inv s"
  shows "stm_inv s'"
proof -
  let ?m = "length (txs s)"
  have t: "t < ?m" using assms(1) by (auto simp: stm_step_def split: if_splits)
  have others: "others_kept t s s'" using assms(1) by (rule step_others)
  have "tx_acts ?m t (txs s ! t) (glob s) (txs s' ! t) (glob s')" using assms(1) t by (auto simp: tx_acts_def)
  from tl2.all_ok_step [OF this t] assms(2)
  have ok: "shared_ok ?m (glob s')" "\<forall>u < ?m. thread_ok u ((txs s)[t := txs s' ! t] ! u) (glob s')" by (auto simp: stm_inv_def)
  have "thread_ok u (txs s' ! u) (glob s')" if "u < ?m" for u
    using ok(2) that others t by (cases "u = t") (fastforce simp: others_kept_def)+
  with ok(1) others show ?thesis by (simp add: stm_inv_def others_kept_def)
qed

lemma stm_inv_run: "stm_run sched s = Some s' \<Longrightarrow> stm_inv s \<Longrightarrow> stm_inv s'"
  by (induction sched s rule: stm_run.induct) (auto split: option.splits intro: stm_inv_step)

lemma stm_inv_new: "stm_inv (new_stm vs n)"
  by (auto simp: stm_inv_def new_stm_def glob_def stm_make_tvar_def tx_new_def wkeys_def locks_ok_def held_def reads_ok_def commit_ok_def)

lemma thread_good: "stm_inv s \<Longrightarrow> t < length (txs s) \<Longrightarrow> good (length (txs s)) t s"
  by (simp add: stm_inv_def good_def)

section \<open>Locks\<close>

lemma holder_goes_on:
  assumes "good m u s" "a \<in> held (txs s ! u)" "\<And>b. a < b \<Longrightarrow> b < length (tvars s) \<Longrightarrow> tv_lock (tv s b) = None"
  shows "\<exists>s'. op_step u (tx_pc (txs s ! u)) s = Some s'"
proof (cases "tx_pc (txs s ! u)")
  case (Lock i)
  let ?ks = "wkeys (txs s ! u)"
  have "tv_lock (tv s (?ks ! i)) = None" if i: "i < length ?ks"
  proof -
    have "sorted ?ks" "distinct ?ks" using goodD(1,5) [OF assms(1)] Lock by (auto simp: commit_ok_def Let_def)
    moreover obtain j where "j < i" "a = ?ks ! j" using assms(2) Lock i by (auto simp: held_def in_set_conv_nth)
    ultimately have "a < ?ks ! i" using i by (metis sorted_wrt_nth_less strict_sorted_iff)
    moreover have "?ks ! i < length (tvars s)" using i by (intro goodD(2) [OF assms(1)]) simp
    ultimately show ?thesis by (rule assms(3))
  qed
  then show ?thesis using Lock by (auto simp: commit_lock_def lock_tv_def wkeys_fst Let_def)
qed (use assms(2) in \<open>auto simp: held_def\<close>)

lemma locked_goes_on:
  assumes "stm_inv s" "a < length (tvars s)" "tv_lock (tv s a) \<noteq> None"
  shows "\<exists>u s'. u < length (txs s) \<and> held (txs s ! u) \<noteq> {} \<and> op_step u (tx_pc (txs s ! u)) s = Some s'"
proof -
  let ?L = "{b. b < length (tvars s) \<and> tv_lock (tv s b) \<noteq> None}"
  have fin: "finite ?L" "a \<in> ?L" using assms by auto
  then have "Max ?L \<in> ?L" by (intro Max_in) auto
  then obtain u where u: "Max ?L < length (tvars s)" "tv_lock (tv s (Max ?L)) = Some u" by auto
  then have m: "u < length (txs s)" using assms(1) by (auto simp: stm_inv_def glob_def)
  then have good: "good (length (txs s)) u s" using assms(1) by (rule thread_good [rotated])
  then have "Max ?L \<in> held (txs s ! u)" using goodD(3) [OF good] u by (auto simp: locks_ok_def)
  moreover have "tv_lock (tv s b) = None" if "Max ?L < b" "b < length (tvars s)" for b
  proof (rule ccontr)
    assume "tv_lock (tv s b) \<noteq> None"
    then have "b \<in> ?L" using that(2) by blast
    then have "b \<le> Max ?L" by (rule Max_ge [OF fin(1)])
    with that(1) show False by linarith
  qed
  ultimately show ?thesis using holder_goes_on [OF good] m by blast
qed

definition in_operation :: "tx_pc \<Rightarrow> bool" where
  "in_operation pc \<longleftrightarrow> pc \<noteq> Outside \<and> pc \<noteq> Body \<and> pc \<noteq> Sleeping"

lemma blocked_on_lock:
  assumes "good m t s" "in_operation (tx_pc (txs s ! t))" "op_step t (tx_pc (txs s ! t)) s = None"
  shows "\<exists>a < length (tvars s). tv_lock (tv s a) \<noteq> None"
proof (cases "tx_pc (txs s ! t)")
  case (Lock i)
  then have "i < length (wkeys (txs s ! t))" "tv_lock (tv s (wkeys (txs s ! t) ! i)) \<noteq> None"
    using assms(3) by (auto simp: commit_lock_def lock_tv_def wkeys_fst Let_def split: if_splits)
  then show ?thesis using goodD(2) [OF assms(1)] nth_mem by blast
next
  case (Wait_Enter i)
  then show ?thesis using assms(3) rset_bounded [OF assms(1)] by (auto simp: wait_enter_def count_waiter_def Let_def split: if_splits)
next
  case (Wait_Leave i)
  then show ?thesis using assms(3) rset_bounded [OF assms(1)] by (auto simp: wait_leave_def count_waiter_def Let_def split: if_splits)
qed (use assms(2,3) in \<open>auto simp: in_operation_def\<close>)

lemma op_is_step: "op_step t (tx_pc (txs s ! t)) s = Some s' \<Longrightarrow> t < length (txs s) \<Longrightarrow> stm_step t Go s = Some s'"
  unfolding stm_step_def by (cases "tx_pc (txs s ! t)") auto

section \<open>The properties\<close>

text \<open>
  C5: No update is lost. When a committing thread is about to store to a variable that its transaction has also read,
  the variable still has the version and the value of that read, whatever the other threads have done in between and
  are doing, with transactions or with direct writes; so the store replaces exactly the value it was computed from.
\<close>

theorem stm_no_lost_update:
  assumes "stm_run sched (new_stm vs n) = Some s" "t < length (txs s)" "tx_pc (txs s ! t) = Apply_Value i wv"
    and "i < length (tx_wset (txs s ! t))" "r \<in> set (tx_rset (txs s ! t))" "re_tv r = fst (tx_wset (txs s ! t) ! i)"
  shows "tv_version (tv s (re_tv r)) = re_ver r \<and> tv_value (tv s (re_tv r)) = re_val r"
proof -
  have "stm_inv s" using stm_inv_run [OF assms(1) stm_inv_new] .
  then have good: "good (length (txs s)) t s" using assms(2) by (rule thread_good)
  note g = goodD [OF good]
  let ?ks = "wkeys (txs s ! t)"
  have r: "re_tv r = ?ks ! i" "i < length ?ks" using assms(4,6) by (simp_all add: wkeys_fst)
  then have a: "re_tv r < length (tvars s)" "re_tv r \<in> set (drop i ?ks)" using g(2) drop_nth_notin [OF g(1)] by auto
  then have ver: "tv_version (tv s (re_tv r)) = re_ver r"
    using g(5) assms(3,5) by (simp add: commit_ok_def current_def Let_def)
  have "\<not> tv_dirty (tv s (re_tv r))" using held_lock [OF good _ a(1)] assms(3) r by (simp add: held_def mid_def)
  with ver reads_rset [OF g(4) assms(5)] show ?thesis by (simp add: saw_def)
qed

text \<open>
  C6: Commits do not deadlock. In every reachable state in which some thread is inside an operation and not asleep,
  some thread inside an operation can take its next step: the write sets are sorted and have no variable
  twice, so the holder of the highest locked variable never waits for another.
\<close>

theorem stm_no_deadlock:
  assumes "stm_run sched (new_stm vs n) = Some s" "t < length (txs s)" "in_operation (tx_pc (txs s ! t))"
  shows "\<exists>u s'. u < length (txs s) \<and> in_operation (tx_pc (txs s ! u)) \<and> stm_step u Go s = Some s'"
proof (cases "op_step t (tx_pc (txs s ! t)) s")
  case (Some s')
  then show ?thesis using assms(2,3) op_is_step by blast
next
  case None
  have inv: "stm_inv s" using stm_inv_run [OF assms(1) stm_inv_new] .
  from blocked_on_lock [OF thread_good [OF inv assms(2)] assms(3) None] obtain u s' where
    "u < length (txs s)" "held (txs s ! u) \<noteq> {}" "op_step u (tx_pc (txs s ! u)) s = Some s'"
    using locked_goes_on [OF inv] by blast
  moreover have "in_operation (tx_pc (txs s ! u))" using \<open>held (txs s ! u) \<noteq> {}\<close> by (auto simp: held_def in_operation_def)
  ultimately show ?thesis using op_is_step by blast
qed

text \<open>Schedules.\<close>

definition goes :: "nat \<Rightarrow> nat \<Rightarrow> (nat \<times> tx_action) list" where
  "goes t k = replicate k (t, Go)"

definition increments :: "(nat \<times> tx_action) list" where
  "increments = [(0, Do_Begin), (0, Do_Read 0)] @ goes 0 2 @ [(0, Do_Write 0 8), (0, Do_Commit)] @ goes 0 4"

lemma increments_run:
  "stm_run increments (new_stm [4] 1) = Some \<lparr>g_vclock = 1,
     tvars = [\<lparr>tv_value = 4, tv_version = 0, tv_lock = Some 0, tv_waiters = 0, tv_dirty = False\<rparr>],
     txs = [\<lparr>tx_rset = [\<lparr>re_tv = 0, re_ver = 0, re_val = 4\<rparr>], tx_wset = [(0, 8)], tx_read_ver = 0, tx_retry = [],
              tx_pc = Apply_Value 0 1, tx_got = [(0, 4)]\<rparr>]\<rparr>"
  by code_simp

theorem stm_no_lost_update_witness:
  "\<exists>s. stm_run increments (new_stm [4] 1) = Some s \<and> tx_pc (txs s ! 0) = Apply_Value 0 1 \<and> tv_value (tv s 0) = 4"
  using increments_run stm_no_lost_update [OF increments_run, of 0 0 1 "\<lparr>re_tv = 0, re_ver = 0, re_val = 4\<rparr>"] by simp

theorem stm_no_deadlock_witness:
  "\<exists>s u s'. stm_run increments (new_stm [4] 1) = Some s \<and> in_operation (tx_pc (txs s ! 0)) \<and> stm_step u Go s = Some s'"
  using increments_run stm_no_deadlock [OF increments_run, of 0] by (simp add: in_operation_def) blast


text \<open>
  Write skew: each of two threads reads the variable that the other one writes; both pass the validation before either
  stores, and both commit, which no order of the two transactions explains.
\<close>

lemma write_skew_commits:
  "\<exists>s. stm_run ([(0, Do_Begin), (0, Do_Read 0)] @ goes 0 2 @ [(0, Do_Write 1 8), (0, Do_Commit),
        (1, Do_Begin), (1, Do_Read 1)] @ goes 1 2 @ [(1, Do_Write 0 8), (1, Do_Commit)] @ goes 0 4 @ goes 1 4 @ goes 0 5 @ goes 1 5) (new_stm [4, 4] 2) = Some s \<and>
     map tx_pc (txs s) = [Notify, Notify] \<and> map tx_got (txs s) = [[(0, 4)], [(1, 4)]] \<and> map tv_value (tvars s) = [8, 8]"
  by (intro exI conjI, code_simp) simp_all

text \<open>
  C9: A retry can sleep through the change it waits for. A thread begins after a commit has bumped the clock and reads the
  variable before the commit stores to it; it finds nothing to do and retries. The commit ends and notifies, but the clock still has the
  value of the thread's snapshot, so the thread goes to sleep, and every later wakeup without another commit finds the same clock
  and sends it back to sleep, although the variable it has read has a new value and a new version.
\<close>

theorem retry_misses_change:
  "\<exists>s. stm_run ([(0, Do_Begin), (0, Do_Write 0 8), (0, Do_Commit)] @ goes 0 2 @ [(1, Do_Begin), (1, Do_Read 0)] @ goes 1 2 @
       [(1, Do_Retry)] @ goes 0 7 @ goes 1 2) (new_stm [4] 2) = Some s \<and>
     tx_pc (txs s ! 0) = Outside \<and> tx_pc (txs s ! 1) = Sleeping \<and> tx_rset (txs s ! 1) = [\<lparr>re_tv = 0, re_ver = 0, re_val = 4\<rparr>] \<and>
     tv_value (tv s 0) = 8 \<and> tv_version (tv s 0) = 1 \<and> (\<forall>k. stm_run (goes 1 (2 * k)) s = Some s)"
proof -
  define s where "s = \<lparr>g_vclock = 1,
     tvars = [\<lparr>tv_value = 8, tv_version = 1, tv_lock = None, tv_waiters = 1, tv_dirty = False\<rparr>],
     txs = [\<lparr>tx_rset = [], tx_wset = [(0, 8)], tx_read_ver = 0, tx_retry = [], tx_pc = Outside, tx_got = []\<rparr>,
            \<lparr>tx_rset = [\<lparr>re_tv = 0, re_ver = 0, re_val = 4\<rparr>], tx_wset = [], tx_read_ver = 1, tx_retry = [], tx_pc = Sleeping, tx_got = [(0, 4)]\<rparr>]\<rparr>"
  have run: "stm_run ([(0, Do_Begin), (0, Do_Write 0 8), (0, Do_Commit)] @ goes 0 2 @ [(1, Do_Begin), (1, Do_Read 0)] @ goes 1 2 @
       [(1, Do_Retry)] @ goes 0 7 @ goes 1 2) (new_stm [4] 2) = Some s"
    unfolding s_def by code_simp
  have "stm_run (goes 1 2 @ sched) s = stm_run sched s" for sched
    by (simp add: s_def goes_def numeral_2_eq_2 stm_step_def goto_pc_def set_tx_def wait_check_def)
  moreover have "goes 1 (2 * Suc k) = goes 1 2 @ goes 1 (2 * k)" for k by (simp add: goes_def numeral_2_eq_2)
  ultimately have "stm_run (goes 1 (2 * k)) s = Some s" for k
    by (induction k) (simp add: goes_def, metis)
  with run show ?thesis by (intro exI [of _ s]) (simp add: s_def)
qed


end
