(* ===== verification/Port.thy ===== *)
theory Port
  imports Heap
begin

text \<open>
  String ports (\<open>src/src/port.c\<close>): reading and writing Unicode characters as UTF-8. A port's buffer is a
  string of bytes (Isabelle's \<open>char\<close> is a byte), a character is its code point, an \<open>int\<close>, and -1 is the end of
  the input. The bytes of a file come from C's standard input and output, which are not modelled.
\<close>

section \<open>UTF-8\<close>

text \<open>\<open>sb_push_utf8\<close> of the reader and \<open>port_write_char\<close> encode in the same way; \<open>char_of\<close>, like the cast to \<open>char\<close>, keeps eight bits.\<close>

abbreviation byte :: "int \<Rightarrow> char" where
  "byte n \<equiv> char_of n"

definition utf8 :: "int \<Rightarrow> string" where
  "utf8 u =
     (if u < 0x80 then [byte u]
      else if u < 0x800 then [byte (0xC0 OR drop_bit 6 u), byte (0x80 OR (u AND 0x3F))]
      else if u < 0x10000 then [byte (0xE0 OR drop_bit 12 u), byte (0x80 OR (drop_bit 6 u AND 0x3F)), byte (0x80 OR (u AND 0x3F))]
      else [byte (0xF0 OR drop_bit 18 u), byte (0x80 OR (drop_bit 12 u AND 0x3F)), byte (0x80 OR (drop_bit 6 u AND 0x3F)), byte (0x80 OR (u AND 0x3F))])"

section \<open>Input string ports\<close>

record iport =
  ip_buf :: string
  ip_pos :: nat
  ip_peeked :: int
  ip_line :: nat
  ip_closed :: bool

definition port_open_input_string :: "string \<Rightarrow> iport" where
  "port_open_input_string s = \<lparr>ip_buf = s, ip_pos = 0, ip_peeked = -2, ip_line = 1, ip_closed = False\<rparr>"

text \<open>The loop over the continuation bytes.\<close>

fun read_more :: "nat \<Rightarrow> int \<Rightarrow> iport \<Rightarrow> int \<times> iport" where
  "read_more 0 cp p = (cp, p)"
| "read_more (Suc n) cp p =
     (if length (ip_buf p) \<le> ip_pos p then (-1, p)
      else read_more n (push_bit 6 cp OR (of_char (ip_buf p ! ip_pos p) AND 0x3F)) (p\<lparr>ip_pos := ip_pos p + 1\<rparr>))"

definition lead :: "int \<Rightarrow> int \<times> nat" where
  "lead c = (if c < 0x80 then (c, 0)
     else if c AND 0xE0 = 0xC0 then (c AND 0x1F, 1)
     else if c AND 0xF0 = 0xE0 then (c AND 0x0F, 2)
     else if c AND 0xF8 = 0xF0 then (c AND 0x07, 3)
     else (c, 0))"

definition read_utf8_codepoint :: "iport \<Rightarrow> int \<times> iport" where
  "read_utf8_codepoint p =
     (if length (ip_buf p) \<le> ip_pos p then (-1, p)
      else let (cp, extra) = lead (of_char (ip_buf p ! ip_pos p)) in read_more extra cp (p\<lparr>ip_pos := ip_pos p + 1\<rparr>))"

definition port_read_char :: "iport \<Rightarrow> int \<times> iport" where
  "port_read_char p =
     (if ip_closed p then (-1, p)
      else let (cp, p1) = (if ip_peeked p \<noteq> -2 then (ip_peeked p, p\<lparr>ip_peeked := -2\<rparr>) else read_utf8_codepoint p)
           in (cp, if cp = 10 then p1\<lparr>ip_line := ip_line p1 + 1\<rparr> else p1))"

definition port_peek_char :: "iport \<Rightarrow> int \<times> iport" where
  "port_peek_char p =
     (if ip_closed p then (-1, p)
      else if ip_peeked p \<noteq> -2 then (ip_peeked p, p)
      else if length (ip_buf p) \<le> ip_pos p then (-1, p\<lparr>ip_peeked := -1\<rparr>)
      else (fst (read_utf8_codepoint p), p))"

definition port_close :: "iport \<Rightarrow> iport" where
  "port_close p = p\<lparr>ip_closed := True\<rparr>"

definition port_char_ready :: "iport \<Rightarrow> bool" where
  "port_char_ready p \<longleftrightarrow> ip_pos p < length (ip_buf p)"

definition port_read_byte :: "iport \<Rightarrow> int \<times> iport" where
  "port_read_byte p =
     (if ip_closed p \<or> length (ip_buf p) \<le> ip_pos p then (-1, p) else (of_char (ip_buf p ! ip_pos p), p\<lparr>ip_pos := ip_pos p + 1\<rparr>))"

definition port_peek_byte :: "iport \<Rightarrow> int" where
  "port_peek_byte p = (if ip_closed p \<or> length (ip_buf p) \<le> ip_pos p then -1 else of_char (ip_buf p ! ip_pos p))"

section \<open>Output string ports\<close>

text \<open>The contents of the buffer; its capacity grows as needed.\<close>

record oport =
  op_buf :: string
  op_closed :: bool

definition port_open_output_string :: oport where
  "port_open_output_string = \<lparr>op_buf = [], op_closed = False\<rparr>"

definition port_write_string :: "string \<Rightarrow> oport \<Rightarrow> oport" where
  "port_write_string s p = (if op_closed p then p else p\<lparr>op_buf := op_buf p @ s\<rparr>)"

definition port_write_char :: "int \<Rightarrow> oport \<Rightarrow> oport" where
  "port_write_char cp p = port_write_string (utf8 cp) p"

definition port_get_output_string :: "oport \<Rightarrow> string" where
  "port_get_output_string p = op_buf p"

text \<open>\<open>port_read_line\<close>: the characters up to a newline, written to an output port and so encoded again.\<close>

lemma read_more_pos: "read_more n cp p = (c, p') \<Longrightarrow> ip_buf p' = ip_buf p \<and> ip_pos p \<le> ip_pos p' \<and> (ip_pos p \<le> length (ip_buf p) \<longrightarrow> ip_pos p' \<le> length (ip_buf p))"
  by (induction n arbitrary: cp p) (fastforce split: if_splits)+

lemma read_utf8_pos:
  "read_utf8_codepoint p = (c, p') \<Longrightarrow> ip_buf p' = ip_buf p \<and> (if length (ip_buf p) \<le> ip_pos p then c = -1 else ip_pos p < ip_pos p')"
  by (auto simp: read_utf8_codepoint_def split: if_splits prod.splits dest!: read_more_pos)

function read_line_loop :: "int \<Rightarrow> iport \<Rightarrow> oport \<Rightarrow> int \<times> iport \<times> oport" where
  "read_line_loop cp p out =
     (if cp = -1 \<or> cp = 10 then (cp, p, out)
      else case read_utf8_codepoint p of (cp', p') \<Rightarrow> read_line_loop cp' p' (port_write_char cp out))"
  by pat_completeness auto
termination
  by (relation "measure (\<lambda>(cp, p, out). if cp = -1 then 0 else Suc (length (ip_buf p) - ip_pos p))")
    (auto dest!: read_utf8_pos [OF sym] split: if_splits)

text \<open>None is the end-of-file object. The line number does not advance here.\<close>

definition port_read_line :: "iport \<Rightarrow> string option \<times> iport" where
  "port_read_line p =
     (if ip_closed p then (None, p)
      else let (cp, p1) = (if ip_peeked p \<noteq> -2 then (ip_peeked p, p\<lparr>ip_peeked := -2\<rparr>) else read_utf8_codepoint p);
               (cp', p2, out) = read_line_loop cp p1 port_open_output_string
           in (if cp' = -1 \<and> (cp = -1 \<or> cp = 10) then None else Some (port_get_output_string out), p2))"

section \<open>A port as a stream of characters\<close>

text \<open>What a reader sees of a port: it peeks at and takes the first of the characters that are left.\<close>

locale char_source =
  fixes ok :: "'p \<Rightarrow> bool" and left :: "'p \<Rightarrow> int list" and peek :: "'p \<Rightarrow> int \<times> 'p" and advance :: "'p \<Rightarrow> int \<times> 'p"
  assumes peek_first: "ok p \<Longrightarrow> fst (peek p) = (case left p of [] \<Rightarrow> -1 | c # cs \<Rightarrow> c)"
    and peek_keeps: "ok p \<Longrightarrow> ok (snd (peek p)) \<and> left (snd (peek p)) = left p"
    and advance_first: "ok p \<Longrightarrow> fst (advance p) = (case left p of [] \<Rightarrow> -1 | c # cs \<Rightarrow> c)"
    and advance_rest: "ok p \<Longrightarrow> ok (snd (advance p)) \<and> left (snd (advance p)) = tl (left p)"
begin

lemma advance_peek: "ok p \<Longrightarrow> fst (advance (snd (peek p))) = fst (peek p)"
  by (simp add: advance_first peek_first peek_keeps)

lemma advance_times: "ok p \<Longrightarrow> ok (((snd \<circ> advance) ^^ n) p) \<and> left (((snd \<circ> advance) ^^ n) p) = drop n (left p)"
  by (induction n) (simp_all add: advance_rest drop_Suc tl_drop)

end

text \<open>The characters of a string of bytes.\<close>

fun decode_more :: "nat \<Rightarrow> int \<Rightarrow> string \<Rightarrow> (int \<times> string) option" where
  "decode_more 0 cp bs = Some (cp, bs)"
| "decode_more (Suc n) cp [] = None"
| "decode_more (Suc n) cp (b # bs) = decode_more n (push_bit 6 cp OR (of_char b AND 0x3F)) bs"

lemma decode_more_length: "decode_more n cp bs = Some (c, bs') \<Longrightarrow> length bs' \<le> length bs"
  by (induction n cp bs rule: decode_more.induct) auto

function characters :: "string \<Rightarrow> int list" where
  "characters [] = []"
| "characters (b # bs) = (case decode_more (snd (lead (of_char b))) (fst (lead (of_char b))) bs of None \<Rightarrow> [] | Some (c, bs') \<Rightarrow> c # characters bs')"
  by pat_completeness auto
termination by (relation "measure length") (auto dest: decode_more_length simp: less_Suc_eq_le)

lemma read_more_decode:
  "read_more n cp p = (case decode_more n cp (drop (ip_pos p) (ip_buf p)) of
     None \<Rightarrow> (-1, p\<lparr>ip_pos := max (ip_pos p) (length (ip_buf p))\<rparr>)
   | Some (c, bs) \<Rightarrow> (c, p\<lparr>ip_pos := ip_pos p + n\<rparr>))"
proof (induction n arbitrary: cp p)
  case (Suc n)
  show ?case
  proof (cases "ip_pos p < length (ip_buf p)")
    case True
    then have "drop (ip_pos p) (ip_buf p) = ip_buf p ! ip_pos p # drop (ip_pos p + 1) (ip_buf p)" by (simp add: Cons_nth_drop_Suc)
    with True Suc show ?thesis by (simp split: option.splits)
  qed (simp add: max_def)
qed simp

lemma decode_more_drop: "decode_more n cp bs = Some (c, bs') \<Longrightarrow> bs' = drop n bs"
  by (induction n cp bs rule: decode_more.induct) auto

definition port_ok :: "iport \<Rightarrow> bool" where
  "port_ok p \<longleftrightarrow> ip_peeked p = -2 \<or> ip_peeked p = -1 \<and> length (ip_buf p) \<le> ip_pos p"

definition port_left :: "iport \<Rightarrow> int list" where
  "port_left p = (if ip_closed p then [] else characters (drop (ip_pos p) (ip_buf p)))"

lemma read_utf8_left:
  assumes "\<not> ip_closed p"
  shows "fst (read_utf8_codepoint p) = (case port_left p of [] \<Rightarrow> -1 | c # cs \<Rightarrow> c)"
    "port_left (snd (read_utf8_codepoint p)) = tl (port_left p)" "ip_peeked (snd (read_utf8_codepoint p)) = ip_peeked p"
    "ip_closed (snd (read_utf8_codepoint p)) = ip_closed p"
proof -
  obtain b bs where split: "\<not> length (ip_buf p) \<le> ip_pos p \<Longrightarrow> drop (ip_pos p) (ip_buf p) = b # bs \<and> b = ip_buf p ! ip_pos p \<and> bs = drop (Suc (ip_pos p)) (ip_buf p)"
    using Cons_nth_drop_Suc [of "ip_pos p" "ip_buf p"] by (metis not_le)
  show "fst (read_utf8_codepoint p) = (case port_left p of [] \<Rightarrow> -1 | c # cs \<Rightarrow> c)"
    "port_left (snd (read_utf8_codepoint p)) = tl (port_left p)" "ip_peeked (snd (read_utf8_codepoint p)) = ip_peeked p"
    "ip_closed (snd (read_utf8_codepoint p)) = ip_closed p"
    using assms split
    by (auto simp: read_utf8_codepoint_def port_left_def read_more_decode add.commute split: prod.splits option.splits dest!: decode_more_drop)
qed

interpretation string_port: char_source port_ok port_left port_peek_char port_read_char
proof
  fix p assume ok: "port_ok p"
  have none: "port_left p = []" if "ip_closed p \<or> length (ip_buf p) \<le> ip_pos p" using that by (auto simp: port_left_def)
  note u = read_utf8_left [of p]
  have eof: "ip_peeked p \<noteq> -2 \<Longrightarrow> ip_peeked p = -1 \<and> port_left p = []" using ok none by (auto simp: port_ok_def)
  show "fst (port_peek_char p) = (case port_left p of [] \<Rightarrow> -1 | c # cs \<Rightarrow> c)"
    using u none eof by (auto simp: port_peek_char_def)
  show "port_ok (snd (port_peek_char p)) \<and> port_left (snd (port_peek_char p)) = port_left p"
    using ok by (auto simp: port_peek_char_def port_ok_def port_left_def)
  show "fst (port_read_char p) = (case port_left p of [] \<Rightarrow> -1 | c # cs \<Rightarrow> c)"
    using u none eof by (auto simp: port_read_char_def split: prod.splits)
  have rest: "port_left (q\<lparr>ip_line := n\<rparr>) = port_left q" "port_left (q\<lparr>ip_peeked := k\<rparr>) = port_left q"
    "port_ok (q\<lparr>ip_line := n\<rparr>) = port_ok q" "port_ok (q\<lparr>ip_peeked := -2\<rparr>)" for q n k by (simp_all add: port_left_def port_ok_def)
  show "port_ok (snd (port_read_char p)) \<and> port_left (snd (port_read_char p)) = tl (port_left p)"
  proof (cases "ip_closed p \<or> ip_peeked p \<noteq> -2")
    case True
    then show ?thesis using ok none eof by (auto simp: port_read_char_def rest)
  next
    case False
    then have "port_ok (snd (read_utf8_codepoint p))" using u(3) by (simp add: port_ok_def)
    with False u(2) show ?thesis by (cases "read_utf8_codepoint p") (simp add: port_read_char_def rest)
  qed
qed

section \<open>Encoding and decoding\<close>

lemma or_disjoint: "0 \<le> y \<Longrightarrow> y < 2 ^ n \<Longrightarrow> push_bit n x OR y = x * 2 ^ n + (y :: int)"
proof -
  assume "0 \<le> y" "y < 2 ^ n"
  then have y: "y = take_bit n y" by (simp add: take_bit_int_eq_self)
  have "push_bit n x AND take_bit n y = 0" by (rule bit_eqI) (auto simp: bit_simps)
  then have "push_bit n x OR take_bit n y = push_bit n x + take_bit n y" by (simp add: disjunctive_add [symmetric] disjunctive_add_eq_or)
  with y show ?thesis by (simp add: push_bit_eq_mult)
qed

lemma and_63: "v AND 63 = v mod (64 :: int)"
  using take_bit_eq_mask [of 6 v] by (simp add: take_bit_eq_mod mask_eq_exp_minus_1)

lemma of_byte: "of_char (byte n) = n mod (256 :: int)"
  by simp

lemma or_range: "0 \<le> x \<Longrightarrow> x < 32 \<Longrightarrow> 192 OR x = 192 + (x :: int)" "0 \<le> x \<Longrightarrow> x < 16 \<Longrightarrow> 224 OR x = 224 + x"
  "0 \<le> x \<Longrightarrow> x < 8 \<Longrightarrow> 240 OR x = 240 + x" "0 \<le> x \<Longrightarrow> x < 64 \<Longrightarrow> 128 OR x = 128 + x"
  using or_disjoint [of x 5 6] or_disjoint [of x 4 14] or_disjoint [of x 3 30] or_disjoint [of x 6 2] by simp_all

lemma continuation: "of_char (byte (128 OR (v AND 63))) AND 63 = v mod (64 :: int)"
proof -
  have "(128 + v mod 64) mod 256 = 128 + v mod 64" 
    using pos_mod_bound [of 64 v] pos_mod_sign [of 64 v] by (intro mod_pos_pos_trivial) linarith+
  moreover have "(2 * 64 + v mod 64) mod 64 = v mod 64" unfolding mod_mult_self3 by simp
  ultimately have "(128 + v mod 64) mod 256 mod 64 = v mod 64" by simp
  then show ?thesis unfolding of_byte and_63 by (simp add: or_range(4))
qed

lemma lead_table:
  "list_all (\<lambda>x. lead (192 + x) = (x, 1)) [0..31]" "list_all (\<lambda>x. lead (224 + x) = (x, 2)) [0..15]" "list_all (\<lambda>x. lead (240 + x) = (x, 3)) [0..7]"
  by code_simp+

lemma lead_bytes:
  "0 \<le> x \<Longrightarrow> x < 32 \<Longrightarrow> lead (of_char (byte (192 OR x))) = (x, 1)"
  "0 \<le> x \<Longrightarrow> x < 16 \<Longrightarrow> lead (of_char (byte (224 OR x))) = (x, 2)"
  "0 \<le> x \<Longrightarrow> x < 8 \<Longrightarrow> lead (of_char (byte (240 OR x))) = (x, 3)"
  using lead_table unfolding of_byte by (auto simp: or_range list_all_iff)

lemma collect: "push_bit 6 x OR v mod 64 = x * 64 + v mod (64 :: int)"
  using or_disjoint [of "v mod 64" 6 x] by simp

lemma div_split: "u div 4096 = u div 64 div (64 :: int)" "u div 262144 = u div 64 div 64 div (64 :: int)"
  by (simp_all add: zdiv_zmult2_eq [symmetric])

lemma characters_multi:
  "0 \<le> x \<Longrightarrow> x < 32 \<Longrightarrow> characters (byte (192 OR x) # byte (128 OR (a AND 63)) # bs) = (x * 64 + a mod 64) # characters bs"
  "0 \<le> x \<Longrightarrow> x < 16 \<Longrightarrow> characters (byte (224 OR x) # byte (128 OR (a AND 63)) # byte (128 OR (b AND 63)) # bs) =
     ((x * 64 + a mod 64) * 64 + b mod 64) # characters bs"
  "0 \<le> x \<Longrightarrow> x < 8 \<Longrightarrow> characters (byte (240 OR x) # byte (128 OR (a AND 63)) # byte (128 OR (b AND 63)) # byte (128 OR (c AND 63)) # bs) =
     (((x * 64 + a mod 64) * 64 + b mod 64) * 64 + c mod 64) # characters bs"
  by (simp_all add: lead_bytes continuation collect numeral_2_eq_2 numeral_3_eq_3 del: of_char_of)

lemma utf8_shape:
  "u < 0x80 \<Longrightarrow> utf8 u = [byte u]"
  "0x80 \<le> u \<Longrightarrow> u < 0x800 \<Longrightarrow> utf8 u = [byte (192 OR u div 64), byte (128 OR (u AND 63))]"
  "0x800 \<le> u \<Longrightarrow> u < 0x10000 \<Longrightarrow> utf8 u = [byte (224 OR u div 4096), byte (128 OR (u div 64 AND 63)), byte (128 OR (u AND 63))]"
  "0x10000 \<le> u \<Longrightarrow> utf8 u = [byte (240 OR u div 262144), byte (128 OR (u div 4096 AND 63)), byte (128 OR (u div 64 AND 63)), byte (128 OR (u AND 63))]"
  by (simp_all add: utf8_def drop_bit_eq_div)

lemma characters_utf8:
  assumes "0 \<le> u" "u < 0x200000"
  shows "characters (utf8 u @ bs) = u # characters bs"
proof -
  consider "u < 0x80" | "0x80 \<le> u" "u < 0x800" | "0x800 \<le> u" "u < 0x10000" | "0x10000 \<le> u" by linarith
  then show ?thesis
  proof cases
    case 1
    then show ?thesis using assms by (simp add: utf8_shape lead_def)
  next
    case 2
    then have "0 \<le> u div 64" "u div 64 < 32" by auto
    from characters_multi(1) [OF this, of u bs] show ?thesis unfolding utf8_shape(2) [OF 2] by simp
  next
    case 3
    then have "0 \<le> u div 4096" "u div 4096 < 16" by auto
    from characters_multi(2) [OF this, of "u div 64" u bs] show ?thesis unfolding utf8_shape(3) [OF 3] by (simp add: div_split)
  next
    case 4
    have "0 \<le> u div 262144" "u div 262144 < 8" using assms by auto
    from characters_multi(3) [OF this, of "u div 4096" "u div 64" u bs] show ?thesis unfolding utf8_shape(4) [OF 4] by (simp add: div_split)
  qed
qed

end
