(* ===== verification/Reader.thy ===== *)
theory Reader
  imports Port
begin

text \<open>
  The reader (\<open>src/src/reader.c\<close>). Its input is the stream of characters a port still has (\<open>Port\<close> shows that
  \<open>port_read_char\<close> and \<open>port_peek_char\<close> of a string port act as such a stream). A datum is a tree: the reader
  allocates every object anew. The line numbers stamped on pairs for the compiler are left out. Strings and names
  are strings of bytes in UTF-8. C's \<open>isspace\<close> is that of the C locale.
\<close>

section \<open>Data\<close>

text \<open>\<open>D_Number\<close> is a number that is no fixnum, named by a handle that the numeric tower (\<open>numeric.c\<close>) gives it.\<close>

datatype datum = D_Nil | D_True | D_False | D_Void | D_Eof | D_Undef
  | D_Fix int | D_Number nat | D_Char int | D_Str string | D_Sym string
  | D_Pair datum datum | D_Vec "datum list" | D_Bytes "nat list"

text \<open>
  The functions of the numeric tower that the reader and the writer call, as parameters: the constructors of
  numbers, exactness, the sexagesimal and cuneiform notations with the table of Akkadian names, what \<open>vunfix\<close> gives for a value that
  is no fixnum, and the decimal text of a number.
\<close>

datatype dlit = Plus_Inf | Minus_Inf | Not_A_Number | Strtod string

record numerics =
  num_make_float :: "dlit \<Rightarrow> datum"
  num_make_bignum_i :: "int \<Rightarrow> datum"
  num_make_bignum_str :: "string \<Rightarrow> nat \<Rightarrow> datum"
  num_make_rational :: "datum \<Rightarrow> datum \<Rightarrow> datum res"
  num_make_complex :: "datum \<Rightarrow> datum \<Rightarrow> datum"
  num_make_quat :: "(char \<times> bool \<times> string option) list \<Rightarrow> datum"
  num_exact :: "datum \<Rightarrow> datum res"
  num_inexact :: "datum \<Rightarrow> datum res"
  num_neg :: "datum \<Rightarrow> datum res"
  sex_parse_neugebauer :: "string \<Rightarrow> datum option res"
  sex_parse_cuneiform :: "string \<Rightarrow> datum option res"
  akk_is_cuneiform_sym :: "string \<Rightarrow> bool"
  unfix_other :: "datum \<Rightarrow> int"
  number_text :: "nat \<Rightarrow> string"

fun vis_number :: "datum \<Rightarrow> bool" where
  "vis_number (D_Fix _) \<longleftrightarrow> True"
| "vis_number (D_Number _) \<longleftrightarrow> True"
| "vis_number _ \<longleftrightarrow> False"

section \<open>C's number parsing\<close>

definition isspace :: "int \<Rightarrow> bool" where
  "isspace c \<longleftrightarrow> c = 32 \<or> 9 \<le> c \<and> c \<le> 13"

abbreviation cspace :: "char \<Rightarrow> bool" where
  "cspace c \<equiv> isspace (of_char c)"

text \<open>The C string at the start of a buffer.\<close>

definition cstr :: "string \<Rightarrow> string" where
  "cstr bs = takeWhile (\<lambda>c. of_char c \<noteq> (0 :: int)) bs"

definition digit_value :: "char \<Rightarrow> nat" where
  "digit_value c = (let n = of_char c in
     if 48 \<le> n \<and> n \<le> 57 then n - 48 else if 97 \<le> n \<and> n \<le> 122 then n - 87 else if 65 \<le> n \<and> n \<le> 90 then n - 55 else 36)"

abbreviation is_digit :: "nat \<Rightarrow> char \<Rightarrow> bool" where
  "is_digit radix c \<equiv> digit_value c < radix"

definition digits_value :: "nat \<Rightarrow> string \<Rightarrow> nat" where
  "digits_value radix ds = foldl (\<lambda>n c. n * radix + digit_value c) 0 ds"

text \<open>White space and sign, then for radix 16 an optional \<open>0x\<close>.\<close>

definition skip_sign :: "string \<Rightarrow> bool \<times> string" where
  "skip_sign s = (case dropWhile cspace s of c # r \<Rightarrow> (if c = CHR ''-'' then (True, r) else if c = CHR ''+'' then (False, r) else (False, c # r)) | [] \<Rightarrow> (False, []))"

definition skip_0x :: "nat \<Rightarrow> string \<Rightarrow> string" where
  "skip_0x radix s = (case s of a # b # c # r \<Rightarrow> if radix = 16 \<and> a = CHR ''0'' \<and> b \<in> {CHR ''x'', CHR ''X''} \<and> is_digit 16 c then c # r else s | _ \<Rightarrow> s)"

text \<open>\<open>strtol\<close>: the value, whether \<open>errno\<close> is set, and what \<open>end\<close> points to.\<close>

definition strtol :: "string \<Rightarrow> nat \<Rightarrow> int \<times> bool \<times> string" where
  "strtol s radix =
     (let (neg, r) = skip_sign s; r' = skip_0x radix r; ds = takeWhile (is_digit radix) r';
          n = (if neg then - int (digits_value radix ds) else int (digits_value radix ds))
      in if ds = [] then (0, False, s)
         else if n < - (2 ^ 63) then (- (2 ^ 63), True, dropWhile (is_digit radix) r')
         else if 2 ^ 63 \<le> n then (2 ^ 63 - 1, True, dropWhile (is_digit radix) r')
         else (n, False, dropWhile (is_digit radix) r'))"

text \<open>The value of \<open>strtoul\<close> in base 16, cast to \<open>uint32_t\<close>.\<close>

definition strtoul_hex32 :: "string \<Rightarrow> int" where
  "strtoul_hex32 s =
     (let (neg, r) = skip_sign s; n = int (digits_value 16 (takeWhile (is_digit 16) (skip_0x 16 r)))
      in if 2 ^ 64 \<le> n then 2 ^ 32 - 1 else (if neg then - n else n) mod 2 ^ 32)"

text \<open>What \<open>end\<close> points to after \<open>strtod\<close>: a decimal or hexadecimal number, an infinity or a NaN, or nothing at all.\<close>

definition drop_mantissa :: "nat \<Rightarrow> string \<Rightarrow> string option" where
  "drop_mantissa radix s =
     (let r = dropWhile (is_digit radix) s in
      case r of c # q \<Rightarrow> (if c = CHR ''.'' then (let r' = dropWhile (is_digit radix) q in if r = s \<and> r' = q then None else Some r')
                          else if r = s then None else Some r)
              | [] \<Rightarrow> if s = [] then None else Some [])"

definition drop_exponent :: "char set \<Rightarrow> string \<Rightarrow> string" where
  "drop_exponent es s = (case s of
     e # r \<Rightarrow> (let q = (case r of c # r' \<Rightarrow> if c = CHR ''+'' \<or> c = CHR ''-'' then r' else r | [] \<Rightarrow> r)
               in if e \<in> es \<and> (case q of d # _ \<Rightarrow> is_digit 10 d | [] \<Rightarrow> False) then dropWhile (is_digit 10) q else s)
   | [] \<Rightarrow> [])"

definition drop_word :: "string \<Rightarrow> string \<Rightarrow> string option" where
  "drop_word w s = (if length w \<le> length s \<and> list_all2 (\<lambda>a b. a = b \<or> of_char a = of_char b + (32 :: int)) w (take (length w) s)
     then Some (drop (length w) s) else None)"

definition drop_nan_chars :: "string \<Rightarrow> string" where
  "drop_nan_chars s = (case s of
     c # r \<Rightarrow> (let q = dropWhile (\<lambda>c. is_digit 36 c \<or> c = CHR ''_'') r in case q of d # q' \<Rightarrow> if c = CHR ''('' \<and> d = CHR '')'' then q' else s | [] \<Rightarrow> s)
   | [] \<Rightarrow> [])"

definition strtod_end :: "string \<Rightarrow> string" where
  "strtod_end s =
     (let r = snd (skip_sign s);
          hex = (case r of a # b # q \<Rightarrow> if a = CHR ''0'' \<and> b \<in> {CHR ''x'', CHR ''X''} then drop_mantissa 16 q else None | _ \<Rightarrow> None)
      in case hex of Some q \<Rightarrow> drop_exponent {CHR ''p'', CHR ''P''} q
       | None \<Rightarrow> (case drop_mantissa 10 r of Some q \<Rightarrow> drop_exponent {CHR ''e'', CHR ''E''} q
       | None \<Rightarrow> (case drop_word ''infinity'' r of Some q \<Rightarrow> q
       | None \<Rightarrow> (case drop_word ''inf'' r of Some q \<Rightarrow> q
       | None \<Rightarrow> (case drop_word ''nan'' r of Some q \<Rightarrow> drop_nan_chars q
       | None \<Rightarrow> s)))))"

section \<open>Number literals\<close>

text \<open>The place where a complex literal splits, searched from the right; 0 when there is none.\<close>

definition is_sign :: "char \<Rightarrow> bool" where
  "is_sign c \<longleftrightarrow> c = CHR ''+'' \<or> c = CHR ''-''"

definition starts_term :: "string \<Rightarrow> nat \<Rightarrow> bool" where
  "starts_term buf k \<longleftrightarrow> is_sign (buf ! k) \<and> buf ! (k - 1) \<noteq> CHR ''e'' \<and> buf ! (k - 1) \<noteq> CHR ''E''"

definition complex_split :: "string \<Rightarrow> nat" where
  "complex_split buf = (case find (starts_term buf) (rev [1..<length buf]) of Some k \<Rightarrow> k | None \<Rightarrow> 0)"

text \<open>The terms of a quaternion literal: suffix, sign, and the text of the coefficient if there is one.\<close>

definition quat_splits :: "string \<Rightarrow> nat list" where
  "quat_splits buf = take 8 (0 # filter (starts_term buf) [1..<length buf])"

definition quat_term :: "string \<Rightarrow> nat \<Rightarrow> nat \<Rightarrow> (char \<times> bool \<times> string option) option" where
  "quat_term buf ts te =
     (let suffix = buf ! (te - 1); ns = (if is_sign (buf ! ts) then ts + 1 else ts);
          nl = (te - ns) - (if suffix \<in> {CHR ''i'', CHR ''j'', CHR ''k''} then 1 else 0); neg = (buf ! ts = CHR ''-'')
      in if nl = 0 then Some (suffix, neg, None)
         else if strtod_end (drop ns buf) = drop (ns + nl) buf then Some (suffix, neg, Some (take nl (drop ns buf)))
         else None)"

definition quat_terms :: "string \<Rightarrow> (char \<times> bool \<times> string option) list option" where
  "quat_terms buf = (let sp = quat_splits buf; ts = map2 (quat_term buf) sp (tl sp @ [length buf])
     in if None \<in> set ts then None else Some (map the ts))"

definition has_digit :: "string \<Rightarrow> bool" where
  "has_digit s = list_ex (is_digit 10) (takeWhile (\<lambda>c. c \<noteq> CHR ''('') s)"

definition made :: "datum \<Rightarrow> datum option res" where
  "made v = Inr (Some v)"

definition made_res :: "datum res \<Rightarrow> datum option res" where
  "made_res r = rbind r made"

lemma length_takeWhile_less: "x \<in> set s \<Longrightarrow> length (takeWhile (\<lambda>c. c \<noteq> x) s) < length s" "x \<in> set s \<Longrightarrow> length (tl (dropWhile (\<lambda>c. c \<noteq> x) s)) < length s"
proof -
  assume "x \<in> set s"
  then have "dropWhile (\<lambda>c. c \<noteq> x) s \<noteq> []" by (auto simp: dropWhile_eq_Nil_conv)
  moreover have "length (takeWhile (\<lambda>c. c \<noteq> x) s) + length (dropWhile (\<lambda>c. c \<noteq> x) s) = length s"
    by (metis length_append takeWhile_dropWhile_id)
  ultimately show "length (takeWhile (\<lambda>c. c \<noteq> x) s) < length s" "length (tl (dropWhile (\<lambda>c. c \<noteq> x) s)) < length s"
    by (cases "dropWhile (\<lambda>c. c \<noteq> x) s"; simp)+
qed

lemma length_parts_less:
  "2 \<le> length s \<and> P \<Longrightarrow> buf = butlast s \<Longrightarrow> length (take k buf) < length s"
  "2 \<le> length s \<and> P \<Longrightarrow> buf = butlast s \<Longrightarrow> length (drop k buf) < length s"
  "2 \<le> length s \<and> P \<Longrightarrow> buf = butlast s \<Longrightarrow> length buf < length s"
  by auto

text \<open>\<open>parse_number\<close>; None is \<open>V_FALSE\<close>, not a number.\<close>

function parse_number :: "numerics \<Rightarrow> string \<Rightarrow> nat \<Rightarrow> bool \<Rightarrow> bool \<Rightarrow> datum option res" where
  "parse_number nm s radix exact_force inexact_force =
     (if s = [] then Inr None
      else if radix = 10 \<and> \<not> exact_force \<and> s = ''+inf.0'' then made (num_make_float nm Plus_Inf)
      else if radix = 10 \<and> \<not> exact_force \<and> s = ''-inf.0'' then made (num_make_float nm Minus_Inf)
      else if radix = 10 \<and> \<not> exact_force \<and> (s = ''+nan.0'' \<or> s = ''-nan.0'') then made (num_make_float nm Not_A_Number)
      else let (i, erange, end) = strtol s radix in
        if \<not> erange \<and> end = [] then
          (let v = (if in_fixnum_range i then D_Fix i else num_make_bignum_i nm i)
           in if inexact_force then made_res (num_inexact nm v) else made v)
        else if end = [] \<or> (hd end = CHR ''/'' \<and> tl end \<noteq> []) then
          (if CHR ''/'' \<in> set s then
             rbind (parse_number nm (takeWhile (\<lambda>c. c \<noteq> CHR ''/'') s) radix False False) (\<lambda>n.
             rbind (parse_number nm (tl (dropWhile (\<lambda>c. c \<noteq> CHR ''/'') s)) radix False False) (\<lambda>d.
               case (n, d) of
                 (Some nv, Some dv) \<Rightarrow> if vis_number nv \<and> vis_number dv then made_res (num_make_rational nm nv dv) else Inr None
               | _ \<Rightarrow> Inr None))
           else made (num_make_bignum_str nm s radix))
        else if has_digit s \<and> strtod_end s = [] then
          (let v = num_make_float nm (Strtod s) in if exact_force then made_res (num_exact nm v) else made v)
        else if 2 \<le> length s \<and> last s = CHR ''i'' then
          (let buf = butlast s; split = complex_split buf in
           if buf = ''+'' then made (num_make_complex nm (D_Fix 0) (D_Fix 1))
           else if buf = ''-'' then made (num_make_complex nm (D_Fix 0) (D_Fix (-1)))
           else if 0 < split then
             rbind (parse_number nm (take split buf) radix exact_force inexact_force) (\<lambda>re. case re of
               None \<Rightarrow> Inr None
             | Some rv \<Rightarrow>
                 if drop split buf = ''+'' then made (num_make_complex nm rv (D_Fix 1))
                 else if drop split buf = ''-'' then made (num_make_complex nm rv (D_Fix (-1)))
                 else rbind (parse_number nm (drop split buf) radix exact_force inexact_force) (\<lambda>im. case im of
                   None \<Rightarrow> Inr None | Some imv \<Rightarrow> made (num_make_complex nm rv imv)))
           else rbind (parse_number nm buf radix exact_force inexact_force) (\<lambda>im. case im of
             None \<Rightarrow> Inr None | Some imv \<Rightarrow> made (num_make_complex nm (D_Fix 0) imv)))
        else if 2 \<le> length s \<and> last s = CHR ''k'' then
          (case quat_terms s of Some ts \<Rightarrow> made (num_make_quat nm ts) | None \<Rightarrow> Inr None)
        else Inr None)"
  by pat_completeness auto

termination
proof (relation "measure (\<lambda>(nm, s, _). length s)", goal_cases)
  case 1
  show ?case by (rule wf_measure)
qed (unfold in_measure prod.case, (rule length_takeWhile_less length_parts_less, assumption+)+)

declare parse_number.simps [simp del]

section \<open>Characters of the input\<close>

type_synonym input = "int list"

definition next_char :: "input \<Rightarrow> int \<times> input" where
  "next_char cs = (case cs of [] \<Rightarrow> (-1, []) | c # r \<Rightarrow> (c, r))"

definition peek_char_port :: "input \<Rightarrow> int" where
  "peek_char_port cs = (case cs of [] \<Rightarrow> -1 | c # r \<Rightarrow> c)"

abbreviation ch :: "char \<Rightarrow> int" where
  "ch c \<equiv> of_char c"

fun skip_line :: "input \<Rightarrow> input" where
  "skip_line [] = []"
| "skip_line (c # cs) = (if c = 10 then cs else skip_line cs)"

lemma skip_line_length: "length (skip_line cs) \<le> length cs"
  by (induction cs) auto

function skip_whitespace :: "input \<Rightarrow> input" where
  "skip_whitespace [] = []"
| "skip_whitespace (c # cs) =
     (if c = ch CHR '';'' then skip_whitespace (skip_line cs)
      else if 0 \<le> c \<and> c \<le> 127 \<and> isspace c then skip_whitespace cs
      else c # cs)"
  by pat_completeness auto
termination by (relation "measure length") (auto simp: skip_line_length less_Suc_eq_le)

definition is_delimiter :: "int \<Rightarrow> bool" where
  "is_delimiter c \<longleftrightarrow> c = -1 \<or> isspace c \<or> c \<in> {ch CHR ''('', ch CHR '')'', 34, ch CHR '';'', ch CHR ''['', ch CHR '']''}"

text \<open>The characters up to a delimiter, and what follows them.\<close>

definition token :: "input \<Rightarrow> input" where
  "token cs = takeWhile (\<lambda>c. \<not> is_delimiter c) cs"

definition after_token :: "input \<Rightarrow> input" where
  "after_token cs = dropWhile (\<lambda>c. \<not> is_delimiter c) cs"

text \<open>Characters pushed to a buffer in UTF-8, and cut to a byte.\<close>

definition sb_utf8 :: "input \<Rightarrow> string" where
  "sb_utf8 cs = concat (map utf8 cs)"

definition sb_bytes :: "input \<Rightarrow> string" where
  "sb_bytes cs = map byte cs"

abbreviation read_error :: "string \<Rightarrow> scm_error" where
  "read_error msg \<equiv> Raise (''read-error: '' @ msg)"

section \<open>Strings and characters\<close>

lemma next_char_length: "next_char cs = (c, r) \<Longrightarrow> length r \<le> length cs \<and> (c \<noteq> -1 \<longrightarrow> length r < length cs)"
  by (auto simp: next_char_def split: list.splits)

lemma drop_shorter: "length cs < n \<Longrightarrow> length (dropWhile P cs) < n" "length cs < n \<Longrightarrow> length (dropWhile P cs) - Suc 0 < n"
  using length_dropWhile_le [of P cs] by linarith+

function read_string_loop :: "string \<Rightarrow> input \<Rightarrow> (string \<times> input) res" where
  "read_string_loop sb cs =
     (case next_char cs of (c, r) \<Rightarrow>
        if c = -1 then Inl (read_error ''unterminated string literal'')
        else if c = 34 then Inr (sb, r)
        else if c = ch CHR 0x5C then
          (case next_char r of (esc, r') \<Rightarrow>
             if esc = ch CHR ''n'' then read_string_loop (sb @ [byte 10]) r'
             else if esc = ch CHR ''t'' then read_string_loop (sb @ [byte 9]) r'
             else if esc = ch CHR ''r'' then read_string_loop (sb @ [byte 13]) r'
             else if esc = 34 then read_string_loop (sb @ [byte 34]) r'
             else if esc = ch CHR 0x5C then read_string_loop (sb @ [byte 92]) r'
             else if esc = ch CHR ''0'' then read_string_loop (sb @ [byte 0]) r'
             else if esc = ch CHR ''a'' then read_string_loop (sb @ [byte 7]) r'
             else if esc = ch CHR ''b'' then read_string_loop (sb @ [byte 8]) r'
             else if esc = ch CHR ''x'' then
               (let hex = takeWhile (\<lambda>c. c \<noteq> ch CHR '';'') r'; q = dropWhile (\<lambda>c. c \<noteq> ch CHR '';'') r'
                in read_string_loop (sb @ utf8 (strtoul_hex32 (cstr (sb_bytes hex)))) (tl q))
             else if esc = 10 then read_string_loop sb (dropWhile isspace r')
             else Inl (read_error ''unknown escape in string''))
        else read_string_loop (sb @ utf8 c) r)"
  by pat_completeness auto

termination
proof (relation "measure (\<lambda>(sb, cs). length cs)", goal_cases)
  case 1
  show ?case by (rule wf_measure)
qed (auto dest!: next_char_length [OF sym] intro!: drop_shorter)

declare read_string_loop.simps [simp del]

definition read_string :: "input \<Rightarrow> (datum \<times> input) res" where
  "read_string cs = rbind (read_string_loop [] cs) (\<lambda>(s, r). Inr (D_Str s, r))"

definition char_names :: "(string \<times> int) list" where
  "char_names = [(''space'', 32), (''newline'', 10), (''tab'', 9), (''return'', 13), (''null'', 0), (''escape'', 27),
     (''delete'', 127), (''alarm'', 7), (''backspace'', 8)]"

definition read_char_literal :: "input \<Rightarrow> (datum \<times> input) res" where
  "read_char_literal cs = (case next_char cs of (c, r) \<Rightarrow>
     if c = -1 then Inl (read_error ''unexpected EOF in character literal'')
     else let sb = byte c # sb_bytes (token r); r' = after_token r in
       if length sb = 1 then Inr (D_Char c, r')
       else case map_of char_names (cstr sb) of
         Some cp \<Rightarrow> Inr (D_Char cp, r')
       | None \<Rightarrow> if hd sb = CHR ''x'' then Inr (D_Char (strtoul_hex32 (cstr (tl sb))), r')
                 else Inl (read_error ''unknown character name''))"

text \<open>\<open>dot_token_datum\<close> and the resolution of any other token.\<close>

definition dot_token_datum :: "numerics \<Rightarrow> string \<Rightarrow> datum res" where
  "dot_token_datum nm buf =
     (if cstr buf = buf
      then rbind (parse_number nm buf 10 False False) (\<lambda>num. case num of Some v \<Rightarrow> Inr v | None \<Rightarrow> Inr (D_Sym buf))
      else Inr (D_Sym buf))"

definition symbol_or_number :: "numerics \<Rightarrow> string \<Rightarrow> datum res" where
  "symbol_or_number nm buf = (let s = cstr buf in
     if s = ''+inf.0'' then Inr (num_make_float nm Plus_Inf)
     else if s = ''-inf.0'' then Inr (num_make_float nm Minus_Inf)
     else if s = ''+nan.0'' \<or> s = ''-nan.0'' then Inr (num_make_float nm Not_A_Number)
     else rbind (parse_number nm s 10 False False) (\<lambda>num. case num of Some v \<Rightarrow> Inr v | None \<Rightarrow> Inr (D_Sym buf)))"

section \<open>Cuneiform and sexagesimal tokens\<close>

definition SEX_IS_CUNEIFORM :: "int \<Rightarrow> bool" where
  "SEX_IS_CUNEIFORM c \<longleftrightarrow> 0x12000 \<le> c \<and> c \<le> 0x1247F"

definition sex_only :: "input \<Rightarrow> bool" where
  "sex_only acc = list_all (\<lambda>c. c \<in> {32, 0x12079, 0x1230B, 0x1244A}) acc"

text \<open>The glyphs of a token, with the spaces between the groups of a number outside containers; the flag is \<open>space_consumed\<close>.\<close>

fun cuneiform_glyphs :: "nat \<Rightarrow> input \<Rightarrow> input \<Rightarrow> input \<times> bool \<times> input" where
  "cuneiform_glyphs cont acc [] = (acc, False, [])"
| "cuneiform_glyphs cont acc (c # cs) =
     (if SEX_IS_CUNEIFORM c then cuneiform_glyphs cont (acc @ [c]) cs
      else if c = 32 \<and> cont = 0 then
        (if \<not> sex_only acc then (acc, False, c # cs)
         else if SEX_IS_CUNEIFORM (peek_char_port cs) then cuneiform_glyphs cont (acc @ [32]) cs
         else (acc, True, cs))
      else (acc, False, c # cs))"

definition read_cuneiform :: "numerics \<Rightarrow> nat \<Rightarrow> int \<Rightarrow> input \<Rightarrow> (datum \<times> input) res" where
  "read_cuneiform nm cont c cs =
     (let (glyphs, space_consumed, r) = cuneiform_glyphs cont [c] cs;
          trailing = (if space_consumed then [] else takeWhile (\<lambda>c. \<not> is_delimiter c \<and> \<not> SEX_IS_CUNEIFORM c) r);
          r' = drop (length trailing) r; buf = sb_utf8 (glyphs @ trailing)
      in if akk_is_cuneiform_sym nm (cstr buf) then Inr (D_Sym buf, r')
         else rbind (sex_parse_cuneiform nm (cstr buf)) (\<lambda>v. case v of Some n \<Rightarrow> Inr (n, r') | None \<Rightarrow> Inr (D_Sym buf, r')))"

text \<open>The characters of a literal after \<open>#s\<close>; only one semicolon, its radix point, belongs to it.\<close>

fun sex_token :: "bool \<Rightarrow> input \<Rightarrow> input" where
  "sex_token seen [] = []"
| "sex_token seen (c # cs) =
     (if isspace (c mod 256) \<or> c \<in> {ch CHR ''('', ch CHR '')'', 34, ch CHR ''['', ch CHR '']''} \<or> c = ch CHR '';'' \<and> seen then []
      else c # sex_token (seen \<or> c = ch CHR '';'') cs)"

definition read_sexagesimal :: "numerics \<Rightarrow> input \<Rightarrow> (datum \<times> input) res" where
  "read_sexagesimal nm cs =
     (let tok = sex_token False cs; buf = sb_bytes tok; r = drop (length tok) cs in
      if buf = [] then Inl (read_error ''empty sexagesimal literal after #s'')
      else let negative = (hd buf = CHR ''-''); digits = cstr (if negative \<or> hd buf = CHR ''+'' then tl buf else buf) in
        rbind (if digits = [] then Inr None else sex_parse_neugebauer nm digits) (\<lambda>v. case v of
          None \<Rightarrow> Inl (read_error ''invalid sexagesimal literal after #s'')
        | Some n \<Rightarrow> if negative then rbind (num_neg nm n) (\<lambda>n'. Inr (n', r)) else Inr (n, r)))"

section \<open>Data\<close>

definition wrap1 :: "string \<Rightarrow> datum \<Rightarrow> datum" where
  "wrap1 s v = D_Pair (D_Sym s) (D_Pair v D_Nil)"

definition wrapped :: "string \<Rightarrow> (datum \<times> input) res \<Rightarrow> (datum \<times> input) res" where
  "wrapped s m = rbind m (\<lambda>(v, r). Inr (wrap1 s v, r))"

fun elements :: "datum \<Rightarrow> datum list" where
  "elements (D_Pair a b) = a # elements b"
| "elements d = []"

definition read_vector :: "(datum \<times> input) res \<Rightarrow> (datum \<times> input) res" where
  "read_vector m = rbind m (\<lambda>(l, r). Inr (D_Vec (elements l), r))"

fun vunfix_datum :: "numerics \<Rightarrow> datum \<Rightarrow> int" where
  "vunfix_datum nm (D_Fix i) = i"
| "vunfix_datum nm d = unfix_other nm d"

fun bytes_of :: "numerics \<Rightarrow> datum list \<Rightarrow> nat list res" where
  "bytes_of nm [] = Inr []"
| "bytes_of nm (d # ds) = (let b = vunfix_datum nm d in
     if b < 0 \<or> 255 < b then Inl (read_error ''bytevector element out of range'')
     else rbind (bytes_of nm ds) (\<lambda>bs. Inr (nat b # bs)))"

definition read_bytevector :: "numerics \<Rightarrow> (datum \<times> input) res \<Rightarrow> (datum \<times> input) res" where
  "read_bytevector nm m = rbind m (\<lambda>(l, r). rbind (bytes_of nm (elements l)) (\<lambda>bs. Inr (D_Bytes bs, r)))"

fun skip_block :: "nat \<Rightarrow> int \<Rightarrow> input \<Rightarrow> input option" where
  "skip_block depth prev [] = (if depth = 0 then Some [] else None)"
| "skip_block depth prev (c # cs) =
     (if depth = 0 then Some (c # cs)
      else skip_block (depth + (if prev = ch CHR ''#'' \<and> c = ch CHR ''|'' then 1 else 0) - (if prev = ch CHR ''|'' \<and> c = ch CHR ''#'' then 1 else 0)) c cs)"

text \<open>A number with a radix prefix; a token that is no number reads as false.\<close>

definition read_radix :: "numerics \<Rightarrow> nat \<Rightarrow> input \<Rightarrow> (datum \<times> input) res" where
  "read_radix nm radix cs = rbind (parse_number nm (cstr (sb_bytes (token cs))) radix False False)
     (\<lambda>v. Inr (case v of Some n \<Rightarrow> n | None \<Rightarrow> D_False, after_token cs))"

text \<open>What follows a comma, with the names of the short and of the splicing form.\<close>

definition read_unquote :: "(input \<Rightarrow> (datum \<times> input) res) \<Rightarrow> string \<Rightarrow> string \<Rightarrow> input \<Rightarrow> (datum \<times> input) res" where
  "read_unquote rd plain splicing cs =
     (if peek_char_port cs = ch CHR ''@'' then wrapped splicing (rd (snd (next_char cs))) else wrapped plain (rd cs))"

text \<open>
  The syntax after a hash sign; \<open>rd\<close> and \<open>rl\<close> are the recursive calls of \<open>read_datum\<close> and of \<open>read_list\<close> inside a container.
\<close>

definition read_hash :: "numerics \<Rightarrow> (input \<Rightarrow> (datum \<times> input) res) \<Rightarrow> (input \<Rightarrow> (datum \<times> input) res) \<Rightarrow> input \<Rightarrow> (datum \<times> input) res" where
  "read_hash nm rd rl cs = (case next_char cs of (h, r) \<Rightarrow>
     if h = 39 then wrapped ''syntax'' (rd r)
     else if h = ch CHR ''`'' then wrapped ''quasisyntax'' (rd r)
     else if h = ch CHR '','' then read_unquote rd ''unsyntax'' ''unsyntax-splicing'' r
     else if h = ch CHR ''t'' then Inr (D_True, if peek_char_port r = ch CHR ''r'' then drop 3 r else r)
     else if h = ch CHR ''f'' then Inr (D_False, if peek_char_port r = ch CHR ''a'' then drop 4 r else r)
     else if h = ch CHR 0x5C then read_char_literal r
     else if h = ch CHR ''('' then read_vector (rl r)
     else if h = ch CHR ''u'' then
       (if peek_char_port r \<noteq> ch CHR ''8'' \<or> peek_char_port (tl r) \<noteq> ch CHR ''('' then Inl (read_error ''expected #u8('') else read_bytevector nm (rl (drop 2 r)))
     else if h = ch CHR ''|'' then
       (case skip_block 1 0 r of None \<Rightarrow> Inl (read_error ''unterminated block comment'') | Some r' \<Rightarrow> rd r')
     else if h = ch CHR ''!'' then rd (skip_line r)
     else if h = ch CHR '';'' then rbind (rd r) (\<lambda>(_, r'). rd r')
     else if h = ch CHR '':'' then Inr (D_Sym (''#:'' @ sb_utf8 (token r)), after_token r)
     else if h \<in> {ch CHR ''b'', ch CHR ''B''} then read_radix nm 2 r
     else if h \<in> {ch CHR ''o'', ch CHR ''O''} then read_radix nm 8 r
     else if h \<in> {ch CHR ''d'', ch CHR ''D''} then read_radix nm 10 r
     else if h \<in> {ch CHR ''x'', ch CHR ''X''} then read_radix nm 16 r
     else if h \<in> {ch CHR ''e'', ch CHR ''E''} then rbind (rd r) (\<lambda>(v, r'). rbind (num_exact nm v) (\<lambda>n. Inr (n, r')))
     else if h \<in> {ch CHR ''i'', ch CHR ''I''} then rbind (rd r) (\<lambda>(v, r'). rbind (num_inexact nm v) (\<lambda>n. Inr (n, r')))
     else if h \<in> {ch CHR ''s'', ch CHR ''S''} then read_sexagesimal nm r
     else Inl (read_error ''unknown # syntax''))"

text \<open>The last case of \<open>read_datum\<close>: a token that begins with the character \<open>c\<close>.\<close>

definition read_token :: "numerics \<Rightarrow> nat \<Rightarrow> int \<Rightarrow> input \<Rightarrow> (datum \<times> input) res" where
  "read_token nm cont c r =
     (if SEX_IS_CUNEIFORM c then read_cuneiform nm cont c r
      else rbind (symbol_or_number nm (sb_utf8 (c # token r))) (\<lambda>v. Inr (v, after_token r)))"

text \<open>
  The cases of \<open>read_datum\<close>; \<open>rd\<close> and \<open>rl\<close> are the recursive calls of \<open>read_datum\<close> and of \<open>read_list\<close> up to a closing delimiter.
\<close>

definition read_case :: "numerics \<Rightarrow> nat \<Rightarrow> (input \<Rightarrow> (datum \<times> input) res) \<Rightarrow> (int \<Rightarrow> input \<Rightarrow> (datum \<times> input) res) \<Rightarrow> input \<Rightarrow> (datum \<times> input) res" where
  "read_case nm cont rd rl cs = (case next_char (skip_whitespace cs) of (c, r) \<Rightarrow>
     if c = -1 then Inr (D_Eof, r)
     else if c = ch CHR ''('' then rl (ch CHR '')'') r
     else if c = ch CHR ''['' then rl (ch CHR '']'') r
     else if c = ch CHR '')'' \<or> c = ch CHR '']'' then Inl (read_error ''unexpected closing delimiter'')
     else if c = 34 then read_string r
     else if c = 39 then wrapped ''quote'' (rd r)
     else if c = ch CHR ''`'' then wrapped ''quasiquote'' (rd r)
     else if c = ch CHR '','' then read_unquote rd ''unquote'' ''unquote-splicing'' r
     else if c = ch CHR ''#'' then read_hash nm rd (rl (ch CHR '')'')) r
     else read_token nm cont c r)"

text \<open>
  \<open>read_datum\<close>, \<open>read_list\<close> and \<open>read_list_tail\<close> call each other; each call checks how much of the C stack is left,
  which is the first number. The second is \<open>g_read_container_depth\<close>.
\<close>

fun read_datum :: "numerics \<Rightarrow> nat \<Rightarrow> nat \<Rightarrow> input \<Rightarrow> (datum \<times> input) res"
  and read_list :: "numerics \<Rightarrow> nat \<Rightarrow> nat \<Rightarrow> int \<Rightarrow> input \<Rightarrow> (datum \<times> input) res"
  and read_list_tail :: "numerics \<Rightarrow> nat \<Rightarrow> nat \<Rightarrow> int \<Rightarrow> input \<Rightarrow> (datum \<times> input) res"
where
  "read_datum nm 0 cont cs = rbind (check_c_stack_depth 0 ''read'') (\<lambda>_. Inr (D_Undef, cs))"
| "read_datum nm (Suc d) cont cs = read_case nm cont (\<lambda>r. read_datum nm d cont r) (\<lambda>close r. read_list nm d (cont + 1) close r) cs"
| "read_list nm 0 cont close cs = rbind (check_c_stack_depth 0 ''read'') (\<lambda>_. Inr (D_Undef, cs))"
| "read_list nm (Suc d) cont close cs = (let cs' = skip_whitespace cs; c = peek_char_port cs' in
     if c = close then Inr (D_Nil, snd (next_char cs'))
     else if c = -1 then Inl (read_error ''unexpected EOF in list'')
     else rbind
       (if c = ch CHR ''.'' then
          (let r = snd (next_char cs') in
           if is_delimiter (peek_char_port r)
           then Inl (read_error ''unexpected dot at start of list -- a datum must precede '.' in a dotted pair'')
           else rbind (dot_token_datum nm (CHR ''.'' # sb_utf8 (token r))) (\<lambda>v. Inr (v, after_token r)))
        else read_datum nm d cont cs')
       (\<lambda>(head, r). rbind (read_list_tail nm d cont close r) (\<lambda>(rest, r'). Inr (D_Pair head rest, r'))))"
| "read_list_tail nm 0 cont close cs = rbind (check_c_stack_depth 0 ''read'') (\<lambda>_. Inr (D_Undef, cs))"
| "read_list_tail nm (Suc d) cont close cs = (let cs' = skip_whitespace cs in
     if peek_char_port cs' = ch CHR ''.'' then
       (let r = snd (next_char cs') in
        if is_delimiter (peek_char_port r) then
          rbind (read_datum nm d cont (skip_whitespace r)) (\<lambda>(cdr, r').
            case next_char (skip_whitespace r') of (c, r'') \<Rightarrow>
              if c \<noteq> close then Inl (read_error ''expected closing paren after dot'') else Inr (cdr, r''))
        else rbind (dot_token_datum nm (CHR ''.'' # sb_utf8 (token r))) (\<lambda>v.
          rbind (read_list_tail nm d cont close (after_token r)) (\<lambda>(rest, r'). Inr (D_Pair v rest, r'))))
     else read_list nm d cont close cs')"

lemmas read_datum_case = read_datum.simps(2) [unfolded read_case_def]

declare read_datum.simps(2) [simp del]

declare read_datum_case [simp]

text \<open>The entry points; \<open>stack\<close> is what is left of the C stack. \<open>scm_read_all\<close> reads until the end of the input.\<close>

definition scm_read :: "numerics \<Rightarrow> nat \<Rightarrow> input \<Rightarrow> (datum \<times> input) res" where
  "scm_read nm stack cs = read_datum nm stack 0 (skip_whitespace cs)"

definition scm_read_cstr :: "numerics \<Rightarrow> nat \<Rightarrow> string \<Rightarrow> datum res" where
  "scm_read_cstr nm stack src = rbind (read_datum nm stack 0 (port_left (port_open_input_string (cstr src)))) (\<lambda>(v, _). Inr v)"

section \<open>Progress\<close>

text \<open>Every datum but the end of the input takes at least one character.\<close>

definition shortens :: "input \<Rightarrow> ('a \<times> input) res \<Rightarrow> bool" where
  "shortens cs m \<longleftrightarrow> (\<forall>v r. m = Inr (v, r) \<longrightarrow> length r \<le> length cs)"

lemma shortens_Inr [simp]: "shortens cs (Inr (v, r)) \<longleftrightarrow> length r \<le> length cs" and shortens_Inl [simp]: "shortens cs (Inl e)"
  by (auto simp: shortens_def)

lemma shortens_bind: "(\<And>x. m = Inr x \<Longrightarrow> shortens cs (f x)) \<Longrightarrow> shortens cs (rbind m f)"
  by (cases m) auto

lemma shortens_bind_pair:
  "shortens cs m \<Longrightarrow> (\<And>v r. length r \<le> length cs \<Longrightarrow> shortens cs (f (v, r))) \<Longrightarrow> shortens cs (rbind m f)"
  by (rule shortens_bind) (auto simp: shortens_def)

lemma shortens_if: "(P \<Longrightarrow> shortens cs a) \<Longrightarrow> (\<not> P \<Longrightarrow> shortens cs b) \<Longrightarrow> shortens cs (if P then a else b)"
  by simp

lemma shortens_le: "shortens cs m \<Longrightarrow> length cs \<le> length cs' \<Longrightarrow> shortens cs' m"
  by (auto simp: shortens_def intro: order_trans)

lemma skip_whitespace_length: "length (skip_whitespace cs) \<le> length cs"
proof (induction cs rule: skip_whitespace.induct)
  case (2 c cs)
  then show ?case using skip_line_length [of cs] by auto
qed simp

lemma after_token_length: "length (after_token cs) \<le> length cs"
  by (simp add: after_token_def length_dropWhile_le)

lemma skip_block_length: "skip_block depth prev cs = Some r \<Longrightarrow> length r \<le> length cs"
  by (induction depth prev cs rule: skip_block.induct) (auto split: if_splits)

lemma cuneiform_glyphs_length: "cuneiform_glyphs cont acc cs = (g, b, r) \<Longrightarrow> length r \<le> length cs"
  by (induction cont acc cs rule: cuneiform_glyphs.induct) (auto split: if_splits)

lemma read_string_loop_shortens: "shortens cs (read_string_loop sb cs)"
proof (induction "length cs" arbitrary: cs sb rule: less_induct)
  case less
  obtain c q where c: "next_char cs = (c, q)" by fastforce
  obtain esc q' where esc: "next_char q = (esc, q')" by fastforce
  have shorter: "c \<noteq> -1 \<Longrightarrow> length q < length cs" "length q' \<le> length q" using next_char_length [OF c] next_char_length [OF esc] by auto
  have rec: "shortens cs (read_string_loop sb' cs')" if "length cs' < length cs" for sb' cs'
    using less [OF that] that by (blast intro: shortens_le less_imp_le)
  have "c \<noteq> -1 \<Longrightarrow> length q' < length cs" using shorter by linarith
  then show ?case by (subst read_string_loop.simps) (auto simp: c esc Let_def shorter less_imp_le intro!: rec drop_shorter)
qed

lemma read_string_shortens: "shortens cs (read_string cs)"
  using read_string_loop_shortens [of cs "[]"] by (auto simp: read_string_def shortens_def rbind_Inr_iff)

lemma read_char_literal_shortens: "shortens cs (read_char_literal cs)"
proof -
  obtain c q where c: "next_char cs = (c, q)" by fastforce
  then have "length (after_token q) \<le> length cs" using next_char_length [OF c] after_token_length [of q] by auto
  then show ?thesis by (simp add: read_char_literal_def c Let_def split: option.split)
qed

lemma read_sexagesimal_shortens: "shortens cs (read_sexagesimal nm cs)"
  by (auto simp: read_sexagesimal_def Let_def intro!: shortens_bind split: option.splits)

lemma read_radix_shortens: "shortens cs (read_radix nm radix cs)"
  by (auto simp: read_radix_def after_token_length intro!: shortens_bind)

lemma read_cuneiform_shortens: "shortens cs (read_cuneiform nm cont c cs)"
proof -
  obtain g b r where g: "cuneiform_glyphs cont [c] cs = (g, b, r)" by (metis prod_cases3)
  then have "length r \<le> length cs" "length r - n \<le> length cs" for n using cuneiform_glyphs_length by (blast, metis diff_le_self le_trans)
  then show ?thesis by (auto simp: read_cuneiform_def g Let_def intro!: shortens_bind split: option.splits)
qed

lemma read_token_shortens: "shortens cs (read_token nm cont c cs)"
  by (auto simp: read_token_def read_cuneiform_shortens after_token_length intro!: shortens_bind)

lemma wrapped_shortens: "shortens cs m \<Longrightarrow> shortens cs (wrapped s m)"
  unfolding wrapped_def by (erule shortens_bind_pair) simp

lemma read_vector_shortens: "shortens cs m \<Longrightarrow> shortens cs (read_vector m)"
  unfolding read_vector_def by (erule shortens_bind_pair) simp

lemma read_bytevector_shortens: "shortens cs m \<Longrightarrow> shortens cs (read_bytevector nm m)"
  unfolding read_bytevector_def by (erule shortens_bind_pair) (auto intro!: shortens_bind)

lemma read_unquote_shortens:
  assumes "\<And>r. length r \<le> length cs' \<Longrightarrow> shortens cs' (rd r)" "length cs \<le> length cs'"
  shows "shortens cs' (read_unquote rd p s cs)"
proof -
  have "length (snd (next_char cs)) \<le> length cs'" using next_char_length [of cs] assms(2) by (cases "next_char cs") auto
  then show ?thesis using assms by (auto simp: read_unquote_def intro: wrapped_shortens)
qed

lemma read_hash_shortens:
  assumes rd: "\<And>r. shortens r (rd r)" and rl: "\<And>r. shortens r (rl r)"
  shows "shortens cs (read_hash nm rd rl cs)"
proof -
  obtain h r where h: "next_char cs = (h, r)" by fastforce
  then have r: "length r \<le> length cs" using next_char_length by blast
  have calls: "shortens cs (rd q)" "shortens cs (rl q)" if "length q \<le> length cs" for q using that rd rl by (auto intro: shortens_le)
  have comment: "shortens cs (case skip_block 1 0 r of None \<Rightarrow> Inl e | Some q \<Rightarrow> rd q)" for e
    using skip_block_length [of 1 0 r] r by (auto split: option.splits intro!: calls elim: order_trans)
  have lengths: "length (skip_line r) \<le> length cs" "length (after_token r) \<le> length cs" "length r - n \<le> length cs" for n
    using skip_line_length [of r] after_token_length [of r] r by linarith+
  have other: "shortens cs (read_char_literal r)" "shortens cs (read_radix nm k r)" "shortens cs (read_sexagesimal nm r)" for k
    using r read_char_literal_shortens read_radix_shortens read_sexagesimal_shortens by (blast intro: shortens_le)+
  have again: "shortens cs (rbind (rd r) (\<lambda>(v, q). rd q))" "shortens cs (rbind (rd r) (\<lambda>(v, q). rbind (f v) (\<lambda>n. Inr (n, q))))" for f
    using calls(1) [OF r] by (auto elim!: shortens_bind_pair intro!: shortens_bind calls)
  have nested: "shortens cs (wrapped s (rd r))" "shortens cs (read_vector (rl r))" "shortens cs (read_bytevector nm (rl (drop 2 r)))"
    "shortens cs (read_unquote rd p s r)" "shortens cs (rd (skip_line r))" for s p
    using calls r lengths by (auto intro!: wrapped_shortens read_vector_shortens read_bytevector_shortens read_unquote_shortens)
  show ?thesis unfolding read_hash_def h prod.case
    by (intro shortens_if; (rule nested comment other again shortens_Inl | simp add: r lengths))
qed

lemma dot_element_shortens: "shortens cs (rbind (dot_token_datum nm b) (\<lambda>v. Inr (v, after_token r)))" if "length r \<le> length cs"
  using after_token_length [of r] that by (intro shortens_bind) auto

lemma read_first_shortens:
  assumes IH: "\<And>cont r. shortens r (read_datum nm d cont r)" "\<And>cont k r. shortens r (read_list nm d cont k r)"
    and c: "next_char (skip_whitespace cs) = (c, r)" "c \<noteq> -1"
  shows "shortens r (read_datum nm (Suc d) cont cs)"
proof -
  have hash: "shortens r (read_hash nm (\<lambda>r. read_datum nm d cont r) (\<lambda>r. read_list nm d (cont + 1) k r) r)" for k
    by (rule read_hash_shortens) (auto intro: IH)
  have nested: "shortens r (wrapped s (read_datum nm d cont r))" "shortens r (read_unquote (\<lambda>r. read_datum nm d cont r) p s r)" for s p
    by (auto intro!: wrapped_shortens read_unquote_shortens IH intro: shortens_le)
  show ?thesis unfolding read_datum_case c prod.case
    by (intro shortens_if; (rule read_string_shortens read_token_shortens hash nested shortens_Inl IH | simp add: c))
qed

lemma read_shortens:
  "shortens cs (read_datum nm d cont cs)" "shortens cs (read_list nm d cont close cs)" "shortens cs (read_list_tail nm d cont close cs)"
proof (induction d arbitrary: cont close cs)
  case 0
  { case 1 show ?case by (simp add: check_c_stack_depth_def) next
    case 2 show ?case by (simp add: check_c_stack_depth_def) next
    case 3 show ?case by (simp add: check_c_stack_depth_def) }
next
  case (Suc d)
  have next_le: "length (snd (next_char (skip_whitespace cs))) \<le> length cs" for cs
    using next_char_length [of "skip_whitespace cs"] skip_whitespace_length [of cs] by (cases "next_char (skip_whitespace cs)") auto
  have calls: "shortens cs (read_datum nm d cont r)" "shortens cs (read_list nm d cont close r)" "shortens cs (read_list_tail nm d cont close r)"
    if "length r \<le> length cs" for cont close and r cs :: input
    using Suc that by (blast intro: shortens_le)+
  { case 1
    obtain c r where c: "next_char (skip_whitespace cs) = (c, r)" by fastforce
    have r: "length r \<le> length cs" using next_le [of cs] c by simp
    show ?case
    proof (cases "c = -1")
      case False
      show ?thesis by (rule shortens_le [OF read_first_shortens [OF Suc(1,2) c False] r])
    qed (use c r in simp)
  next
    case 2
    have rest: "shortens cs (rbind (read_list_tail nm d cont close r) (\<lambda>(rest, r'). Inr (D_Pair h rest, r')))" if "length r \<le> length cs" for h r
      using calls(3) [OF that] by (rule shortens_bind_pair) simp
    show ?case using next_le [of cs] skip_whitespace_length [of cs]
      by (auto simp: Let_def intro!: shortens_bind_pair dot_element_shortens calls rest)
  next
    case 3
    let ?r = "snd (next_char (skip_whitespace cs))"
    have closing: "shortens cs (case next_char (skip_whitespace r) of (c, r') \<Rightarrow> if c \<noteq> close then Inl e else Inr (v, r'))"
      if "length r \<le> length cs" for r e and v :: datum using next_le [of r] that by (cases "next_char (skip_whitespace r)") auto
    have rest: "shortens cs (rbind (read_list_tail nm d cont close (after_token ?r)) (\<lambda>(rest, r'). Inr (D_Pair v rest, r')))" for v
      using after_token_length [of ?r] next_le [of cs] by (intro shortens_bind_pair calls) auto
    show ?case using next_le [of cs] skip_whitespace_length [of cs] skip_whitespace_length [of ?r]
      by (auto simp: Let_def intro!: shortens_bind_pair [OF calls(1)] shortens_bind [of "dot_token_datum nm _"] closing rest calls) }
qed

lemma read_datum_progress:
  assumes "read_datum nm d cont cs = Inr (v, r)" "v \<noteq> D_Eof"
  shows "length r < length cs"
proof (cases d)
  case (Suc d')
  obtain c q where c: "next_char (skip_whitespace cs) = (c, q)" by fastforce
  then have eof: "c \<noteq> -1" using assms Suc by auto
  then have "length q < length cs" using next_char_length [OF c] skip_whitespace_length [of cs] by linarith
  moreover have "length r \<le> length q"
    using read_first_shortens [OF read_shortens(1,2) c eof] assms(1) unfolding Suc shortens_def by blast
  ultimately show ?thesis by linarith
qed (use assms in \<open>simp add: check_c_stack_depth_def\<close>)

text \<open>\<open>scm_read_all\<close>: every datum up to the end of the input.\<close>

function read_all_loop :: "numerics \<Rightarrow> nat \<Rightarrow> datum list \<Rightarrow> input \<Rightarrow> datum list res" where
  "read_all_loop nm stack acc cs =
     rbind (read_datum nm stack 0 cs) (\<lambda>x. if fst x = D_Eof then Inr (rev acc) else read_all_loop nm stack (fst x # acc) (snd x))"
  by pat_completeness auto
termination
  by (relation "measure (\<lambda>(nm, stack, acc, cs). length cs)") (auto intro: read_datum_progress)

definition scm_read_all :: "numerics \<Rightarrow> nat \<Rightarrow> input \<Rightarrow> datum list res" where
  "scm_read_all nm stack cs = read_all_loop nm stack [] cs"

end
