(* ===== verification/Writer.thy ===== *)
theory Writer
  imports Reader
begin

text \<open>
  The plain writer (\<open>scm_write\<close> of \<open>src/src/port.c\<close>, which is \<open>write-simple\<close>) on the data that the reader makes, in the
  decimal notation. Its output is the text sent to the port. The notation of \<open>current-number-notation\<close> other than decimal, the
  datum labels of \<open>write\<close> for shared structure and the texts of procedures and other opaque objects are not modelled.
\<close>

section \<open>Decimal numbers\<close>

text \<open>\<open>%u\<close> and \<open>%ld\<close> of \<open>snprintf\<close>.\<close>

definition digit_char :: "nat \<Rightarrow> char" where
  "digit_char n = char_of (n + 48)"

fun show_nat :: "nat \<Rightarrow> string" where
  "show_nat n = (if n < 10 then [digit_char n] else show_nat (n div 10) @ [digit_char (n mod 10)])"

declare show_nat.simps [simp del]

definition show_int :: "int \<Rightarrow> string" where
  "show_int i = (if i < 0 then CHR ''-'' # show_nat (nat (- i)) else show_nat (nat i))"

section \<open>Data\<close>

definition escape_byte :: "char \<Rightarrow> string" where
  "escape_byte c =
     (if c = CHR 0x22 then [CHR 0x5C, CHR 0x22]
      else if c = CHR 0x5C then [CHR 0x5C, CHR 0x5C]
      else if c = CHR 0x0A then [CHR 0x5C, CHR ''n'']
      else if c = CHR 0x0D then [CHR 0x5C, CHR ''r'']
      else if c = CHR 0x09 then [CHR 0x5C, CHR ''t'']
      else [c])"

definition write_string_escaped :: "string \<Rightarrow> string" where
  "write_string_escaped s = [CHR 0x22] @ concat (map escape_byte s) @ [CHR 0x22]"

definition write_char :: "int \<Rightarrow> string" where
  "write_char cp = [CHR ''#'', CHR 0x5C] @
     (if cp = 32 then ''space'' else if cp = 10 then ''newline'' else if cp = 9 then ''tab'' else utf8 cp)"

fun write_bytes :: "nat list \<Rightarrow> string" where
  "write_bytes [] = []"
| "write_bytes [b] = show_nat b"
| "write_bytes (b # bs) = show_nat b @ '' '' @ write_bytes bs"

text \<open>
  \<open>scm_write_ctx\<close> with the loops over the rest of a list and over the elements of a vector; the number is what is
  left of the C stack.
\<close>

function scm_write_ctx :: "numerics \<Rightarrow> nat \<Rightarrow> datum \<Rightarrow> string res"
  and write_rest :: "numerics \<Rightarrow> nat \<Rightarrow> datum \<Rightarrow> string res"
  and write_elements :: "numerics \<Rightarrow> nat \<Rightarrow> datum list \<Rightarrow> string res"
where
  "scm_write_ctx nm 0 v = rbind (check_c_stack_depth 0 ''write'') (\<lambda>_. Inr [])"
| "scm_write_ctx nm (Suc d) v = (case v of
     D_Nil \<Rightarrow> Inr ''()''
   | D_Void \<Rightarrow> Inr []
   | D_Eof \<Rightarrow> Inr ''#<eof>''
   | D_False \<Rightarrow> Inr ''#f''
   | D_True \<Rightarrow> Inr ''#t''
   | D_Fix i \<Rightarrow> Inr (show_int i)
   | D_Char cp \<Rightarrow> Inr (write_char cp)
   | D_Str s \<Rightarrow> Inr (write_string_escaped s)
   | D_Sym s \<Rightarrow> Inr s
   | D_Number n \<Rightarrow> Inr (number_text nm n)
   | D_Pair a b \<Rightarrow> rbind (scm_write_ctx nm d a) (\<lambda>x. rbind (write_rest nm d b) (\<lambda>y. Inr (''('' @ x @ y)))
   | D_Vec vs \<Rightarrow> rbind (write_elements nm d vs) (\<lambda>x. Inr (''#('' @ x @ '')''))
   | D_Bytes bs \<Rightarrow> Inr (''#u8('' @ write_bytes bs @ '')'')
   | D_Undef \<Rightarrow> Inr ''#<object 0>'')"
| "write_rest nm d v = (case v of
     D_Pair a b \<Rightarrow> rbind (scm_write_ctx nm d a) (\<lambda>x. rbind (write_rest nm d b) (\<lambda>y. Inr ('' '' @ x @ y)))
   | D_Nil \<Rightarrow> Inr '')''
   | _ \<Rightarrow> rbind (scm_write_ctx nm d v) (\<lambda>x. Inr ('' . '' @ x @ '')'')))"
| "write_elements nm d [] = Inr []"
| "write_elements nm d (v # vs) = rbind (scm_write_ctx nm d v) (\<lambda>x.
     rbind (write_elements nm d vs) (\<lambda>y. Inr (x @ (if vs = [] then [] else '' '') @ y)))"
  by pat_completeness auto
termination
  by (relation "measures [\<lambda>x. case x of Inl (nm, d, v) \<Rightarrow> d | Inr (Inl (nm, d, v)) \<Rightarrow> d | Inr (Inr (nm, d, vs)) \<Rightarrow> d,
      \<lambda>x. case x of Inl (nm, d, v) \<Rightarrow> 0 | Inr (Inl (nm, d, v)) \<Rightarrow> Suc (size v) | Inr (Inr (nm, d, vs)) \<Rightarrow> Suc (length vs)]") auto

declare write_rest.simps [simp del]

lemma write_rest_list [simp]:
  "write_rest nm d (D_Pair a b) = rbind (scm_write_ctx nm d a) (\<lambda>x. rbind (write_rest nm d b) (\<lambda>y. Inr ('' '' @ x @ y)))"
  "write_rest nm d D_Nil = Inr '')''"
  by (subst write_rest.simps; simp)+

definition scm_write :: "numerics \<Rightarrow> nat \<Rightarrow> datum \<Rightarrow> oport \<Rightarrow> oport res" where
  "scm_write nm stack v p = rbind (scm_write_ctx nm stack v) (\<lambda>s. Inr (port_write_string s p))"

end
