(* ===== verification/Read_Write.thy ===== *)
theory Read_Write
  imports Writer
begin

text \<open>
  Reading what was written. The text of a datum is the UTF-8 encoding of a sequence of characters (\<open>written\<close>), on
  which the reader is run; what follows the text must not continue its last token.
\<close>

section \<open>Characters and bytes\<close>

abbreviation scalar :: "int \<Rightarrow> bool" where
  "scalar c \<equiv> 0 \<le> c \<and> c < 0x200000"

lemma characters_sb_utf8: "list_all scalar cs \<Longrightarrow> characters (sb_utf8 cs) = cs"
  by (induction cs) (auto simp: sb_utf8_def characters_utf8)

lemma sb_utf8_simps [simp]: "sb_utf8 [] = []" "sb_utf8 (c # cs) = utf8 c @ sb_utf8 cs" "sb_utf8 (cs @ ds) = sb_utf8 cs @ sb_utf8 ds"
  by (simp_all add: sb_utf8_def)

definition codes :: "string \<Rightarrow> input" where
  "codes s = map of_char s"

lemma codes_simps [simp]: "codes [] = []" "codes (c # s) = of_char c # codes s" "codes (s @ t) = codes s @ codes t"
  by (simp_all add: codes_def)

definition ascii :: "string \<Rightarrow> bool" where
  "ascii s = list_all (\<lambda>c. of_char c < (128 :: int)) s"

lemma utf8_ascii: "of_char c < (128 :: int) \<Longrightarrow> utf8 (of_char c) = [c]"
  by (simp add: utf8_def)

lemma sb_utf8_codes: "ascii s \<Longrightarrow> sb_utf8 (codes s) = s"
  by (induction s) (auto simp: ascii_def utf8_ascii)

lemma of_char_nonneg [simp]: "0 \<le> (of_char c :: int)"
  by (metis of_nat_0_le_iff of_nat_of_char)

lemma of_char_not_eof [simp]: "(of_char c :: int) \<noteq> -1"
  using of_char_nonneg [of c] by linarith

lemma scalar_codes: "ascii s \<Longrightarrow> list_all scalar (codes s)"
  by (induction s) (auto simp: ascii_def)

lemma port_left_open: "port_left (port_open_input_string s) = characters s"
  by (simp add: port_left_def port_open_input_string_def)

section \<open>Decimal numbers\<close>

lemma digit_char: "n < 10 \<Longrightarrow> digit_value (digit_char n) = n" "n < 10 \<Longrightarrow> of_char (digit_char n) = int n + 48"
proof -
  assume n: "n < 10"
  have "of_char (digit_char n) = (n + 48) mod (256 :: nat)" unfolding digit_char_def by (rule of_char_of)
  with n have nat: "of_char (digit_char n) = n + 48" by simp
  then show "digit_value (digit_char n) = n" using n by (simp add: digit_value_def)
  show "of_char (digit_char n) = int n + 48" using nat of_nat_of_char [of "digit_char n", where 'a = int] by simp
qed

lemma show_nat_digits: "c \<in> set (show_nat n) \<Longrightarrow> is_digit 10 c \<and> 48 \<le> (of_char c :: int) \<and> of_char c \<le> (57 :: int)"
proof (induction n rule: show_nat.induct)
  case (1 n)
  then show ?case by (subst (asm) (2) show_nat.simps) (auto simp: digit_char split: if_splits)
qed

lemma show_nat_nonempty [simp]: "show_nat n \<noteq> []"
  by (subst show_nat.simps) simp

lemma digits_value_snoc: "digits_value radix (ds @ [c]) = digits_value radix ds * radix + digit_value c"
  by (simp add: digits_value_def)

lemma show_nat_value: "digits_value 10 (show_nat n) = n"
proof (induction n rule: show_nat.induct)
  case (1 n)
  show ?case
  proof (cases "n < 10")
    case True
    then show ?thesis by (subst show_nat.simps) (simp add: digits_value_def digit_char)
  next
    case False
    then show ?thesis using 1 by (subst show_nat.simps) (simp add: digits_value_snoc digit_char)
  qed
qed

lemma digit_not_space: "48 \<le> (of_char c :: int) \<Longrightarrow> \<not> cspace c \<and> c \<noteq> CHR ''-'' \<and> c \<noteq> CHR ''+''"
  by (auto simp: isspace_def)

lemma strtol_digits:
  assumes "ds \<noteq> []" "\<forall>c\<in>set ds. is_digit 10 c \<and> 48 \<le> (of_char c :: int)" "digits_value 10 ds < 2 ^ 63"
  shows "strtol ds 10 = (int (digits_value 10 ds), False, [])" "strtol (CHR ''-'' # ds) 10 = (- int (digits_value 10 ds), False, [])"
proof -
  obtain c r where ds: "ds = c # r" using assms(1) by (cases ds) auto
  then have "skip_sign ds = (False, ds)" using assms(2) digit_not_space by (auto simp: skip_sign_def)
  moreover have "skip_sign (CHR ''-'' # ds) = (True, ds)" by (simp add: skip_sign_def isspace_def)
  moreover have "skip_0x 10 ds = ds" by (auto simp: skip_0x_def split: list.splits)
  moreover have "int (digits_value 10 ds) < 2 ^ 63" using assms(3) by (metis of_nat_less_iff of_nat_numeral of_nat_power)
  moreover have all: "takeWhile (is_digit 10) ds = ds" "dropWhile (is_digit 10) ds = []" using assms(2) by (auto simp: takeWhile_eq_all_conv)
  ultimately show "strtol ds 10 = (int (digits_value 10 ds), False, [])" "strtol (CHR ''-'' # ds) 10 = (- int (digits_value 10 ds), False, [])"
    using assms(1) unfolding strtol_def Let_def by (simp_all add: all del: takeWhile_eq_all_conv dropWhile_eq_Nil_conv)
qed

lemma strtol_show_int:
  assumes "in_fixnum_range i"
  shows "strtol (show_int i) 10 = (i, False, [])"
proof -
  have "nat \<bar>i\<bar> < 2 ^ 63" using assms by (auto simp: in_fixnum_range_def FIXNUM_MAX_eq FIXNUM_MIN_eq nat_less_iff)
  then show ?thesis using strtol_digits [of "show_nat (nat \<bar>i\<bar>)"] show_nat_digits
    by (auto simp: show_int_def show_nat_value abs_if split: if_splits)
qed

lemma show_int_chars: "c \<in> set (show_int i) \<Longrightarrow> c = CHR ''-'' \<or> 48 \<le> (of_char c :: int) \<and> of_char c \<le> (57 :: int)"
  using show_nat_digits by (auto simp: show_int_def split: if_splits)

lemma show_int_not_special: "CHR ''.'' \<notin> set (show_int i)"
  using show_int_chars [of "CHR ''.''" i] by auto

lemma parse_show_int:
  assumes "in_fixnum_range i"
  shows "parse_number nm (show_int i) 10 False False = Inr (Some (D_Fix i))"
proof -
  have "show_int i \<noteq> []" by (simp add: show_int_def)
  moreover have "show_int i \<noteq> ''+inf.0'' \<and> show_int i \<noteq> ''-inf.0'' \<and> show_int i \<noteq> ''+nan.0'' \<and> show_int i \<noteq> ''-nan.0''"
    using show_int_not_special [of i] by auto
  ultimately show ?thesis using assms by (subst parse_number.simps) (simp add: strtol_show_int made_def)
qed

section \<open>Which data can be read back\<close>

definition valid_utf8 :: "string \<Rightarrow> bool" where
  "valid_utf8 s \<longleftrightarrow> sb_utf8 (characters s) = s \<and> list_all scalar (characters s)"

text \<open>
  A symbol is written as it is: its name must be a token that the reader does not take for something else.
\<close>

definition symbol_ok :: "numerics \<Rightarrow> string \<Rightarrow> bool" where
  "symbol_ok nm s \<longleftrightarrow> valid_utf8 s \<and> characters s \<noteq> [] \<and> list_all (\<lambda>c. \<not> is_delimiter c) (characters s) \<and>
     hd (characters s) \<notin> {39, ch CHR ''`'', ch CHR '','', ch CHR ''#''} \<and> \<not> SEX_IS_CUNEIFORM (hd (characters s)) \<and>
     s \<noteq> ''.'' \<and> cstr s = s \<and> parse_number nm s 10 False False = Inr None"

fun writable :: "numerics \<Rightarrow> datum \<Rightarrow> bool" where
  "writable nm D_Nil \<longleftrightarrow> True"
| "writable nm D_True \<longleftrightarrow> True"
| "writable nm D_False \<longleftrightarrow> True"
| "writable nm (D_Fix i) \<longleftrightarrow> in_fixnum_range i"
| "writable nm (D_Char c) \<longleftrightarrow> scalar c"
| "writable nm (D_Str s) \<longleftrightarrow> valid_utf8 s"
| "writable nm (D_Sym s) \<longleftrightarrow> symbol_ok nm s"
| "writable nm (D_Pair a b) \<longleftrightarrow> writable nm a \<and> writable nm b"
| "writable nm (D_Vec vs) \<longleftrightarrow> (\<forall>v\<in>set vs. writable nm v)"
| "writable nm (D_Bytes bs) \<longleftrightarrow> (\<forall>b\<in>set bs. b < 256)"
| "writable nm v \<longleftrightarrow> False"

text \<open>How much of the C stack reading and writing a datum takes at most.\<close>

fun weight :: "datum \<Rightarrow> nat" where
  "weight (D_Pair a b) = 3 + weight a + weight b"
| "weight (D_Vec vs) = 4 + (\<Sum>v\<leftarrow>vs. 3 + weight v)"
| "weight (D_Bytes bs) = 4 + 4 * length bs"
| "weight D_Nil = 2"
| "weight v = 1"

lemma weight_pos: "0 < weight v"
  by (cases v) auto

section \<open>The characters of the text\<close>

definition escape_code :: "int \<Rightarrow> input" where
  "escape_code c =
     (if c = 34 then [92, 34] else if c = 92 then [92, 92] else if c = 10 then [92, ch CHR ''n'']
      else if c = 13 then [92, ch CHR ''r''] else if c = 9 then [92, ch CHR ''t''] else [c])"

fun written :: "datum \<Rightarrow> input" and written_rest :: "datum \<Rightarrow> input" and written_elements :: "datum list \<Rightarrow> input" where
  "written (D_Fix i) = codes (show_int i)"
| "written (D_Char c) = [ch CHR ''#'', 92] @ (if c = 32 then codes ''space'' else if c = 10 then codes ''newline'' else if c = 9 then codes ''tab'' else [c])"
| "written (D_Str s) = 34 # concat (map escape_code (characters s)) @ [34]"
| "written (D_Sym s) = characters s"
| "written (D_Pair a b) = ch CHR ''('' # written a @ written_rest b"
| "written (D_Vec []) = codes ''#()''"
| "written (D_Vec (v # vs)) = codes ''#('' @ written v @ written_elements vs"
| "written (D_Bytes bs) = codes (''#u8('' @ write_bytes bs @ '')'')"
| "written D_True = codes ''#t''"
| "written D_False = codes ''#f''"
| "written v = codes ''()''"
| "written_rest (D_Pair a b) = 32 # written a @ written_rest b"
| "written_rest D_Nil = [ch CHR '')'']"
| "written_rest v = codes '' . '' @ written v @ [ch CHR '')'']"
| "written_elements [] = [ch CHR '')'']"
| "written_elements (v # vs) = 32 # written v @ written_elements vs"

section \<open>The writer produces this text\<close>

lemma utf8_literals: "utf8 34 = [CHR 0x22]" "utf8 35 = ''#''" "utf8 92 = [CHR 0x5C]" "utf8 32 = '' ''" "utf8 40 = ''(''" "utf8 41 = '')''"
    "sb_utf8 (codes ''space'') = ''space''" "sb_utf8 (codes ''newline'') = ''newline''" "sb_utf8 (codes ''tab'') = ''tab''"
    "sb_utf8 (codes ''()'') = ''()''" "sb_utf8 (codes ''#t'') = ''#t''" "sb_utf8 (codes ''#f'') = ''#f''" "sb_utf8 (codes '' . '') = '' . ''"
  by code_simp+

lemma high_bytes: "(128 :: int) \<le> n \<Longrightarrow> n < 256 \<Longrightarrow> of_char (byte n) = n"
  by simp

lemma utf8_high:
  assumes "128 \<le> u" "u < 0x200000" "b \<in> set (utf8 u)"
  shows "(128 :: int) \<le> of_char b"
proof -
  have cont: "(128 :: int) \<le> of_char (byte (128 OR (v AND 63)))" for v :: int
    using pos_mod_bound [of 64 v] pos_mod_sign [of 64 v] by (simp add: and_63 or_range(4) del: of_char_of) (subst high_bytes; linarith)
  consider "u < 0x800" | "0x800 \<le> u" "u < 0x10000" | "0x10000 \<le> u" by linarith
  then show ?thesis
  proof cases
    case 1
    then have "0 \<le> u div 64" "u div 64 < 32" using assms by auto
    then have "of_char (byte (192 OR u div 64)) = 192 + u div 64" unfolding or_range(1) [OF \<open>0 \<le> u div 64\<close> \<open>u div 64 < 32\<close>] by (intro high_bytes) linarith+
    with cont \<open>0 \<le> u div 64\<close> assms(3) show ?thesis unfolding utf8_shape(2) [OF assms(1) 1] by (auto simp del: of_char_of)
  next
    case 2
    then have r: "0 \<le> u div 4096" "u div 4096 < 16" by auto
    then have "of_char (byte (224 OR u div 4096)) = 224 + u div 4096" unfolding or_range(2) [OF r] by (intro high_bytes) linarith+
    with cont r assms(3) show ?thesis unfolding utf8_shape(3) [OF 2] by (auto simp del: of_char_of)
  next
    case 3
    have r: "0 \<le> u div 262144" "u div 262144 < 8" using assms by auto
    then have "of_char (byte (240 OR u div 262144)) = 240 + u div 262144" unfolding or_range(3) [OF r] by (intro high_bytes) linarith+
    with cont r assms(3) show ?thesis unfolding utf8_shape(4) [OF 3] by (auto simp del: of_char_of)
  qed
qed

lemma escape_high: "(128 :: int) \<le> of_char b \<Longrightarrow> escape_byte b = [b]"
  by (auto simp: escape_byte_def)

lemma escape_utf8: "scalar c \<Longrightarrow> concat (map escape_byte (utf8 c)) = sb_utf8 (escape_code c)"
proof (cases "c < 128")
  case True
  assume "scalar c"
  moreover have "list_all (\<lambda>c. concat (map escape_byte (utf8 c)) = sb_utf8 (escape_code c)) [0..127]" by code_simp
  ultimately show ?thesis using True by (auto simp: list_all_iff)
next
  case False
  assume "scalar c"
  then have "map escape_byte (utf8 c) = map (\<lambda>b. [b]) (utf8 c)" using utf8_high [of c] False by (auto intro: escape_high)
  then have "concat (map escape_byte (utf8 c)) = concat (map (\<lambda>b. [b]) (utf8 c))" by (rule arg_cong)
  moreover have "concat (map (\<lambda>b. [b]) bs) = bs" for bs :: string by (induction bs) auto
  ultimately show ?thesis using False by (simp add: escape_code_def)
qed

lemma escape_scalar: "scalar c \<Longrightarrow> list_all scalar (escape_code c)"
  by (simp add: escape_code_def)

lemma written_string:
  assumes "valid_utf8 s"
  shows "write_string_escaped s = sb_utf8 (written (D_Str s))" "list_all scalar (written (D_Str s))"
proof -
  have s: "s = sb_utf8 (characters s)" "list_all scalar (characters s)" using assms by (simp_all add: valid_utf8_def)
  have "list_all scalar cs \<Longrightarrow> concat (map escape_byte (sb_utf8 cs)) = sb_utf8 (concat (map escape_code cs)) \<and> list_all scalar (concat (map escape_code cs))" for cs
    by (induction cs) (auto simp: escape_utf8 escape_scalar)
  from this [OF s(2)] s(1) show "write_string_escaped s = sb_utf8 (written (D_Str s))" "list_all scalar (written (D_Str s))"
    by (auto simp: write_string_escaped_def utf8_literals)
qed

lemma ascii_digits: "ascii (show_nat n)" "ascii (show_int i)"
  using show_nat_digits show_int_chars by (force simp: ascii_def list_all_iff)+

lemma ascii_append [simp]: "ascii (s @ t) \<longleftrightarrow> ascii s \<and> ascii t"
  by (simp add: ascii_def)

lemma ascii_bytes: "ascii (write_bytes bs)"
  by (induction bs rule: write_bytes.induct) (auto simp: ascii_digits, auto simp: ascii_def)

lemma utf8_codes [simp]: "utf8 (of_char c) = [c]" if "of_char c < (128 :: int)"
  using that by (rule utf8_ascii)

lemma written_ascii: "ascii s \<Longrightarrow> written v = codes s \<Longrightarrow> sb_utf8 (written v) = s \<and> list_all scalar (written v)"
  by (simp add: sb_utf8_codes scalar_codes)

lemma written_atom:
  assumes "writable nm v" "\<forall>a b. v \<noteq> D_Pair a b" "\<forall>vs. v \<noteq> D_Vec vs"
  shows "scm_write_ctx nm (Suc n) v = Inr (sb_utf8 (written v))" "list_all scalar (written v)"
proof -
  have "scm_write_ctx nm (Suc n) v = Inr (sb_utf8 (written v)) \<and> list_all scalar (written v)"
  proof (cases v)
    case (D_Fix i)
    then show ?thesis using written_ascii [OF ascii_digits(2) [of i], of v] by simp
  next
    case (D_Char c)
    then show ?thesis using assms(1) by (auto simp: write_char_def utf8_literals simp del: codes_simps) simp_all
  next
    case (D_Bytes bs)
    have "ascii (''#u8('' @ write_bytes bs @ '')'')" using ascii_bytes by (simp add: ascii_def)
    from written_ascii [OF this, of v] D_Bytes show ?thesis by (simp del: codes_simps sb_utf8_simps)
  next
    case (D_Str s)
    then show ?thesis using assms(1) written_string [of s] by simp
  next
    case (D_Sym s)
    then show ?thesis using assms(1) by (simp add: symbol_ok_def valid_utf8_def)
  qed (use assms in \<open>auto simp: utf8_literals simp del: codes_simps, auto\<close>)
  then show "scm_write_ctx nm (Suc n) v = Inr (sb_utf8 (written v))" "list_all scalar (written v)" by auto
qed

abbreviation writes :: "numerics \<Rightarrow> nat \<Rightarrow> datum \<Rightarrow> bool" where
  "writes nm n v \<equiv> scm_write_ctx nm n v = Inr (sb_utf8 (written v)) \<and> list_all scalar (written v)"

lemma writes_elements:
  assumes "\<forall>w\<in>set (v # vs). writes nm n w"
  shows "\<exists>t. write_elements nm n (v # vs) = Inr t \<and> t @ '')'' = sb_utf8 (written v @ written_elements vs) \<and> list_all scalar (written_elements vs)"
  using assms
proof (induction vs arbitrary: v)
  case Nil
  then show ?case by (simp add: utf8_literals)
next
  case (Cons w ws)
  then obtain t where "write_elements nm n (w # ws) = Inr t" "t @ '')'' = sb_utf8 (written w @ written_elements ws)" "list_all scalar (written_elements ws)"
    by fastforce
  with Cons.prems show ?case by (simp add: utf8_literals)
qed

lemma writes_rest_atom: "writes nm n v \<Longrightarrow> \<forall>a b. v \<noteq> D_Pair a b \<Longrightarrow> write_rest nm n v = Inr (sb_utf8 (written_rest v)) \<and> list_all scalar (written_rest v)"
  by (cases v) (auto simp: utf8_literals write_rest.simps simp del: codes_simps, auto)

lemma written_text_atom:
  assumes "writable nm v" "weight v \<le> n" "\<forall>a b. v \<noteq> D_Pair a b" "\<forall>vs. v \<noteq> D_Vec vs"
  shows "writes nm n v \<and> write_rest nm n v = Inr (sb_utf8 (written_rest v)) \<and> list_all scalar (written_rest v)"
proof -
  obtain m where "n = Suc m" using assms(2) weight_pos [of v] by (cases n) auto
  then have "writes nm n v" using written_atom [OF assms(1,3,4)] by blast
  with writes_rest_atom [OF this assms(3)] show ?thesis by blast
qed

lemma written_text:
  "writable nm v \<Longrightarrow> weight v \<le> n \<Longrightarrow> writes nm n v \<and> write_rest nm n v = Inr (sb_utf8 (written_rest v)) \<and> list_all scalar (written_rest v)"
proof (induction v arbitrary: n)
  case (D_Pair a b)
  then obtain m where m: "n = Suc m" by (cases n) auto
  with D_Pair.prems have ok: "writable nm a" "writable nm b" "weight a \<le> m" "weight b \<le> m" "weight a \<le> n" "weight b \<le> n" by auto
  show ?case using D_Pair.IH(1) [OF ok(1,3)] D_Pair.IH(2) [OF ok(2,4)] D_Pair.IH(1) [OF ok(1,5)] D_Pair.IH(2) [OF ok(2,6)] m
    by (simp add: utf8_literals)
next
  case (D_Vec vs)
  then obtain m where m: "n = Suc m" by (cases n) auto
  have "weight w \<le> m" if "w \<in> set vs" for w
    using D_Vec.prems(2) member_le_sum_list [of "3 + weight w" "map (\<lambda>v. 3 + weight v) vs"] that m by auto
  then have all: "\<forall>w\<in>set vs. writes nm m w" using D_Vec.IH D_Vec.prems(1) by auto
  have "writes nm n (D_Vec vs)"
  proof (cases vs)
    case Nil
    then show ?thesis using m by (simp add: utf8_literals)
  next
    case (Cons w ws)
    then show ?thesis using writes_elements [of w ws nm m] all m by (auto simp: utf8_literals)
  qed
  then show ?case using writes_rest_atom by blast
qed (rule written_text_atom; simp)+

section \<open>The reader on this text\<close>

text \<open>What follows a datum: the end of the input or a delimiter.\<close>

definition ends :: "input \<Rightarrow> bool" where
  "ends rest \<longleftrightarrow> rest = [] \<or> is_delimiter (hd rest)"

lemma ends_simps [simp]: "ends []" "ends (32 # r)" "ends (41 # r)"
  by (simp_all add: ends_def is_delimiter_def isspace_def)

lemma token_ends:
  assumes "list_all (\<lambda>c. \<not> is_delimiter c) cs" "ends rest"
  shows "token (cs @ rest) = cs" "after_token (cs @ rest) = rest"
  using assms by (induction cs) (auto simp: token_def after_token_def ends_def takeWhile_eq_Nil_iff dropWhile_eq_self_iff)

lemma read_string_step:
  "read_string_loop sb (34 # r) = Inr (sb, r)"
  "c \<noteq> -1 \<Longrightarrow> c \<noteq> 34 \<Longrightarrow> c \<noteq> 92 \<Longrightarrow> read_string_loop sb (c # r) = read_string_loop (sb @ utf8 c) r"
  "read_string_loop sb (92 # 34 # r) = read_string_loop (sb @ utf8 34) r"
  "read_string_loop sb (92 # 92 # r) = read_string_loop (sb @ utf8 92) r"
  "read_string_loop sb (92 # 110 # r) = read_string_loop (sb @ utf8 10) r"
  "read_string_loop sb (92 # 114 # r) = read_string_loop (sb @ utf8 13) r"
  "read_string_loop sb (92 # 116 # r) = read_string_loop (sb @ utf8 9) r"
  by (subst read_string_loop.simps, simp add: next_char_def utf8_def)+

lemma read_string_written:
  "list_all scalar cs \<Longrightarrow> read_string_loop sb (concat (map escape_code cs) @ 34 # rest) = Inr (sb @ sb_utf8 cs, rest)"
  by (induction cs arbitrary: sb) (auto simp: read_string_step escape_code_def)

lemma show_int_not_delim: "list_all (\<lambda>c. \<not> is_delimiter c) (codes (show_int i))"
  by (auto simp: list_all_iff codes_def is_delimiter_def isspace_def dest!: show_int_chars)

lemma cstr_ascii: "\<forall>c\<in>set s. 0 < (of_char c :: int) \<Longrightarrow> cstr s = s"
  by (simp add: cstr_def takeWhile_eq_all_conv) (metis less_irrefl)

lemma cstr_show_int: "cstr (show_int i) = show_int i"
  using show_int_chars [of _ i] by (intro cstr_ascii) force

definition plain_start :: "int \<Rightarrow> bool" where
  "plain_start c \<longleftrightarrow> c \<noteq> -1 \<and> c \<noteq> 59 \<and> c \<noteq> 41 \<and> \<not> isspace c"

lemma written_start:
  assumes "writable nm v"
  obtains c cs where "written v = c # cs" "plain_start c" "c = 46 \<Longrightarrow> \<exists>s. v = D_Sym s"
proof (cases v)
  case (D_Fix i)
  obtain c r where r: "show_int i = c # r" by (cases "show_int i") (auto simp: show_int_def split: if_splits)
  then have "\<not> is_delimiter (of_char c)" "of_char c \<noteq> (46 :: int)" using show_int_not_delim [of i] show_int_chars [of c i] by auto
  then have "plain_start (of_char c)" by (auto simp: plain_start_def is_delimiter_def)
  with \<open>of_char c \<noteq> 46\<close> D_Fix r that show thesis by simp
next
  case (D_Sym s)
  then have "characters s \<noteq> []" "list_all (\<lambda>c. \<not> is_delimiter c) (characters s)" using assms by (auto simp: symbol_ok_def)
  with D_Sym that show thesis by (cases "characters s") (auto simp: plain_start_def is_delimiter_def)
next
  case (D_Vec vs)
  with that show thesis by (cases vs) (auto simp: plain_start_def isspace_def)
qed (use assms that in \<open>auto simp: plain_start_def isspace_def\<close>)

lemma skip_start: "plain_start c \<Longrightarrow> skip_whitespace (c # cs) = c # cs"
  by (simp add: plain_start_def)

text \<open>Atoms.\<close>

lemma symbol_or_number_symbol:
  assumes "symbol_ok nm s"
  shows "symbol_or_number nm s = Inr (D_Sym s)"
proof -
  have "parse_number nm s 10 False False = Inr None" "cstr s = s" using assms by (auto simp: symbol_ok_def)
  moreover have "s \<noteq> ''+inf.0'' \<and> s \<noteq> ''-inf.0'' \<and> s \<noteq> ''+nan.0'' \<and> s \<noteq> ''-nan.0''"
    using calculation(1) by (auto simp: parse_number.simps made_def)
  ultimately show ?thesis by (simp add: symbol_or_number_def)
qed

lemma read_symbol:
  assumes "symbol_ok nm s" "ends rest" "characters s = c # cs"
  shows "read_datum nm (Suc n) cont (characters s @ rest) = Inr (D_Sym s, rest)"
proof -
  have c: "\<not> is_delimiter c" "c \<notin> {39, 96, 44, 35}" "\<not> SEX_IS_CUNEIFORM c" "list_all (\<lambda>c. \<not> is_delimiter c) cs" "sb_utf8 (c # cs) = s"
    using assms(1,3) by (auto simp: symbol_ok_def valid_utf8_def)
  then have "skip_whitespace (characters s @ rest) = c # cs @ rest" using assms(3) skip_start [of c "cs @ rest"] by (auto simp: plain_start_def is_delimiter_def)
  then show ?thesis using c token_ends [OF c(4) assms(2)] symbol_or_number_symbol [OF assms(1)]
    by (simp add: next_char_def read_token_def is_delimiter_def)
qed

lemma read_fixnum:
  assumes "in_fixnum_range i" "ends rest"
  shows "read_datum nm (Suc n) cont (codes (show_int i) @ rest) = Inr (D_Fix i, rest)"
proof -
  obtain c r where r: "show_int i = c # r" by (cases "show_int i") (auto simp: show_int_def split: if_splits)
  have c: "of_char c = (45 :: int) \<or> 48 \<le> (of_char c :: int) \<and> of_char c \<le> (57 :: int)" using show_int_chars [of c i] r by auto
  have "list_all (\<lambda>c. \<not> is_delimiter c) (codes r)" using show_int_not_delim [of i] r by simp
  note tok = token_ends [OF this assms(2)]
  have "symbol_or_number nm (show_int i) = Inr (D_Fix i)"
    using show_int_not_special [of i] by (auto simp: symbol_or_number_def Let_def cstr_show_int parse_show_int [OF assms(1)])
  moreover have "sb_utf8 (of_char c # codes r) = show_int i" using sb_utf8_codes [OF ascii_digits(2) [of i]] r by simp
  moreover have "skip_whitespace (of_char c # codes r @ rest) = of_char c # codes r @ rest"
    using c by (intro skip_start) (auto simp: plain_start_def isspace_def)
  ultimately show ?thesis using c tok r by (auto simp: next_char_def read_token_def SEX_IS_CUNEIFORM_def)
qed

lemma read_char_alone: "c \<noteq> -1 \<Longrightarrow> token r = [] \<Longrightarrow> read_char_literal (c # r) = Inr (D_Char c, after_token r)"
  by (simp add: read_char_literal_def next_char_def sb_bytes_def Let_def)

lemma read_written_char:
  assumes "scalar c" "ends rest"
  shows "read_datum nm (Suc n) cont (written (D_Char c) @ rest) = Inr (D_Char c, rest)"
proof -
  have empty: "token rest = []" "after_token rest = rest" using token_ends(1) [of "[]" rest] token_ends(2) [of "[]" rest] assms(2) by auto
  have name: "read_char_literal (codes (a # w) @ rest) = Inr (D_Char cp, rest)"
    if "list_all (\<lambda>c. \<not> is_delimiter c) (codes w)" "w \<noteq> []" "map_of char_names (cstr (byte (of_char a) # map (\<lambda>c. byte (of_char c)) w)) = Some cp" for a w cp
    using token_ends [OF that(1) assms(2)] that(2,3) by (simp add: read_char_literal_def next_char_def sb_bytes_def codes_def comp_def Let_def)
  have "read_char_literal (codes ''space'' @ rest) = Inr (D_Char 32, rest)" "read_char_literal (codes ''newline'' @ rest) = Inr (D_Char 10, rest)"
    "read_char_literal (codes ''tab'' @ rest) = Inr (D_Char 9, rest)"
    by (rule name; code_simp)+
  moreover have "read_char_literal (c # rest) = Inr (D_Char c, rest)"
    using read_char_alone [OF _ empty(1), of c] empty(2) assms(1) by simp
  ultimately show ?thesis by (auto simp: next_char_def read_hash_def isspace_def simp del: codes_simps)
qed

text \<open>Lists. A datum reads back when it does so before any delimiter, given enough stack.\<close>

definition reads_back :: "numerics \<Rightarrow> datum \<Rightarrow> bool" where
  "reads_back nm v \<longleftrightarrow> (\<forall>n cont rest. weight v \<le> n \<longrightarrow> ends rest \<longrightarrow> read_datum nm n cont (written v @ rest) = Inr (v, rest))"

definition tail_reads_back :: "numerics \<Rightarrow> datum \<Rightarrow> bool" where
  "tail_reads_back nm v \<longleftrightarrow> (\<forall>n cont rest. 2 + weight v \<le> n \<longrightarrow> read_list_tail nm n cont 41 (written_rest v @ rest) = Inr (v, rest))"

lemma ends_rest [simp]: "ends (written_rest v @ rest)"
  by (cases v) auto

lemma dot_symbol:
  assumes "symbol_ok nm s" "characters s = 46 # cs" "ends rest"
  shows "\<not> is_delimiter (peek_char_port (cs @ rest)) \<and> dot_token_datum nm (CHR ''.'' # sb_utf8 (token (cs @ rest))) = Inr (D_Sym s) \<and> after_token (cs @ rest) = rest"
proof -
  have s: "sb_utf8 (characters s) = s" "list_all (\<lambda>c. \<not> is_delimiter c) cs" "s \<noteq> ''.''" "cstr s = s" "parse_number nm s 10 False False = Inr None"
    using assms(1,2) by (auto simp: symbol_ok_def valid_utf8_def)
  have dot: "s = CHR ''.'' # sb_utf8 cs" using s(1) assms(2) utf8_ascii [of "CHR ''.''"] by simp
  then have "cs \<noteq> []" using s(3) by auto
  with s dot token_ends [OF s(2) assms(3)] show ?thesis
    by (cases cs) (auto simp: peek_char_port_def dot_token_datum_def)
qed

lemma read_list_written:
  assumes "writable nm a" "reads_back nm a" "tail_reads_back nm b" "2 + weight a + weight b \<le> n"
  shows "read_list nm n cont 41 (written a @ written_rest b @ rest) = Inr (D_Pair a b, rest)"
proof -
  obtain c cs where a: "written a = c # cs" "plain_start c" "c = 46 \<Longrightarrow> \<exists>s. a = D_Sym s" using written_start [OF assms(1)] by metis
  obtain m where m: "n = Suc m" "weight a \<le> m" "2 + weight b \<le> m" using assms(4) weight_pos [of a] by (cases n) auto
  have tail: "read_list_tail nm m cont 41 (written_rest b @ rest) = Inr (b, rest)" using assms(3) m(3) by (simp add: tail_reads_back_def)
  have skip: "skip_whitespace (written a @ written_rest b @ rest) = c # cs @ written_rest b @ rest" using a skip_start by simp
  show ?thesis
  proof (cases "c = 46")
    case True
    then obtain s where s: "a = D_Sym s" using a(3) by blast
    from dot_symbol [of nm s cs "written_rest b @ rest"] show ?thesis
      using True s a(1,2) assms(1) tail m(1) skip by (simp add: peek_char_port_def next_char_def plain_start_def)
  next
    case False
    have "read_datum nm m cont (c # cs @ written_rest b @ rest) = Inr (a, written_rest b @ rest)"
      using assms(2) m(2) a(1) by (auto simp: reads_back_def)
    then show ?thesis using False a(2) tail m(1) skip by (simp add: peek_char_port_def plain_start_def)
  qed
qed

lemma tail_pair:
  assumes "writable nm a" "reads_back nm a" "tail_reads_back nm b"
  shows "tail_reads_back nm (D_Pair a b)"
  unfolding tail_reads_back_def
proof (intro allI impI)
  fix n cont rest
  assume n: "2 + weight (D_Pair a b) \<le> n"
  then obtain m where m: "n = Suc m" "2 + weight a + weight b \<le> m" "2 + weight b \<le> m" by (cases n) auto
  obtain c cs where a: "written a = c # cs" "plain_start c" "c = 46 \<Longrightarrow> \<exists>s. a = D_Sym s" using written_start [OF assms(1)] by metis
  have skip: "skip_whitespace (written_rest (D_Pair a b) @ rest) = c # cs @ written_rest b @ rest" using a skip_start by (simp add: isspace_def)
  show "read_list_tail nm n cont 41 (written_rest (D_Pair a b) @ rest) = Inr (D_Pair a b, rest)"
  proof (cases "c = 46")
    case True
    then obtain s where s: "a = D_Sym s" using a(3) by blast
    have "read_list_tail nm m cont 41 (written_rest b @ rest) = Inr (b, rest)" using assms(3) m(3) by (simp add: tail_reads_back_def)
    with dot_symbol [of nm s cs "written_rest b @ rest"] show ?thesis
      using True s a(1) assms(1) m(1) skip by (simp add: peek_char_port_def next_char_def)
  next
    case False
    then show ?thesis using read_list_written [OF assms m(2), of cont rest] a(1) m(1) skip by (simp add: peek_char_port_def)
  qed
qed

lemma tail_nil: "tail_reads_back nm D_Nil"
  unfolding tail_reads_back_def
proof (intro allI impI)
  fix n cont rest
  assume "2 + weight D_Nil \<le> n"
  then obtain m where "n = Suc (Suc m)" by (cases n; cases "n - 1") auto
  then show "read_list_tail nm n cont 41 (written_rest D_Nil @ rest) = Inr (D_Nil, rest)"
    by (simp add: peek_char_port_def next_char_def isspace_def Let_def)
qed

lemma tail_dotted:
  assumes "reads_back nm v" "writable nm v" "\<forall>a b. v \<noteq> D_Pair a b" "v \<noteq> D_Nil"
  shows "tail_reads_back nm v"
  unfolding tail_reads_back_def
proof (intro allI impI)
  fix n cont rest
  assume "2 + weight v \<le> n"
  then obtain m where m: "n = Suc m" "weight v \<le> m" by (cases n) auto
  obtain c cs where a: "written v = c # cs" "plain_start c" using written_start [OF assms(2)] by metis
  have "written_rest v = 32 # 46 # 32 # written v @ [41]" using assms(3,4) by (cases v) auto
  moreover have "read_datum nm m cont (written v @ 41 # rest) = Inr (v, 41 # rest)" using assms(1) m(2) by (simp add: reads_back_def)
  ultimately show "read_list_tail nm n cont 41 (written_rest v @ rest) = Inr (v, rest)"
    using m(1) a skip_start [of c "cs @ 41 # rest"] by (simp add: peek_char_port_def next_char_def isspace_def is_delimiter_def)
qed

text \<open>Vectors and bytevectors are read as lists.\<close>

definition dlist :: "datum list \<Rightarrow> datum" where
  "dlist vs = foldr D_Pair vs D_Nil"

lemma dlist_simps [simp]: "dlist [] = D_Nil" "dlist (v # vs) = D_Pair v (dlist vs)"
  by (simp_all add: dlist_def)

lemma elements_dlist: "elements (dlist vs) = vs"
  by (induction vs) auto

lemma written_elements_dlist: "written_elements vs = written_rest (dlist vs)"
  by (induction vs) auto

lemma weight_dlist: "weight (dlist vs) = 2 + (\<Sum>v\<leftarrow>vs. 3 + weight v)"
  by (induction vs) auto

lemma tail_dlist: "\<forall>v\<in>set vs. writable nm v \<and> reads_back nm v \<Longrightarrow> tail_reads_back nm (dlist vs)"
  by (induction vs) (auto intro: tail_nil tail_pair)

lemma read_elements:
  assumes "\<forall>v\<in>set vs. writable nm v \<and> reads_back nm v" "3 + (\<Sum>v\<leftarrow>vs. 3 + weight v) \<le> n"
  shows "read_list nm n cont 41 ((case vs of [] \<Rightarrow> [41] | v # vs \<Rightarrow> written v @ written_elements vs) @ rest) = Inr (dlist vs, rest)"
proof (cases vs)
  case Nil
  then show ?thesis using assms(2) by (cases n) (auto simp: peek_char_port_def next_char_def isspace_def)
next
  case (Cons v ws)
  have "tail_reads_back nm (dlist ws)" using assms(1) Cons by (intro tail_dlist) simp
  then show ?thesis using read_list_written [of nm v "dlist ws" n cont rest] assms Cons by (simp add: written_elements_dlist weight_dlist)
qed

lemma fixnum_reads_back: "in_fixnum_range i \<Longrightarrow> reads_back nm (D_Fix i)"
  unfolding reads_back_def
proof (intro allI impI)
  fix n cont rest
  assume "in_fixnum_range i" "weight (D_Fix i) \<le> n" "ends rest"
  then show "read_datum nm n cont (written (D_Fix i) @ rest) = Inr (D_Fix i, rest)" using read_fixnum by (cases n) auto
qed

end
