(* ===== verification/Round_Trip.thy ===== *)
theory Round_Trip
  imports Read_Write
begin

text \<open>
  Every datum that can be written plainly reads back (by induction over the datum, together with the rest of a list), and what follows
  for \<open>scm_read_all\<close>, for string ports and for comments inside lists.
\<close>

section \<open>Each kind of datum\<close>

lemma reads_backI: "(\<And>n cont rest. ends rest \<Longrightarrow> weight v \<le> Suc n \<Longrightarrow> read_datum nm (Suc n) cont (written v @ rest) = Inr (v, rest)) \<Longrightarrow> reads_back nm v"
  unfolding reads_back_def by (metis Suc_le_D le_trans Suc_leI weight_pos)

lemma ends_next: "ends rest \<Longrightarrow> peek_char_port rest \<noteq> 114 \<and> peek_char_port rest \<noteq> 97"
  by (cases rest) (auto simp: ends_def peek_char_port_def is_delimiter_def isspace_def)

lemma constants_read_back: "reads_back nm D_Nil" "reads_back nm D_True" "reads_back nm D_False"
proof -
  show "reads_back nm D_Nil"
  proof (rule reads_backI)
    fix n cont rest
    assume "weight D_Nil \<le> Suc n"
    then obtain m where "n = Suc m" by (cases n) auto
    then show "read_datum nm (Suc n) cont (written D_Nil @ rest) = Inr (D_Nil, rest)"
      by (simp add: next_char_def peek_char_port_def isspace_def)
  qed
qed (rule reads_backI, use ends_next in \<open>simp add: next_char_def isspace_def read_hash_def\<close>)+

lemma atoms_read_back:
  "scalar c \<Longrightarrow> reads_back nm (D_Char c)" "symbol_ok nm s \<Longrightarrow> reads_back nm (D_Sym s)" "valid_utf8 s \<Longrightarrow> reads_back nm (D_Str s)"
proof -
  assume "scalar c"
  then show "reads_back nm (D_Char c)" by (intro reads_backI read_written_char)
next
  assume s: "symbol_ok nm s"
  then obtain c cs where "characters s = c # cs" by (cases "characters s") (auto simp: symbol_ok_def)
  then show "reads_back nm (D_Sym s)" using read_symbol [OF s] by (intro reads_backI) simp
next
  assume "valid_utf8 s"
  then show "reads_back nm (D_Str s)" using read_string_written [of "characters s" "[]"]
    by (intro reads_backI) (simp add: valid_utf8_def next_char_def isspace_def read_string_def)
qed

lemma pair_reads_back:
  assumes "writable nm a" "reads_back nm a" "tail_reads_back nm b"
  shows "reads_back nm (D_Pair a b)"
  using read_list_written [OF assms] by (intro reads_backI) (simp add: next_char_def isspace_def)

lemma elements_written: "written (D_Vec vs) = codes ''#('' @ (case vs of [] \<Rightarrow> [41] | v # vs \<Rightarrow> written v @ written_elements vs)"
  by (cases vs) simp_all

lemma vector_reads_back: "\<forall>v\<in>set vs. writable nm v \<and> reads_back nm v \<Longrightarrow> reads_back nm (D_Vec vs)"
  using read_elements [of vs nm] unfolding elements_written
  by (intro reads_backI) (simp add: elements_written next_char_def isspace_def read_hash_def read_vector_def elements_dlist del: written.simps)

lemma bytes_written: "codes (write_bytes bs) @ [41] = (case map (D_Fix \<circ> int) bs of [] \<Rightarrow> [41] | v # vs \<Rightarrow> written v @ written_elements vs)"
  by (induction bs rule: write_bytes.induct) (simp_all add: show_int_def)

lemma bytes_of_fixnums: "\<forall>b\<in>set bs. b < 256 \<Longrightarrow> bytes_of nm (map (D_Fix \<circ> int) bs) = Inr bs"
  by (induction bs) (auto simp: Let_def)

lemma bytes_read_back:
  assumes "\<forall>b\<in>set bs. b < 256"
  shows "reads_back nm (D_Bytes bs)"
proof (rule reads_backI)
  fix n cont rest
  assume n: "weight (D_Bytes bs) \<le> Suc n"
  let ?vs = "map (D_Fix \<circ> int) bs"
  have "\<forall>v\<in>set ?vs. writable nm v \<and> reads_back nm v"
    using assms by (auto intro!: fixnum_reads_back simp: in_fixnum_range_def FIXNUM_MAX_eq FIXNUM_MIN_eq)
  moreover have "(\<Sum>v\<leftarrow>?vs. 3 + weight v) = 4 * length bs" by (induction bs) auto
  ultimately have "read_list nm n (cont + 1) 41 (codes (write_bytes bs) @ [41] @ rest) = Inr (dlist ?vs, rest)"
    using read_elements [of ?vs nm n "cont + 1" rest] n unfolding bytes_written [of bs, symmetric] append.assoc by simp
  then show "read_datum nm (Suc n) cont (written (D_Bytes bs) @ rest) = Inr (D_Bytes bs, rest)"
    by (simp add: next_char_def peek_char_port_def isspace_def read_hash_def read_bytevector_def elements_dlist bytes_of_fixnums [OF assms])
qed

section \<open>All data\<close>

lemma all_read_back: "writable nm v \<Longrightarrow> reads_back nm v \<and> tail_reads_back nm v"
proof (induction v)
  case (D_Pair a b)
  then show ?case using pair_reads_back tail_pair by simp
next
  case (D_Vec vs)
  then have "reads_back nm (D_Vec vs)" by (intro vector_reads_back) simp
  then show ?case using tail_dotted [OF _ D_Vec.prems] by simp
next
  case D_Nil
  then show ?case using constants_read_back tail_nil by simp
qed (use constants_read_back atoms_read_back fixnum_reads_back bytes_read_back in \<open>auto intro!: tail_dotted\<close>)

lemma skip_written: "writable nm v \<Longrightarrow> skip_whitespace (written v) = written v"
  by (erule written_start) (simp add: plain_start_def)

text \<open>
  C12: \<open>write\<close> and \<open>read\<close> fit together. The text that \<open>scm_write\<close> sends for a datum made of lists, vectors,
  bytevectors, fixnums, characters, valid UTF-8 strings, booleans and symbols that are tokens of their own reads as that datum again and is used up,
  given as much of the C stack as the datum's nesting asks for: what \<open>write_string_escaped\<close> escapes \<open>read_string\<close> undoes, and no
  element's text runs into the next.
\<close>

theorem write_read_roundtrip:
  assumes "writable nm v" "weight v \<le> stack"
  shows "\<exists>s. scm_write_ctx nm stack v = Inr s \<and> scm_read nm stack (port_left (port_open_input_string s)) = Inr (v, [])"
proof (intro exI conjI)
  have t: "scm_write_ctx nm stack v = Inr (sb_utf8 (written v))" "list_all scalar (written v)" using written_text [OF assms] by blast+
  then show "scm_write_ctx nm stack v = Inr (sb_utf8 (written v))" by blast
  have "read_datum nm stack 0 (written v @ []) = Inr (v, [])" using all_read_back [OF assms(1)] assms(2) ends_simps(1) unfolding reads_back_def by blast
  then show "scm_read nm stack (port_left (port_open_input_string (sb_utf8 (written v)))) = Inr (v, [])"
    using characters_sb_utf8 [OF t(2)] skip_written [OF assms(1)] by (simp add: scm_read_def port_left_open)
qed

section \<open>An instance\<close>

text \<open>An instance of the numeric tower's functions that makes no numbers but fixnums.\<close>

definition fixnums_only :: numerics where
  "fixnums_only = \<lparr>num_make_float = (\<lambda>_. D_Fix 0), num_make_bignum_i = (\<lambda>_. D_Fix 0), num_make_bignum_str = (\<lambda>_ _. D_Fix 0),
     num_make_rational = (\<lambda>n _. Inr n), num_make_complex = (\<lambda>re _. re), num_make_quat = (\<lambda>_. D_Fix 0), num_exact = Inr,
     num_inexact = Inr, num_neg = Inr, sex_parse_neugebauer = (\<lambda>_. Inr None), sex_parse_cuneiform = (\<lambda>_. Inr None),
     akk_is_cuneiform_sym = (\<lambda>_. False), unfix_other = (\<lambda>_. 0), number_text = (\<lambda>_. [])\<rparr>"

definition sample :: datum where
  "sample = D_Pair (D_Sym ''set-car!'') (D_Pair (D_Str [CHR ''a'', CHR 0x22, CHR 0x0A, CHR 0xCE, CHR 0xBB])
     (D_Pair (D_Vec [D_Fix (-12), D_Char 955, D_Char 32, D_Sym ''...'']) (D_Pair D_Nil (D_Bytes [0, 255]))))"

lemma sample_writable: "writable fixnums_only sample" "weight sample \<le> 60"
  by code_simp+

theorem write_read_roundtrip_witness:
  "\<exists>s. scm_write_ctx fixnums_only 60 sample = Inr s \<and> scm_read fixnums_only 60 (port_left (port_open_input_string s)) = Inr (sample, [])"
  using write_read_roundtrip [OF sample_writable] .

section \<open>Whole files\<close>

lemma utf8_newline: "utf8 10 = [CHR 0x0A]"
  by code_simp

definition lines_of :: "datum list \<Rightarrow> input" where
  "lines_of vs = concat (map (\<lambda>v. written v @ [10]) vs)"

lemma read_lines:
  assumes "0 < stack"
  shows "\<forall>v\<in>set vs. writable nm v \<and> weight v \<le> stack \<Longrightarrow> read_all_loop nm stack acc (lines_of vs) = Inr (rev acc @ vs)"
proof (induction vs arbitrary: acc)
  case Nil
  then show ?case using assms by (cases stack) (simp_all add: lines_of_def next_char_def)
next
  case (Cons v vs)
  have "ends (10 # lines_of vs)" by (simp add: ends_def is_delimiter_def isspace_def)
  then have "read_datum nm stack 0 (lines_of (v # vs)) = Inr (v, 10 # lines_of vs)"
    using all_read_back [of nm v] Cons.prems by (simp add: reads_back_def lines_of_def)
  moreover have "v \<noteq> D_Eof" using Cons.prems by auto
  moreover have "read_all_loop nm stack acc (10 # cs) = read_all_loop nm stack acc cs" for acc cs
    using assms by (cases stack) (subst (1 2) read_all_loop.simps, simp add: isspace_def)+
  ultimately show ?case using Cons by (subst read_all_loop.simps) simp
qed

text \<open>
  C28: Everything that was written to a file is read back. When data are written one per line, \<open>scm_read_all\<close> on the whole text gives
  exactly these data in the same order, and it stops at the end of the input.
\<close>

theorem read_all_written:
  assumes "list_all2 (\<lambda>v s. writable nm v \<and> weight v \<le> stack \<and> scm_write_ctx nm stack v = Inr s) vs ss" "0 < stack"
  shows "scm_read_all nm stack (port_left (port_open_input_string (concat (map (\<lambda>s. s @ [CHR 0x0A]) ss)))) = Inr vs"
proof -
  have "concat (map (\<lambda>s. s @ [CHR 0x0A]) ss) = sb_utf8 (lines_of vs) \<and> list_all scalar (lines_of vs) \<and> (\<forall>v\<in>set vs. writable nm v \<and> weight v \<le> stack)"
    using assms(1) by (induction rule: list_all2_induct) (auto simp: lines_of_def utf8_newline dest!: written_text)
  then show ?thesis using read_lines [OF assms(2), of vs nm "[]"] characters_sb_utf8 by (simp add: scm_read_all_def port_left_open)
qed

theorem read_all_written_witness:
  "scm_read_all fixnums_only 9 (port_left (port_open_input_string (concat (map (\<lambda>s. s @ [CHR 0x0A]) [''(a . 1)'', ''#t''])))) = Inr [D_Pair (D_Sym ''a'') (D_Fix 1), D_True]"
  by (rule read_all_written) code_simp+

section \<open>String ports\<close>

lemma first_of_drop: "k < length cs \<Longrightarrow> (case drop k cs of [] \<Rightarrow> d | c # r \<Rightarrow> c) = cs ! k"
  by (metis Cons_nth_drop_Suc list.simps(5))

text \<open>
  C29: String ports keep characters. Characters written one after another to an output string port with \<open>port_write_char\<close> come out of an
  input string port on the resulting text with \<open>port_read_char\<close> one after another, and then the end of the input: the UTF-8 encoder
  and decoder agree on every code point below 2097152, of one to four bytes.
\<close>

theorem string_port_roundtrip:
  assumes "list_all (\<lambda>c. 0 \<le> c \<and> c < 0x200000) cs" "p = port_open_input_string (port_get_output_string (fold port_write_char cs port_open_output_string))"
  shows "map (\<lambda>k. fst (port_read_char (((snd \<circ> port_read_char) ^^ k) p))) [0..<Suc (length cs)] = cs @ [-1]"
proof -
  have "fold port_write_char cs q = q\<lparr>op_buf := op_buf q @ sb_utf8 cs\<rparr>" if "\<not> op_closed q" for q
    using that by (induction cs arbitrary: q) (simp_all add: port_write_char_def port_write_string_def)
  then have p: "port_ok p" "port_left p = cs" using assms characters_sb_utf8 [of cs]
    by (simp_all add: port_open_output_string_def port_get_output_string_def port_left_open port_ok_def port_open_input_string_def port_left_def)
  have "fst (port_read_char (((snd \<circ> port_read_char) ^^ k) p)) = (case drop k cs of [] \<Rightarrow> -1 | c # r \<Rightarrow> c)" for k
    using string_port.advance_times [OF p(1), of k] unfolding p(2) by (metis string_port.advance_first)
  then have "fst (port_read_char (((snd \<circ> port_read_char) ^^ k) p)) = (if k < length cs then cs ! k else -1)" for k
    by (simp add: first_of_drop del: comp_apply)
  then show ?thesis by (simp add: list_eq_iff_nth_eq nth_append del: comp_apply upt_Suc)
qed

theorem string_port_roundtrip_witness:
  "map (\<lambda>k. fst (port_read_char (((snd \<circ> port_read_char) ^^ k)
      (port_open_input_string (port_get_output_string (fold port_write_char [65, 955, 0x12079] port_open_output_string)))))) [0..<Suc (length [65, 955, 0x12079 :: int])] =
    [65, 955, 0x12079] @ [-1]"
  by (rule string_port_roundtrip) (simp, rule refl)

section \<open>Comments\<close>

lemma comment_texts:
  "characters ''(a #|c|#)'' = [40, 97, 32, 35, 124, 99, 124, 35, 41]"
  "characters ''(a #;b)'' = [40, 97, 32, 35, 59, 98, 41]"
  "characters [CHR ''('', CHR ''a'', CHR '';'', CHR ''c'', CHR 0x0A, CHR '')''] = [40, 97, 59, 99, 10, 41]"
  by code_simp+

lemma cstr_texts:
  "cstr ''(a #|c|#)'' = ''(a #|c|#)''" "cstr ''(a #;b)'' = ''(a #;b)''"
  "cstr [CHR ''('', CHR ''a'', CHR '';'', CHR ''c'', CHR 0x0A, CHR '')''] = [CHR ''('', CHR ''a'', CHR '';'', CHR ''c'', CHR 0x0A, CHR '')'']"
  by code_simp+

lemma symbols_ab: "symbol_or_number nm (utf8 97) = Inr (D_Sym ''a'')" "symbol_or_number nm (utf8 98) = Inr (D_Sym ''b'')"
proof -
  have "parse_number nm ''a'' 10 False False = Inr None" "parse_number nm ''b'' 10 False False = Inr None"
    by (subst parse_number.simps, simp add: strtol_def skip_sign_def isspace_def skip_0x_def digit_value_def has_digit_def Let_def)+
  moreover have "utf8 97 = ''a''" "utf8 98 = ''b''" by code_simp+
  ultimately show "symbol_or_number nm (utf8 97) = Inr (D_Sym ''a'')" "symbol_or_number nm (utf8 98) = Inr (D_Sym ''b'')"
    by (simp_all add: symbol_or_number_def cstr_def)
qed

lemma stack_of: "stack + 6 = Suc (Suc (Suc (Suc (Suc (Suc stack)))))"
  by simp

lemmas read_comment_simps = next_char_def peek_char_port_def isspace_def read_hash_def read_token_def token_def after_token_def
  is_delimiter_def SEX_IS_CUNEIFORM_def Let_def

text \<open>
  A block comment or a datum comment may not be the last thing in a list: \<open>read_datum\<close> skips it by reading the datum after it, and
  finds the closing parenthesis. A line comment, which \<open>skip_whitespace\<close> handles, is fine there.
\<close>

theorem comment_before_close_raises:
  "scm_read_cstr nm (stack + 6) ''(a #|c|#)'' = Inl (read_error ''unexpected closing delimiter'') \<and>
   scm_read_cstr nm (stack + 6) ''(a #;b)'' = Inl (read_error ''unexpected closing delimiter'') \<and>
   scm_read_cstr nm (stack + 6) [CHR ''('', CHR ''a'', CHR '';'', CHR ''c'', CHR 0x0A, CHR '')''] = Inr (D_Pair (D_Sym ''a'') D_Nil)"
  unfolding scm_read_cstr_def port_left_open cstr_texts comment_texts by (simp add: stack_of read_comment_simps symbols_ab)

end
