(* ===== verification/Byte_Codec.thy ===== *)
theory Byte_Codec
  imports Curry_Value
begin

text \<open>
  Reading binary files: parsers over lists of bytes, what it means that a parser reads back what was written (\<open>reads\<close>), that more input
  does not change what it has read (\<open>steady\<close>), how much it consumes (\<open>eats\<close>), and the contract of an encoding with its decoder
  (locale \<open>codec\<close>), from which sequences and the rejection of truncated input follow.
\<close>

section \<open>Parsers\<close>

text \<open>
  A function that returns \<open>false\<close> on bad input stops with \<open>Reject\<close>. \<open>Crash\<close> is a division by zero inside GMP, which ends the process.
  \<open>Deep\<close> is the end of the recursion depth that a model of an unbounded recursion is given.
\<close>

type_synonym bytes = "u8 list"

datatype stop = Reject | Crash | Deep

type_synonym 'a parser = "bytes \<Rightarrow> stop + 'a \<times> bytes"

definition pbind :: "'a parser \<Rightarrow> ('a \<Rightarrow> 'b parser) \<Rightarrow> 'b parser" where
  "pbind p f bs = (case p bs of Inl e \<Rightarrow> Inl e | Inr (x, r) \<Rightarrow> f x r)"

definition preturn :: "'a \<Rightarrow> 'a parser" where
  "preturn x bs = Inr (x, bs)"

definition pstop :: "stop \<Rightarrow> 'a parser" where
  "pstop e bs = Inl e"

definition pbytes :: "nat \<Rightarrow> bytes parser" where
  "pbytes n bs = (if length bs < n then Inl Reject else Inr (take n bs, drop n bs))"

primrec pmany :: "nat \<Rightarrow> 'a parser \<Rightarrow> 'a list parser" where
  "pmany 0 p = preturn []"
| "pmany (Suc n) p = pbind p (\<lambda>x. pbind (pmany n p) (\<lambda>xs. preturn (x # xs)))"

section \<open>Reading back\<close>

definition reads :: "'a parser \<Rightarrow> bytes \<Rightarrow> 'a \<Rightarrow> bool" where
  "reads p w x \<longleftrightarrow> (\<forall>rest. p (w @ rest) = Inr (x, rest))"

named_theorems reads_intros "how a parser that is put together reads"

lemma reads_bind: "reads p w x \<Longrightarrow> reads (f x) w' y \<Longrightarrow> reads (pbind p f) (w @ w') y"
  by (simp add: reads_def pbind_def)

lemma reads_return [reads_intros]: "reads (preturn x) [] x"
  by (simp add: reads_def preturn_def)

lemma reads_bytes [reads_intros]: "n = length w \<Longrightarrow> reads (pbytes n) w w"
  by (simp add: reads_def pbytes_def)

lemma reads_last: "reads p w x \<Longrightarrow> reads (pbind p (\<lambda>x. preturn (f x))) w (f x)"
  using reads_bind [of p w x "\<lambda>x. preturn (f x)" "[]"] reads_return [of "f x"] by simp

section \<open>More input\<close>

definition steady :: "'a parser \<Rightarrow> bool" where
  "steady p \<longleftrightarrow> (\<forall>bs s. (\<forall>x r. p bs = Inr (x, r) \<longrightarrow> p (bs @ s) = Inr (x, r @ s)) \<and> (p bs = Inl Crash \<longrightarrow> p (bs @ s) = Inl Crash))"

named_theorems steady_intros "parsers that more input does not disturb"

lemma steady_bind [steady_intros]: "steady p \<Longrightarrow> (\<And>x. steady (f x)) \<Longrightarrow> steady (pbind p f)"
  unfolding steady_def pbind_def by (auto split: sum.splits)

lemma steady_return [steady_intros]: "steady (preturn x)"
  by (simp add: steady_def preturn_def)

lemma steady_stop [steady_intros]: "steady (pstop e)"
  by (simp add: steady_def pstop_def)

lemma steady_if [steady_intros]: "steady p \<Longrightarrow> steady q \<Longrightarrow> steady (if b then p else q)"
  by simp

lemma steady_bytes [steady_intros]: "steady (pbytes n)"
  by (auto simp: steady_def pbytes_def)

lemma steady_many [steady_intros]: "steady p \<Longrightarrow> steady (pmany n p)"
  by (induction n) (auto intro: steady_intros)

section \<open>Consumption\<close>

definition eats :: "'a parser \<Rightarrow> bool" where
  "eats p \<longleftrightarrow> (\<forall>bs x r. p bs = Inr (x, r) \<longrightarrow> length r \<le> length bs)"

definition shallow :: "nat \<Rightarrow> 'a parser \<Rightarrow> bool" where
  "shallow n p \<longleftrightarrow> eats p \<and> (\<forall>bs. length bs < n \<longrightarrow> p bs \<noteq> Inl Deep)"

named_theorems shallow_intros "parsers that never run out of depth on short input"

lemma shallow_bind [shallow_intros]: "shallow n p \<Longrightarrow> (\<And>x. shallow n (f x)) \<Longrightarrow> shallow n (pbind p f)"
  unfolding shallow_def eats_def pbind_def
  by (auto split: sum.splits) (meson le_trans order_le_less_trans)+

lemma shallow_return [shallow_intros]: "shallow n (preturn x)"
  by (simp add: shallow_def eats_def preturn_def)

lemma shallow_stop [shallow_intros]: "e \<noteq> Deep \<Longrightarrow> shallow n (pstop e)"
  by (simp add: shallow_def eats_def pstop_def)

lemma shallow_if [shallow_intros]: "shallow n p \<Longrightarrow> shallow n q \<Longrightarrow> shallow n (if b then p else q)"
  by simp

lemma shallow_bytes [shallow_intros]: "shallow n (pbytes k)"
  by (auto simp: shallow_def eats_def pbytes_def)

lemma shallow_many [shallow_intros]: "shallow n p \<Longrightarrow> shallow n (pmany k p)"
  by (induction k) (auto intro: shallow_intros)

section \<open>More depth\<close>

definition refined :: "'a parser \<Rightarrow> 'a parser \<Rightarrow> bool" where
  "refined p q \<longleftrightarrow> (\<forall>bs. p bs \<noteq> Inl Deep \<longrightarrow> q bs = p bs)"

named_theorems refined_intros "parsers that agree as long as there is depth"

lemma refined_refl [refined_intros]: "refined p p"
  by (simp add: refined_def)

lemma refined_bind [refined_intros]: "refined p q \<Longrightarrow> (\<And>x. refined (f x) (g x)) \<Longrightarrow> refined (pbind p f) (pbind q g)"
  unfolding refined_def pbind_def by (auto split: sum.splits)

lemma refined_if [refined_intros]: "refined p p' \<Longrightarrow> refined q q' \<Longrightarrow> refined (if b then p else q) (if b then p' else q')"
  by simp

lemma refined_many [refined_intros]: "refined p q \<Longrightarrow> refined (pmany n p) (pmany n q)"
  by (induction n) (auto intro: refined_intros)

section \<open>Encodings with their decoders\<close>

locale codec =
  fixes ok :: "'a \<Rightarrow> bool" and enc :: "'a \<Rightarrow> bytes" and dec :: "'a parser"
  assumes dec_enc: "ok x \<Longrightarrow> reads dec (enc x) x"
    and dec_steady: "steady dec"
begin

lemma many: "list_all ok xs \<Longrightarrow> n = length xs \<Longrightarrow> reads (pmany n dec) (concat (map enc xs)) xs"
proof (induction xs arbitrary: n)
  case Nil
  then show ?case by (simp add: reads_return)
next
  case (Cons x xs)
  then show ?case using dec_enc [of x] by (auto intro!: reads_bind reads_last)
qed

lemma prefix_free: "ok x \<Longrightarrow> ok y \<Longrightarrow> enc x = enc y @ s \<Longrightarrow> x = y \<and> s = []"
  using dec_enc [of x] dec_enc [of y] unfolding reads_def by (metis append_Nil2 prod.inject sum.inject(2))

lemma truncated: "ok x \<Longrightarrow> enc x = p @ s \<Longrightarrow> s \<noteq> [] \<Longrightarrow> dec p = Inl Reject \<or> dec p = Inl Deep"
proof -
  assume x: "ok x" "enc x = p @ s" "s \<noteq> []"
  have whole: "dec (p @ s) = Inr (x, [])" using dec_enc [OF x(1)] x(2) unfolding reads_def by (metis append_Nil2)
  have "dec p \<noteq> Inl Crash" using dec_steady whole unfolding steady_def by (metis sum.distinct(1))
  moreover have "dec p \<noteq> Inr (y, r)" for y r
  proof
    assume "dec p = Inr (y, r)"
    then have "dec (p @ s) = Inr (y, r @ s)" using dec_steady unfolding steady_def by blast
    with whole x(3) show False by simp
  qed
  ultimately show ?thesis
  proof (cases "dec p")
    case (Inl e)
    with \<open>dec p \<noteq> Inl Crash\<close> show ?thesis by (cases e) auto
  qed auto
qed

end

end
