(* ===== verification/Scc.thy ===== *)
theory Scc
  imports Byte_Codec
begin

text \<open>
  The compiled cache (\<open>src/src/scc.c\<close>): chunks are written to a file beside the source and loaded instead of compiling again. A
  constant is a tree, as the quoted data and nested chunks that the compiler puts into a constant pool are; the loader allocates every
  object anew, and symbols are interned by name. Input and output errors of the disk appear as a file that cannot be opened for writing.
\<close>

section \<open>Constants and chunks\<close>

record debug_entry =
  de_name :: bytes
  de_slot :: u16
  de_start :: u32
  de_end :: u32

text \<open>
  A flonum is its bits. \<open>K_Other\<close> is an object of a type with no representation in the file. A chunk has the fields that are kept in
  the file; an \<open>int\<close> of C is a 32-bit word read as signed.
\<close>

datatype konst =
    K_Imm val | K_Flonum u64 | K_Bignum int | K_Rational int int | K_Complex konst konst
  | K_Quat u64 u64 u64 u64 | K_Oct "u64 list" | K_String bytes | K_Symbol bytes
  | K_Pair konst konst | K_Vector "konst list" | K_Bytevec bytes | K_Record konst "konst list"
  | K_Chunk kchunk | K_Other nat
and kchunk = KChunk (kc_arity: u32) (kc_local_count: u32) (kc_upval_count: u32) (kc_name: "bytes option") (kc_code: bytes)
    (kc_lines: "u32 list") (kc_constants: "konst list") (kc_local_debug: "debug_entry list") (kc_upval_names: "bytes list option")
    (kc_src_lambda: konst) (kc_uses_local_macro: bool)

text \<open>The functions of GMP: \<open>mpz_get_str\<close> and \<open>mpz_set_str\<close> in base 16 and the greatest common divisor behind \<open>mpq_canonicalize\<close> (HOL's).\<close>

record gmp =
  mpz_get_str16 :: "int \<Rightarrow> bytes"
  mpz_set_str16 :: "bytes \<Rightarrow> int"

section \<open>Writing numbers and strings\<close>

definition wb :: "u8 \<Rightarrow> bytes" where
  "wb v = [v]"

definition wu32 :: "u32 \<Rightarrow> bytes" where
  "wu32 v = [ucast v, ucast (drop_bit 8 v), ucast (drop_bit 16 v), ucast (drop_bit 24 v)]"

definition wu64 :: "u64 \<Rightarrow> bytes" where
  "wu64 v = [ucast v, ucast (drop_bit 8 v), ucast (drop_bit 16 v), ucast (drop_bit 24 v),
     ucast (drop_bit 32 v), ucast (drop_bit 40 v), ucast (drop_bit 48 v), ucast (drop_bit 56 v)]"

definition wstr :: "bytes \<Rightarrow> bytes" where
  "wstr s = wu32 (word_of_nat (length s)) @ s"

definition mpq_get_str16 :: "gmp \<Rightarrow> int \<Rightarrow> int \<Rightarrow> bytes" where
  "mpq_get_str16 g p q = mpz_get_str16 g p @ (if q = 1 then [] else 0x2F # mpz_get_str16 g q)"

section \<open>Reading numbers and strings\<close>

definition rb :: "u8 parser" where
  "rb bs = (case bs of b # r \<Rightarrow> Inr (b, r) | [] \<Rightarrow> Inl Reject)"

definition le32 :: "bytes \<Rightarrow> u32" where
  "le32 b = ucast (b ! 0) OR push_bit 8 (ucast (b ! 1)) OR push_bit 16 (ucast (b ! 2)) OR push_bit 24 (ucast (b ! 3))"

definition le64 :: "bytes \<Rightarrow> u64" where
  "le64 b = ucast (b ! 0) OR push_bit 8 (ucast (b ! 1)) OR push_bit 16 (ucast (b ! 2)) OR push_bit 24 (ucast (b ! 3))
     OR push_bit 32 (ucast (b ! 4)) OR push_bit 40 (ucast (b ! 5)) OR push_bit 48 (ucast (b ! 6)) OR push_bit 56 (ucast (b ! 7))"

definition ru32 :: "u32 parser" where
  "ru32 = pbind (pbytes 4) (\<lambda>b. preturn (le32 b))"

definition ru64 :: "u64 parser" where
  "ru64 = pbind (pbytes 8) (\<lambda>b. preturn (le64 b))"

text \<open>A length of \<open>UINT32_MAX\<close> is refused.\<close>

definition rstr :: "bytes parser" where
  "rstr = pbind ru32 (\<lambda>len. if len = - 1 then pstop Reject else pbytes (unat len))"

text \<open>A length that is an \<open>int\<close> of C must not be negative.\<close>

definition rlen :: "nat parser" where
  "rlen = pbind ru32 (\<lambda>n. if sint n < 0 then pstop Reject else preturn (unat n))"

section \<open>Constant tags\<close>

definition CTAG_IMM :: u8 where "CTAG_IMM = 0"
definition CTAG_FLONUM :: u8 where "CTAG_FLONUM = 1"
definition CTAG_BIGNUM :: u8 where "CTAG_BIGNUM = 2"
definition CTAG_RATIONAL :: u8 where "CTAG_RATIONAL = 3"
definition CTAG_COMPLEX :: u8 where "CTAG_COMPLEX = 4"
definition CTAG_QUAT :: u8 where "CTAG_QUAT = 5"
definition CTAG_OCT :: u8 where "CTAG_OCT = 6"
definition CTAG_STRING :: u8 where "CTAG_STRING = 7"
definition CTAG_SYMBOL :: u8 where "CTAG_SYMBOL = 8"
definition CTAG_CHUNK :: u8 where "CTAG_CHUNK = 9"
definition CTAG_PAIR :: u8 where "CTAG_PAIR = 10"
definition CTAG_VECTOR :: u8 where "CTAG_VECTOR = 11"
definition CTAG_BYTEVEC :: u8 where "CTAG_BYTEVEC = 12"
definition CTAG_RECORD_TYPE :: u8 where "CTAG_RECORD_TYPE = 13"

lemmas ctag_defs = CTAG_IMM_def CTAG_FLONUM_def CTAG_BIGNUM_def CTAG_RATIONAL_def CTAG_COMPLEX_def CTAG_QUAT_def CTAG_OCT_def
  CTAG_STRING_def CTAG_SYMBOL_def CTAG_CHUNK_def CTAG_PAIR_def CTAG_VECTOR_def CTAG_BYTEVEC_def CTAG_RECORD_TYPE_def

text \<open>None is the internal error.\<close>

fun const_kind :: "konst \<Rightarrow> u8 option" where
  "const_kind (K_Imm _) = Some CTAG_IMM"
| "const_kind (K_Flonum _) = Some CTAG_FLONUM"
| "const_kind (K_Bignum _) = Some CTAG_BIGNUM"
| "const_kind (K_Rational _ _) = Some CTAG_RATIONAL"
| "const_kind (K_Complex _ _) = Some CTAG_COMPLEX"
| "const_kind (K_Quat _ _ _ _) = Some CTAG_QUAT"
| "const_kind (K_Oct _) = Some CTAG_OCT"
| "const_kind (K_String _) = Some CTAG_STRING"
| "const_kind (K_Symbol _) = Some CTAG_SYMBOL"
| "const_kind (K_Pair _ _) = Some CTAG_PAIR"
| "const_kind (K_Vector _) = Some CTAG_VECTOR"
| "const_kind (K_Bytevec _) = Some CTAG_BYTEVEC"
| "const_kind (K_Record _ _) = Some CTAG_RECORD_TYPE"
| "const_kind (K_Chunk _) = Some CTAG_CHUNK"
| "const_kind (K_Other _) = None"

section \<open>Writing\<close>

text \<open>Writes one after the other; the first that fails ends them all.\<close>

definition wseq :: "bytes option list \<Rightarrow> bytes option" where
  "wseq ws = map_option concat (those ws)"

definition write_name :: "bytes option \<Rightarrow> bytes" where
  "write_name name = (case name of None \<Rightarrow> wu32 0 | Some s \<Rightarrow> wstr s)"

definition write_debug :: "debug_entry \<Rightarrow> bytes" where
  "write_debug e = wstr (de_name e) @ wu32 (ucast (de_slot e)) @ wu32 (de_start e) @ wu32 (de_end e)"

definition write_upnames :: "u32 \<Rightarrow> bytes list option \<Rightarrow> bytes" where
  "write_upnames n names = (case names of None \<Rightarrow> wb 0 | Some ns \<Rightarrow> wb 1 @ concat (map wstr (take (nat (sint n)) ns)))"

text \<open>The tag of a constant, then the rest of it.\<close>

definition tagged :: "konst \<Rightarrow> bytes option \<Rightarrow> bytes option" where
  "tagged k w = (case const_kind k of None \<Rightarrow> None | Some tag \<Rightarrow> wseq [Some (wb tag), w])"

fun write_const :: "gmp \<Rightarrow> konst \<Rightarrow> bytes option"
  and write_consts :: "gmp \<Rightarrow> konst list \<Rightarrow> bytes option"
  and write_chunk :: "gmp \<Rightarrow> kchunk \<Rightarrow> bytes option"
where
  "write_const g (K_Imm v) = tagged (K_Imm v) (Some (wu64 v))"
| "write_const g (K_Flonum b) = tagged (K_Flonum b) (Some (wu64 b))"
| "write_const g (K_Bignum z) = tagged (K_Bignum z) (Some (wstr (mpz_get_str16 g z)))"
| "write_const g (K_Rational p q) = tagged (K_Rational p q) (Some (wstr (mpq_get_str16 g p q)))"
| "write_const g (K_Complex re im) = tagged (K_Complex re im) (wseq [write_const g re, write_const g im])"
| "write_const g (K_Quat a b c d) = tagged (K_Quat a b c d) (Some (wu64 a @ wu64 b @ wu64 c @ wu64 d))"
| "write_const g (K_Oct es) = tagged (K_Oct es) (Some (concat (map wu64 es)))"
| "write_const g (K_String s) = tagged (K_String s) (Some (wstr s))"
| "write_const g (K_Symbol s) = tagged (K_Symbol s) (Some (wstr s))"
| "write_const g (K_Pair a b) = tagged (K_Pair a b) (wseq [write_const g a, write_const g b])"
| "write_const g (K_Vector ks) = tagged (K_Vector ks) (wseq [Some (wu32 (word_of_nat (length ks))), write_consts g ks])"
| "write_const g (K_Bytevec bs) = tagged (K_Bytevec bs) (Some (wstr bs))"
| "write_const g (K_Record name fs) = tagged (K_Record name fs) (wseq [write_const g name, Some (wu32 (word_of_nat (length fs))), write_consts g fs])"
| "write_const g (K_Chunk c) = tagged (K_Chunk c) (write_chunk g c)"
| "write_const g (K_Other t) = tagged (K_Other t) None"
| "write_consts g [] = Some []"
| "write_consts g (k # ks) = wseq [write_const g k, write_consts g ks]"
| "write_chunk g (KChunk arity locals upvals name code lines consts debug upnames src macro) = wseq
     [Some (wu32 arity @ wu32 locals @ wu32 upvals @ write_name name),
      Some (wu32 (word_of_nat (length code)) @ code @ concat (map wu32 (take (length code) lines))),
      Some (wu32 (word_of_nat (length consts))), write_consts g consts,
      Some (wu32 (word_of_nat (length debug)) @ concat (map write_debug debug)),
      Some (write_upnames upvals upnames), write_const g src, Some (wb (if macro then 1 else 0))]"

section \<open>Number constructors\<close>

text \<open>\<open>make_big_from_mpz\<close>, \<open>num_make_bignum_str\<close>, \<open>num_make_rational\<close> and \<open>num_make_complex\<close> of \<open>numeric.c\<close>.\<close>

definition make_big_from_mpz :: "int \<Rightarrow> konst" where
  "make_big_from_mpz z = (if in_fixnum_range z then K_Imm (vfix z) else K_Bignum z)"

definition c_string :: "bytes \<Rightarrow> bytes" where
  "c_string bs = takeWhile (\<lambda>b. b \<noteq> 0) bs"

definition num_make_bignum_str :: "gmp \<Rightarrow> bytes \<Rightarrow> konst" where
  "num_make_bignum_str g s = make_big_from_mpz (mpz_set_str16 g (c_string s))"

fun to_mpz :: "konst \<Rightarrow> int" where
  "to_mpz (K_Imm v) = vunfix v"
| "to_mpz (K_Bignum z) = z"
| "to_mpz _ = 0"

text \<open>\<open>mpq_canonicalize\<close> divides by zero when the denominator is zero.\<close>

definition make_rat_from_mpq :: "int \<Rightarrow> int \<Rightarrow> konst parser" where
  "make_rat_from_mpq p q =
     (if q = 0 then pstop Crash
      else let d = gcd p q; s = sgn q in
        if s * q div d = 1 then preturn (make_big_from_mpz (s * p div d)) else preturn (K_Rational (s * p div d) (s * q div d)))"

definition read_rational :: "gmp \<Rightarrow> bytes \<Rightarrow> konst parser" where
  "read_rational g buf =
     (let s = c_string buf in
      if 0x2F \<in> set s
      then make_rat_from_mpq (to_mpz (num_make_bignum_str g (takeWhile (\<lambda>b. b \<noteq> 0x2F) s)))
             (to_mpz (num_make_bignum_str g (tl (dropWhile (\<lambda>b. b \<noteq> 0x2F) s))))
      else make_rat_from_mpq (to_mpz (num_make_bignum_str g s)) 1)"

fun exact_zero :: "konst \<Rightarrow> bool" where
  "exact_zero (K_Imm v) \<longleftrightarrow> v = V_FALSE \<or> vis_fixnum v \<and> vunfix v = 0"
| "exact_zero _ \<longleftrightarrow> False"

definition num_make_complex :: "konst \<Rightarrow> konst \<Rightarrow> konst" where
  "num_make_complex re im = (if exact_zero im then re else K_Complex re im)"

section \<open>Reading\<close>

definition read_name :: "bytes option parser" where
  "read_name = pbind ru32 (\<lambda>nlen.
     if nlen = 0 then preturn None else if nlen = - 1 then pstop Reject
     else pbind (pbytes (unat nlen)) (\<lambda>b. preturn (Some (c_string b))))"

definition read_debug :: "debug_entry parser" where
  "read_debug = pbind rstr (\<lambda>name. pbind ru32 (\<lambda>slot. pbind ru32 (\<lambda>start_pc. pbind ru32 (\<lambda>end_pc.
     preturn \<lparr>de_name = name, de_slot = ucast slot, de_start = start_pc, de_end = end_pc\<rparr>))))"

definition read_upnames :: "u32 \<Rightarrow> bytes list option parser" where
  "read_upnames n = pbind rb (\<lambda>have_upnames.
     if have_upnames = 0 then preturn None else pbind (pmany (nat (sint n)) rstr) (\<lambda>ns. preturn (Some ns)))"

text \<open>\<open>rd\<close> is the recursive call that reads a constant.\<close>

definition read_chunk :: "konst parser \<Rightarrow> kchunk parser" where
  "read_chunk rd =
     pbind ru32 (\<lambda>arity. pbind ru32 (\<lambda>locals. pbind ru32 (\<lambda>upvals.
     if sint upvals < 0 \<or> 256 < sint upvals then pstop Reject
     else pbind read_name (\<lambda>name.
          pbind rlen (\<lambda>code_len. pbind (pbytes code_len) (\<lambda>code. pbind (pmany code_len ru32) (\<lambda>lines.
          pbind rlen (\<lambda>const_len. pbind (pmany const_len rd) (\<lambda>consts.
          pbind rlen (\<lambda>debug_len. pbind (pmany debug_len read_debug) (\<lambda>debug.
          pbind (read_upnames upvals) (\<lambda>upnames.
          pbind rd (\<lambda>src.
          pbind rb (\<lambda>local_macro.
            preturn (KChunk arity locals upvals name code lines consts debug upnames src (local_macro \<noteq> 0))))))))))))))))"

definition read_elements :: "konst parser \<Rightarrow> konst list parser" where
  "read_elements rd = pbind ru32 (\<lambda>len. pmany (unat len) rd)"

definition read_body :: "gmp \<Rightarrow> konst parser \<Rightarrow> u8 \<Rightarrow> konst parser" where
  "read_body g rd kind =
     (if kind = CTAG_IMM then pbind ru64 (\<lambda>raw. preturn (K_Imm raw))
      else if kind = CTAG_FLONUM then pbind ru64 (\<lambda>b. preturn (K_Flonum b))
      else if kind = CTAG_BIGNUM then pbind rstr (\<lambda>s. preturn (num_make_bignum_str g s))
      else if kind = CTAG_RATIONAL then pbind rstr (read_rational g)
      else if kind = CTAG_COMPLEX then pbind rd (\<lambda>re. pbind rd (\<lambda>im. preturn (num_make_complex re im)))
      else if kind = CTAG_QUAT then pbind ru64 (\<lambda>a. pbind ru64 (\<lambda>b. pbind ru64 (\<lambda>c. pbind ru64 (\<lambda>d. preturn (K_Quat a b c d)))))
      else if kind = CTAG_OCT then pbind (pmany 8 ru64) (\<lambda>es. preturn (K_Oct es))
      else if kind = CTAG_STRING then pbind rstr (\<lambda>s. preturn (K_String s))
      else if kind = CTAG_SYMBOL then pbind rstr (\<lambda>s. preturn (K_Symbol s))
      else if kind = CTAG_PAIR then pbind rd (\<lambda>a. pbind rd (\<lambda>b. preturn (K_Pair a b)))
      else if kind = CTAG_VECTOR then pbind (read_elements rd) (\<lambda>ks. preturn (K_Vector ks))
      else if kind = CTAG_BYTEVEC then pbind rstr (\<lambda>s. preturn (K_Bytevec s))
      else if kind = CTAG_RECORD_TYPE then pbind rd (\<lambda>name. pbind (read_elements rd) (\<lambda>fs. preturn (K_Record name fs)))
      else if kind = CTAG_CHUNK then pbind (read_chunk rd) (\<lambda>c. preturn (K_Chunk c))
      else pstop Reject)"

text \<open>
  \<open>read_const\<close> recurses without a limit of its own; the number is the depth of the recursion. Every level consumes a tag, so the length
  of the input is enough (shown below).
\<close>

primrec read_const :: "gmp \<Rightarrow> nat \<Rightarrow> konst parser" where
  "read_const g 0 = pstop Deep"
| "read_const g (Suc d) = pbind rb (read_body g (read_const g d))"

section \<open>Files\<close>

definition SCC_MAGIC :: bytes where "SCC_MAGIC = [0x43, 0x55, 0x52, 0x52, 0x59, 0x42, 0x43]"
definition SCC_FMT_VER :: u8 where "SCC_FMT_VER = 8"
definition SCC_SENTINEL :: u32 where "SCC_SENTINEL = 0xCAFEBEEF"
definition SCC_SHEBANG :: bytes where
  "SCC_SHEBANG = [0x23, 0x21, 0x2F, 0x75, 0x73, 0x72, 0x2F, 0x62, 0x69, 0x6E, 0x2F, 0x65, 0x6E, 0x76, 0x20, 0x63, 0x75, 0x72, 0x72, 0x79, 0x0A]"
definition CURRY_VERSION :: bytes where "CURRY_VERSION = [0x31, 0x2E, 0x33, 0x30, 0x2E, 0x31]"

lemmas scc_format = SCC_MAGIC_def SCC_FMT_VER_def SCC_SENTINEL_def SCC_SHEBANG_def CURRY_VERSION_def

definition src_hash :: "bytes \<Rightarrow> u64" where
  "src_hash src = fold (\<lambda>b h. (h XOR ucast b) * 1099511628211) src 14695981039346656037"

definition skip_shebang :: "bytes \<Rightarrow> bytes" where
  "skip_shebang f = (case f of a # b # r \<Rightarrow> if a = 0x23 \<and> b = 0x21 then tl (dropWhile (\<lambda>c. c \<noteq> 0x0A) r) else f | _ \<Rightarrow> f)"

text \<open>The source is the contents of a regular file that can be read, or None.\<close>

definition write_chunks :: "gmp \<Rightarrow> kchunk list \<Rightarrow> bytes option" where
  "write_chunks g cs = wseq (map (write_chunk g) cs)"

definition write_scc :: "gmp \<Rightarrow> bytes option \<Rightarrow> kchunk list \<Rightarrow> bool \<Rightarrow> bytes option" where
  "write_scc g src chunks executable = (case src of None \<Rightarrow> None | Some contents \<Rightarrow> wseq
     [Some ((if executable then SCC_SHEBANG else []) @ SCC_MAGIC @ wb SCC_FMT_VER @ wb (word_of_nat (length CURRY_VERSION)) @ CURRY_VERSION),
      Some (wu64 (src_hash contents) @ wu32 (word_of_nat (length chunks))), write_chunks g chunks, Some (wu32 SCC_SENTINEL)])"

text \<open>\<open>fseek\<close> may go beyond the end of the file.\<close>

definition pseek :: "nat \<Rightarrow> unit parser" where
  "pseek n bs = Inr ((), drop n bs)"

definition check_hash :: "bytes option option \<Rightarrow> unit parser" where
  "check_hash src_path = (case src_path of
     None \<Rightarrow> pseek 8
   | Some None \<Rightarrow> pstop Reject
   | Some (Some contents) \<Rightarrow> pbind ru64 (\<lambda>cached. if cached \<noteq> src_hash contents then pstop Reject else preturn ()))"

text \<open>\<open>load_chunks_from_file\<close> after the shebang line; no source path means that the hash is not looked at.\<close>

definition load_chunks :: "gmp \<Rightarrow> nat \<Rightarrow> bytes option option \<Rightarrow> kchunk list parser" where
  "load_chunks g depth src_path =
     pbind (pbytes 8) (\<lambda>magic.
     if take 7 magic \<noteq> SCC_MAGIC \<or> magic ! 7 \<noteq> SCC_FMT_VER then pstop Reject
     else pbind rb (\<lambda>vlen. pbind (pbytes (unat vlen)) (\<lambda>vbuf.
     if c_string vbuf \<noteq> CURRY_VERSION then pstop Reject
     else pbind (check_hash src_path) (\<lambda>_. pbind ru32 (\<lambda>n_chunks.
          pbind (pmany (unat n_chunks) (read_chunk (read_const g depth))) (\<lambda>chunks.
          pbind ru32 (\<lambda>sentinel. if sentinel \<noteq> SCC_SENTINEL then pstop Reject else preturn chunks)))))))"

definition load_chunks_from_file :: "gmp \<Rightarrow> bytes option option \<Rightarrow> bytes \<Rightarrow> stop + kchunk list" where
  "load_chunks_from_file g src_path f =
     (case load_chunks g (Suc (length f)) src_path (skip_shebang f) of Inl e \<Rightarrow> Inl e | Inr (chunks, _) \<Rightarrow> Inr chunks)"

section \<open>The cache on the file system\<close>

text \<open>The last extension of a path becomes \<open>.scc\<close>; a dot in a directory's name is no extension.\<close>

definition last_index :: "char \<Rightarrow> string \<Rightarrow> nat option" where
  "last_index c s = (if c \<in> set s then Some (length s - 1 - length (takeWhile (\<lambda>d. d \<noteq> c) (rev s))) else None)"

definition set_scc_ext :: "string \<Rightarrow> string" where
  "set_scc_ext path = (case (last_index CHR ''.'' path, last_index CHR ''/'' path) of
     (Some d, Some s) \<Rightarrow> if s < d then take d path @ ''.scc'' else path @ ''.scc''
   | (Some d, None) \<Rightarrow> take d path @ ''.scc''
   | (None, _) \<Rightarrow> path @ ''.scc'')"

text \<open>
  The files by path, which paths can be opened for writing, and \<open>$HOME\<close> and the result of \<open>realpath\<close>, either of which may fail. A file
  that can be opened for writing is taken to be removable, and a directory on the way to a cache file is made by \<open>mkdirs_for\<close>.
\<close>

record fs =
  fs_files :: "string \<Rightarrow> bytes option"
  fs_writable :: "string \<Rightarrow> bool"
  fs_home :: "string option"
  fs_realpath :: "string \<Rightarrow> string option"

definition fallback_path :: "fs \<Rightarrow> string \<Rightarrow> string option" where
  "fallback_path s src_path = (case (fs_home s, fs_realpath s src_path) of
     (Some home, Some path) \<Rightarrow> Some (home @ ''/.cache/curry'' @ set_scc_ext path) | _ \<Rightarrow> None)"

text \<open>\<open>write_scc\<close> on the file system: a file that could not be written to the end is removed.\<close>

definition store_scc :: "gmp \<Rightarrow> fs \<Rightarrow> string \<Rightarrow> string \<Rightarrow> kchunk list \<Rightarrow> bool \<Rightarrow> bool \<times> fs" where
  "store_scc g s scc_path src_path chunks executable =
     (if fs_files s src_path = None \<or> \<not> fs_writable s scc_path then (False, s)
      else case write_scc g (fs_files s src_path) chunks executable of
        None \<Rightarrow> (False, s\<lparr>fs_files := (fs_files s)(scc_path := None)\<rparr>)
      | Some f \<Rightarrow> (True, s\<lparr>fs_files := (fs_files s)(scc_path := Some f)\<rparr>))"

definition scc_write :: "gmp \<Rightarrow> fs \<Rightarrow> string \<Rightarrow> kchunk list \<Rightarrow> fs" where
  "scc_write g s src_path chunks = (case store_scc g s (set_scc_ext src_path) src_path chunks False of
     (True, s') \<Rightarrow> s'
   | (False, s') \<Rightarrow> (case fallback_path s' src_path of None \<Rightarrow> s' | Some fb \<Rightarrow> snd (store_scc g s' fb src_path chunks False)))"

definition scc_clear :: "fs \<Rightarrow> string \<Rightarrow> fs" where
  "scc_clear s src_path =
     (let s' = s\<lparr>fs_files := (fs_files s)(set_scc_ext src_path := None)\<rparr>
      in case fallback_path s' src_path of None \<Rightarrow> s' | Some fb \<Rightarrow> s'\<lparr>fs_files := (fs_files s')(fb := None)\<rparr>)"

definition read_scc :: "gmp \<Rightarrow> fs \<Rightarrow> string \<Rightarrow> string \<Rightarrow> stop + kchunk list" where
  "read_scc g s scc_path src_path = (case fs_files s scc_path of None \<Rightarrow> Inl Reject | Some f \<Rightarrow> load_chunks_from_file g (Some (fs_files s src_path)) f)"

definition scc_load :: "gmp \<Rightarrow> fs \<Rightarrow> string \<Rightarrow> stop + kchunk list" where
  "scc_load g s src_path = (case read_scc g s (set_scc_ext src_path) src_path of
     Inl Reject \<Rightarrow> (case fallback_path s src_path of None \<Rightarrow> Inl Reject | Some fb \<Rightarrow> read_scc g s fb src_path)
   | r \<Rightarrow> r)"

definition scc_load_direct :: "gmp \<Rightarrow> fs \<Rightarrow> string \<Rightarrow> stop + kchunk list" where
  "scc_load_direct g s scc_path = (case fs_files s scc_path of None \<Rightarrow> Inl Reject | Some f \<Rightarrow> load_chunks_from_file g None f)"

end
