(* ===== verification/Scc_Props.thy ===== *)
theory Scc_Props
  imports Scc
begin

text \<open>
  What is written to the compiled cache is what is loaded from it; a file that was cut short, that belongs to other source text or to
  another version is refused; the loader returns on every input. The parts of the format are interpretations of \<open>codec\<close>.
\<close>

section \<open>Numbers and strings\<close>

lemma reads_step: "reads p w x \<Longrightarrow> reads (pbind p f) (w @ w') y \<longleftrightarrow> reads (f x) w' y"
  by (auto simp: reads_def pbind_def)

lemma le32_bytes: "le32 [ucast v, ucast (drop_bit 8 v), ucast (drop_bit 16 v), ucast (drop_bit 24 v)] = v"
proof (rule bit_word_eqI)
  fix n assume "n < LENGTH(32)"
  then show "bit (le32 [ucast v, ucast (drop_bit 8 v), ucast (drop_bit 16 v), ucast (drop_bit 24 v)]) n = bit v n"
    by (cases "n < 8"; cases "n < 16"; cases "n < 24") (auto simp: le32_def bit_simps)
qed

lemma le64_bytes:
  "le64 [ucast v, ucast (drop_bit 8 v), ucast (drop_bit 16 v), ucast (drop_bit 24 v),
     ucast (drop_bit 32 v), ucast (drop_bit 40 v), ucast (drop_bit 48 v), ucast (drop_bit 56 v)] = v" (is "le64 ?bs = v")
proof (rule bit_word_eqI)
  fix n assume n: "n < LENGTH(64)"
  consider "n < 8" | "8 \<le> n" "n < 16" | "16 \<le> n" "n < 24" | "24 \<le> n" "n < 32" | "32 \<le> n" "n < 40" | "40 \<le> n" "n < 48" | "48 \<le> n" "n < 56" | "56 \<le> n"
    by linarith
  then show "bit (le64 ?bs) n = bit v n" using n by cases (auto simp: le64_def bit_simps)
qed

interpretation byte: codec "\<lambda>_. True" wb rb
proof
  show "reads rb (wb x) x" for x by (simp add: reads_def rb_def wb_def)
  show "steady rb" by (auto simp: steady_def rb_def split: list.splits)
qed

interpretation u32: codec "\<lambda>_. True" wu32 ru32
proof
  show "reads ru32 (wu32 x) x" for x by (simp add: reads_def ru32_def pbind_def pbytes_def preturn_def wu32_def le32_bytes)
  show "steady ru32" by (auto simp: ru32_def intro!: steady_intros)
qed

interpretation u64: codec "\<lambda>_. True" wu64 ru64
proof
  show "reads ru64 (wu64 x) x" for x by (simp add: reads_def ru64_def pbind_def pbytes_def preturn_def wu64_def le64_bytes)
  show "steady ru64" by (auto simp: ru64_def intro!: steady_intros)
qed

definition str_ok :: "bytes \<Rightarrow> bool" where
  "str_ok s \<longleftrightarrow> length s < 2 ^ 32 - 1"

lemma length_word: "length s < 2 ^ 32 - 1 \<Longrightarrow> unat (word_of_nat (length s) :: u32) = length s \<and> word_of_nat (length s) \<noteq> (- 1 :: u32)"
proof -
  assume l: "length s < 2 ^ 32 - 1"
  then have u: "unat (word_of_nat (length s) :: u32) = length s" by (simp add: unat_of_nat)
  have "unat (- 1 :: u32) = 2 ^ 32 - 1" by (simp add: unsigned_minus_1_eq_mask mask_eq_exp_minus_1)
  with u l show ?thesis by (metis less_irrefl)
qed

interpretation str: codec str_ok wstr rstr
proof
  fix s assume "str_ok s"
  then show "reads rstr (wstr s) s" using length_word [of s] unfolding rstr_def wstr_def str_ok_def
    by (simp add: reads_step [OF u32.dec_enc] reads_bytes)
next
  show "steady rstr" by (auto simp: rstr_def intro!: steady_intros u32.dec_steady)
qed

lemma reads_rlen: "n < 2 ^ 31 \<Longrightarrow> reads rlen (wu32 (word_of_nat n)) n"
proof -
  assume n: "n < 2 ^ 31"
  then have "unat (word_of_nat n :: u32) = n" by (simp add: unat_of_nat)
  moreover have "0 \<le> sint (word_of_nat n :: u32)" using n by (simp add: signed_of_nat signed_take_bit_int_eq_self)
  ultimately have "reads rlen (wu32 (word_of_nat n) @ []) n" unfolding rlen_def reads_step [OF u32.dec_enc [OF TrueI]] by (simp add: reads_return)
  then show ?thesis by simp
qed

lemma narrow_widen: "ucast (ucast w :: u32) = (w :: u16)"
  by (rule bit_word_eqI) (simp add: bit_simps)

definition debug_ok :: "debug_entry \<Rightarrow> bool" where
  "debug_ok e \<longleftrightarrow> str_ok (de_name e)"

interpretation debug: codec debug_ok write_debug read_debug
proof
  fix e assume "debug_ok e"
  then have n: "str_ok (de_name e)" by (simp add: debug_ok_def)
  have "reads (preturn \<lparr>de_name = de_name e, de_slot = ucast (ucast (de_slot e) :: u32), de_start = de_start e, de_end = de_end e\<rparr>) [] e"
    by (cases e) (simp add: reads_return narrow_widen)
  then have "reads read_debug (wstr (de_name e) @ wu32 (ucast (de_slot e)) @ wu32 (de_start e) @ wu32 (de_end e) @ []) e"
    unfolding read_debug_def reads_step [OF str.dec_enc [OF n]] reads_step [OF u32.dec_enc [OF TrueI]] .
  then show "reads read_debug (write_debug e) e" by (simp add: write_debug_def)
next
  show "steady read_debug" by (auto simp: read_debug_def intro!: steady_intros u32.dec_steady str.dec_steady)
qed

section \<open>What can be written\<close>

text \<open>What GMP promises of its hexadecimal notation.\<close>

definition gmp_ok :: "gmp \<Rightarrow> bool" where
  "gmp_ok g \<longleftrightarrow> (\<forall>z. mpz_set_str16 g (mpz_get_str16 g z) = z \<and> (\<forall>b\<in>set (mpz_get_str16 g z). b \<noteq> 0 \<and> b \<noteq> 0x2F))"

definition name_ok :: "bytes option \<Rightarrow> bool" where
  "name_ok n \<longleftrightarrow> (case n of None \<Rightarrow> True | Some s \<Rightarrow> s \<noteq> [] \<and> 0 \<notin> set s \<and> str_ok s)"

definition upnames_ok :: "u32 \<Rightarrow> bytes list option \<Rightarrow> bool" where
  "upnames_ok u ns \<longleftrightarrow> (case ns of None \<Rightarrow> True | Some xs \<Rightarrow> length xs = nat (sint u) \<and> list_all str_ok xs)"

text \<open>
  Numbers are in the form in which the numeric tower keeps them: a bignum is no fixnum, a rational is in lowest terms with a denominator
  above one, the imaginary part of a complex number is not exact zero.
\<close>

fun konst_ok :: "gmp \<Rightarrow> konst \<Rightarrow> bool" and kchunk_ok :: "gmp \<Rightarrow> kchunk \<Rightarrow> bool" where
  "konst_ok g (K_Imm v) \<longleftrightarrow> \<not> vis_ptr v"
| "konst_ok g (K_Flonum b) \<longleftrightarrow> True"
| "konst_ok g (K_Bignum z) \<longleftrightarrow> \<not> in_fixnum_range z \<and> str_ok (mpz_get_str16 g z)"
| "konst_ok g (K_Rational p q) \<longleftrightarrow> 1 < q \<and> coprime p q \<and> str_ok (mpq_get_str16 g p q)"
| "konst_ok g (K_Complex re im) \<longleftrightarrow> konst_ok g re \<and> konst_ok g im \<and> \<not> exact_zero im"
| "konst_ok g (K_Quat a b c d) \<longleftrightarrow> True"
| "konst_ok g (K_Oct es) \<longleftrightarrow> length es = 8"
| "konst_ok g (K_String s) \<longleftrightarrow> str_ok s"
| "konst_ok g (K_Symbol s) \<longleftrightarrow> str_ok s"
| "konst_ok g (K_Pair a b) \<longleftrightarrow> konst_ok g a \<and> konst_ok g b"
| "konst_ok g (K_Vector ks) \<longleftrightarrow> length ks < 2 ^ 32 \<and> (\<forall>k\<in>set ks. konst_ok g k)"
| "konst_ok g (K_Bytevec s) \<longleftrightarrow> str_ok s"
| "konst_ok g (K_Record name fs) \<longleftrightarrow> konst_ok g name \<and> length fs < 2 ^ 32 \<and> (\<forall>k\<in>set fs. konst_ok g k)"
| "konst_ok g (K_Chunk c) \<longleftrightarrow> kchunk_ok g c"
| "konst_ok g (K_Other t) \<longleftrightarrow> False"
| "kchunk_ok g (KChunk arity locals upvals name code lines consts debug upnames src macro) \<longleftrightarrow>
     0 \<le> sint upvals \<and> sint upvals \<le> 256 \<and> name_ok name \<and> length code < 2 ^ 31 \<and> length lines = length code \<and>
     length consts < 2 ^ 31 \<and> (\<forall>k\<in>set consts. konst_ok g k) \<and> length debug < 2 ^ 31 \<and> list_all debug_ok debug \<and>
     upnames_ok upvals upnames \<and> konst_ok g src"

section \<open>Constants read back\<close>

lemma wseq_simps [simp]: "wseq [] = Some []" "wseq (None # ws) = None" "wseq (Some w # ws) = map_option ((@) w) (wseq ws)"
  by (simp_all add: wseq_def option.map_comp comp_def)

lemma c_string_whole: "0 \<notin> set s \<Longrightarrow> c_string s = s"
  by (auto simp: c_string_def takeWhile_eq_all_conv)

lemma num_make_bignum_str_hex: "gmp_ok g \<Longrightarrow> num_make_bignum_str g (mpz_get_str16 g z) = make_big_from_mpz z"
proof -
  assume g: "gmp_ok g"
  then have "c_string (mpz_get_str16 g z) = mpz_get_str16 g z" by (intro c_string_whole) (auto simp: gmp_ok_def)
  with g show ?thesis by (simp add: num_make_bignum_str_def gmp_ok_def)
qed

lemma to_mpz_make_big [simp]: "to_mpz (make_big_from_mpz z) = z"
  by (simp add: make_big_from_mpz_def vunfix_vfix)

lemma read_rational_written:
  assumes "gmp_ok g" "1 < q" "coprime p q"
  shows "read_rational g (mpq_get_str16 g p q) = preturn (K_Rational p q)"
proof -
  have hex: "\<forall>b\<in>set (mpz_get_str16 g z). b \<noteq> 0 \<and> b \<noteq> 0x2F" for z using assms(1) by (simp add: gmp_ok_def)
  then have no: "0 \<notin> set (mpz_get_str16 g z)" "0x2F \<notin> set (mpz_get_str16 g z)" for z by blast+
  define s where "s = mpz_get_str16 g p @ 0x2F # mpz_get_str16 g q"
  have "mpq_get_str16 g p q = s" "c_string s = s" "0x2F \<in> set s"
    using assms(2) no by (auto simp: s_def mpq_get_str16_def intro!: c_string_whole)
  moreover have "takeWhile (\<lambda>b. b \<noteq> 0x2F) s = mpz_get_str16 g p" "tl (dropWhile (\<lambda>b. b \<noteq> 0x2F) s) = mpz_get_str16 g q"
    using hex by (simp_all add: s_def takeWhile_append dropWhile_append)
  ultimately show ?thesis using assms by (simp add: read_rational_def num_make_bignum_str_hex make_rat_from_mpq_def)
qed

lemma reads_name: "name_ok n \<Longrightarrow> reads read_name (write_name n) n"
proof (cases n)
  case None
  have "reads read_name (wu32 0 @ []) None" unfolding read_name_def reads_step [OF u32.dec_enc [OF TrueI]] by (simp add: reads_return)
  with None show ?thesis by (simp add: write_name_def)
next
  case (Some s)
  assume "name_ok n"
  with Some have s: "s \<noteq> []" "0 \<notin> set s" "str_ok s" by (auto simp: name_ok_def)
  have "unat (word_of_nat (length s) :: u32) = length s" "word_of_nat (length s) \<noteq> (- 1 :: u32)" using length_word [of s] s(3) unfolding str_ok_def by blast+
  moreover from this s(1) have "word_of_nat (length s) \<noteq> (0 :: u32)" by (metis length_0_conv unat_eq_zero)
  moreover have "reads (pbind (pbytes (length s)) (\<lambda>b. preturn (Some (c_string b)))) s (Some (c_string s))"
    by (intro reads_last reads_bytes refl)
  ultimately have "reads read_name (wu32 (word_of_nat (length s)) @ s) (Some s)"
    unfolding read_name_def reads_step [OF u32.dec_enc [OF TrueI]] using c_string_whole [OF s(2)] by simp
  then show ?thesis using Some by (simp add: write_name_def wstr_def)
qed

lemma reads_upnames:
  assumes "upnames_ok u ns"
  shows "reads (read_upnames u) (write_upnames u ns) ns"
proof (cases ns)
  case None
  have "reads (read_upnames u) (wb 0 @ []) None" unfolding read_upnames_def reads_step [OF byte.dec_enc [OF TrueI]] by (simp add: reads_return)
  with None show ?thesis by (simp add: write_upnames_def)
next
  case (Some xs)
  have "reads (pmany (nat (sint u)) rstr) (concat (map wstr xs)) xs" using assms Some by (intro str.many) (auto simp: upnames_ok_def)
  then have "reads (read_upnames u) (wb 1 @ concat (map wstr xs)) (Some xs)"
    unfolding read_upnames_def reads_step [OF byte.dec_enc [OF TrueI]] by (simp add: reads_last)
  then show ?thesis using Some assms by (simp add: write_upnames_def upnames_ok_def)
qed

text \<open>The depth that reading a constant takes is at most the length of its text.\<close>

definition const_reads :: "gmp \<Rightarrow> konst \<Rightarrow> bool" where
  "const_reads g k \<longleftrightarrow> (\<exists>w. write_const g k = Some w \<and> (\<forall>d\<ge>length w. reads (read_const g d) w k))"

definition chunk_reads :: "gmp \<Rightarrow> kchunk \<Rightarrow> bool" where
  "chunk_reads g c \<longleftrightarrow> (\<exists>w. write_chunk g c = Some w \<and> (\<forall>d\<ge>length w. reads (read_chunk (read_const g d)) w c))"

lemma const_readsI:
  assumes "write_const g k = tagged k (Some w)" "const_kind k \<noteq> None" "\<And>d. length w \<le> d \<Longrightarrow> reads (read_body g (read_const g d) (the (const_kind k))) w k"
  shows "const_reads g k"
proof -
  obtain t where t: "const_kind k = Some t" using assms(2) by blast
  have "reads (read_const g d) (wb t @ w) k" if "length (wb t @ w) \<le> d" for d
  proof -
    from that obtain d' where d: "d = Suc d'" "length w \<le> d'" by (cases d) (auto simp: wb_def)
    show ?thesis unfolding d(1) read_const.simps reads_step [OF byte.dec_enc [OF TrueI]] using assms(3) [OF d(2)] t by simp
  qed
  then show ?thesis using assms(1) t by (auto simp: const_reads_def tagged_def)
qed

lemma consts_read:
  assumes "\<forall>k\<in>set ks. const_reads g k"
  obtains w where "write_consts g ks = Some w" "\<And>d n. length w \<le> d \<Longrightarrow> n = length ks \<Longrightarrow> reads (pmany n (read_const g d)) w ks"
  using assms
proof (induction ks arbitrary: thesis)
  case Nil
  then show ?case by (auto simp: reads_return)
next
  case (Cons k ks)
  obtain w where w: "write_consts g ks = Some w" "\<And>d n. length w \<le> d \<Longrightarrow> n = length ks \<Longrightarrow> reads (pmany n (read_const g d)) w ks"
    using Cons.IH Cons.prems(2) by auto
  obtain w1 where w1: "write_const g k = Some w1" "\<forall>d\<ge>length w1. reads (read_const g d) w1 k" using Cons.prems(2) by (auto simp: const_reads_def)
  show ?case
  proof (rule Cons.prems(1) [of "w1 @ w"])
    show "write_consts g (k # ks) = Some (w1 @ w)" using w(1) w1(1) by simp
    fix d n assume d: "length (w1 @ w) \<le> d" "n = length (k # ks)"
    have "reads (pbind (pmany (length ks) (read_const g d)) (\<lambda>xs. preturn (k # xs))) w (k # ks)" using w(2) d by (intro reads_last) auto
    then show "reads (pmany n (read_const g d)) (w1 @ w) (k # ks)" using w1(2) d by (auto intro!: reads_bind)
  qed
qed

lemma reads_elements:
  assumes "\<forall>k\<in>set ks. const_reads g k" "length ks < 2 ^ 32"
  obtains w where "write_consts g ks = Some w"
    "\<And>d. length w \<le> d \<Longrightarrow> reads (read_elements (read_const g d)) (wu32 (word_of_nat (length ks)) @ w) ks"
proof -
  obtain w where w: "write_consts g ks = Some w" "\<And>d n. length w \<le> d \<Longrightarrow> n = length ks \<Longrightarrow> reads (pmany n (read_const g d)) w ks"
    using consts_read [OF assms(1)] by metis
  have "unat (word_of_nat (length ks) :: u32) = length ks" using assms(2) by (simp add: unat_of_nat)
  then have "reads (read_elements (read_const g d)) (wu32 (word_of_nat (length ks)) @ w) ks" if "length w \<le> d" for d
    unfolding read_elements_def reads_step [OF u32.dec_enc [OF TrueI]] using w(2) [OF that] by simp
  with w(1) that show thesis by blast
qed

lemma chunk_readsI:
  assumes ok: "0 \<le> sint upvals" "sint upvals \<le> 256" "name_ok name" "length code < 2 ^ 31" "length lines = length code"
      "length consts < 2 ^ 31" "length debug < 2 ^ 31" "list_all debug_ok debug" "upnames_ok upvals upnames"
    and ks: "\<forall>k\<in>set consts. const_reads g k" and src: "const_reads g src"
  shows "chunk_reads g (KChunk arity locals upvals name code lines consts debug upnames src macro)" (is "chunk_reads g ?c")
proof -
  obtain wc where wc: "write_consts g consts = Some wc" "\<And>d n. length wc \<le> d \<Longrightarrow> n = length consts \<Longrightarrow> reads (pmany n (read_const g d)) wc consts"
    using consts_read [OF ks] by metis
  obtain ws where ws: "write_const g src = Some ws" "\<And>d. length ws \<le> d \<Longrightarrow> reads (read_const g d) ws src" using src by (auto simp: const_reads_def)
  define w where "w = wu32 arity @ wu32 locals @ wu32 upvals @ write_name name @ wu32 (word_of_nat (length code)) @ code @ concat (map wu32 lines) @
      wu32 (word_of_nat (length consts)) @ wc @ wu32 (word_of_nat (length debug)) @ concat (map write_debug debug) @ write_upnames upvals upnames @
      ws @ wb (if macro then 1 else 0)"
  have "write_chunk g ?c = Some w" using wc(1) ws(1) ok(5) by (simp add: w_def)
  moreover have "reads (read_chunk (read_const g d)) w ?c" if "length w \<le> d" for d
  proof -
    have d: "length wc \<le> d" "length ws \<le> d" using that by (simp_all add: w_def)
    have up: "\<not> (sint upvals < 0 \<or> 256 < sint upvals)" using ok(1,2) by simp
    have lines: "reads (pmany (length code) ru32) (concat (map wu32 lines)) lines" using ok(5) by (intro u32.many) (auto simp: list_all_iff)
    have "reads (pbind rb (\<lambda>m. preturn (KChunk arity locals upvals name code lines consts debug upnames src (m \<noteq> 0)))) (wb (if macro then 1 else 0))
        (KChunk arity locals upvals name code lines consts debug upnames src ((if macro then 1 else 0 :: u8) \<noteq> 0))"
      by (intro reads_last byte.dec_enc TrueI)
    then show ?thesis unfolding read_chunk_def w_def reads_step [OF u32.dec_enc [OF TrueI]] if_not_P [OF up] reads_step [OF reads_name [OF ok(3)]]
        reads_step [OF reads_rlen [OF ok(4)]] reads_step [OF reads_bytes [OF refl]] reads_step [OF lines]
        reads_step [OF reads_rlen [OF ok(6)]] reads_step [OF wc(2) [OF d(1) refl]] reads_step [OF reads_rlen [OF ok(7)]]
        reads_step [OF debug.many [OF ok(8) refl]] reads_step [OF reads_upnames [OF ok(9)]] reads_step [OF ws(2) [OF d(2)]]
      by (cases macro) simp_all
  qed
  ultimately show ?thesis by (auto simp: chunk_reads_def)
qed

lemma two_consts:
  assumes "const_reads g a" "const_reads g b"
  obtains wa wb where "write_const g a = Some wa" "write_const g b = Some wb"
    "\<And>d (f :: konst \<Rightarrow> konst \<Rightarrow> konst). length (wa @ wb) \<le> d \<Longrightarrow> reads (pbind (read_const g d) (\<lambda>x. pbind (read_const g d) (\<lambda>y. preturn (f x y)))) (wa @ wb) (f a b)"
proof -
  obtain wa where wa: "write_const g a = Some wa" "\<And>d. length wa \<le> d \<Longrightarrow> reads (read_const g d) wa a" using assms(1) by (auto simp: const_reads_def)
  obtain wb where wb: "write_const g b = Some wb" "\<And>d. length wb \<le> d \<Longrightarrow> reads (read_const g d) wb b" using assms(2) by (auto simp: const_reads_def)
  show thesis by (rule that [OF wa(1) wb(1)]) (auto intro!: reads_bind [OF wa(2)] reads_last wb(2))
qed

lemmas body_simps = read_body_def ctag_defs

lemma const_reads_all:
  assumes g: "gmp_ok g"
  shows "konst_ok g k \<Longrightarrow> const_reads g k" "kchunk_ok g c \<Longrightarrow> chunk_reads g c"
proof (induction k and c rule: konst.induct kchunk.induct)
  case (K_Imm v)
  have "reads (pbind ru64 (\<lambda>raw. preturn (K_Imm raw))) (wu64 v) (K_Imm v)" by (intro reads_last u64.dec_enc TrueI)
  then show ?case by (intro const_readsI [where w = "wu64 v"]) (simp_all add: body_simps)
next
  case (K_Flonum v)
  have "reads (pbind ru64 (\<lambda>b. preturn (K_Flonum b))) (wu64 v) (K_Flonum v)" by (intro reads_last u64.dec_enc TrueI)
  then show ?case by (intro const_readsI [where w = "wu64 v"]) (simp_all add: body_simps)
next
  case (K_Bignum z)
  have "reads (pbind rstr (\<lambda>s. preturn (num_make_bignum_str g s))) (wstr (mpz_get_str16 g z)) (num_make_bignum_str g (mpz_get_str16 g z))"
    using K_Bignum by (intro reads_last str.dec_enc) simp
  then have "reads (pbind rstr (\<lambda>s. preturn (num_make_bignum_str g s))) (wstr (mpz_get_str16 g z)) (K_Bignum z)"
    using K_Bignum unfolding num_make_bignum_str_hex [OF g] by (simp add: make_big_from_mpz_def)
  then show ?case by (intro const_readsI [where w = "wstr (mpz_get_str16 g z)"]) (simp_all add: body_simps)
next
  case (K_Rational p q)
  then have "reads (pbind rstr (read_rational g)) (wstr (mpq_get_str16 g p q) @ []) (K_Rational p q)"
    using read_rational_written [OF g] by (intro reads_bind [OF str.dec_enc]) (auto simp: reads_return)
  then show ?case by (intro const_readsI [where w = "wstr (mpq_get_str16 g p q)"]) (simp_all add: body_simps)
next
  case (K_Complex re im)
  then obtain wa wb where w: "write_const g re = Some wa" "write_const g im = Some wb"
    "\<And>d (f :: konst \<Rightarrow> konst \<Rightarrow> konst). length (wa @ wb) \<le> d \<Longrightarrow> reads (pbind (read_const g d) (\<lambda>x. pbind (read_const g d) (\<lambda>y. preturn (f x y)))) (wa @ wb) (f re im)"
    using two_consts [of g re im] by auto
  have "num_make_complex re im = K_Complex re im" using K_Complex.prems by (simp add: num_make_complex_def)
  with w(3) [of _ num_make_complex] show ?case using w(1,2) by (intro const_readsI [where w = "wa @ wb"]) (simp_all add: body_simps)
next
  case (K_Quat a b c d)
  have "reads (pbind ru64 (\<lambda>a. pbind ru64 (\<lambda>b. pbind ru64 (\<lambda>c. pbind ru64 (\<lambda>d. preturn (K_Quat a b c d)))))) (wu64 a @ wu64 b @ wu64 c @ wu64 d) (K_Quat a b c d)"
    by (intro reads_bind [OF u64.dec_enc [OF TrueI]] reads_last u64.dec_enc TrueI)
  then show ?case by (intro const_readsI [where w = "wu64 a @ wu64 b @ wu64 c @ wu64 d"]) (simp_all add: body_simps)
next
  case (K_Oct es)
  then have "reads (pbind (pmany 8 ru64) (\<lambda>es. preturn (K_Oct es))) (concat (map wu64 es)) (K_Oct es)"
    by (intro reads_last u64.many) (auto simp: list_all_iff)
  then show ?case by (intro const_readsI [where w = "concat (map wu64 es)"]) (simp_all add: body_simps del: pmany.simps)
next
  case (K_String s)
  then have "reads (pbind rstr (\<lambda>s. preturn (K_String s))) (wstr s) (K_String s)" by (intro reads_last str.dec_enc) simp
  then show ?case by (intro const_readsI [where w = "wstr s"]) (simp_all add: body_simps)
next
  case (K_Symbol s)
  then have "reads (pbind rstr (\<lambda>s. preturn (K_Symbol s))) (wstr s) (K_Symbol s)" by (intro reads_last str.dec_enc) simp
  then show ?case by (intro const_readsI [where w = "wstr s"]) (simp_all add: body_simps)
next
  case (K_Pair a b)
  then obtain wa wb where w: "write_const g a = Some wa" "write_const g b = Some wb"
    "\<And>d (f :: konst \<Rightarrow> konst \<Rightarrow> konst). length (wa @ wb) \<le> d \<Longrightarrow> reads (pbind (read_const g d) (\<lambda>x. pbind (read_const g d) (\<lambda>y. preturn (f x y)))) (wa @ wb) (f a b)"
    using two_consts [of g a b] by auto
  show ?case using w(1,2) w(3) [of _ K_Pair] by (intro const_readsI [where w = "wa @ wb"]) (simp_all add: body_simps)
next
  case (K_Vector ks)
  then obtain w where w: "write_consts g ks = Some w"
      "\<And>d. length w \<le> d \<Longrightarrow> reads (read_elements (read_const g d)) (wu32 (word_of_nat (length ks)) @ w) ks"
    using reads_elements [of ks g] by auto
  show ?case by (rule const_readsI [where w = "wu32 (word_of_nat (length ks)) @ w"]) (use w(1) in \<open>simp_all add: body_simps reads_last w(2)\<close>)
next
  case (K_Bytevec s)
  then have "reads (pbind rstr (\<lambda>s. preturn (K_Bytevec s))) (wstr s) (K_Bytevec s)" by (intro reads_last str.dec_enc) simp
  then show ?case by (intro const_readsI [where w = "wstr s"]) (simp_all add: body_simps)
next
  case (K_Record name fs)
  then obtain w where w: "write_consts g fs = Some w"
      "\<And>d. length w \<le> d \<Longrightarrow> reads (read_elements (read_const g d)) (wu32 (word_of_nat (length fs)) @ w) fs"
    using reads_elements [of fs g] by auto
  obtain wn where n: "write_const g name = Some wn" "\<And>d. length wn \<le> d \<Longrightarrow> reads (read_const g d) wn name" using K_Record by (auto simp: const_reads_def)
  show ?case by (rule const_readsI [where w = "wn @ wu32 (word_of_nat (length fs)) @ w"])
      (use w(1) n(1) in \<open>simp_all add: body_simps reads_bind [OF n(2)] reads_last w(2)\<close>)
next
  case (K_Chunk c)
  then obtain w where w: "write_chunk g c = Some w" "\<And>d. length w \<le> d \<Longrightarrow> reads (read_chunk (read_const g d)) w c" by (auto simp: chunk_reads_def)
  show ?case by (rule const_readsI [where w = w]) (use w(1) in \<open>simp_all add: body_simps reads_last w(2)\<close>)
next
  case (KChunk arity locals upvals name code lines ks debug upnames src macro)
  then show ?case by (intro chunk_readsI) auto
qed simp

end
