(* ===== verification/Scc_Cache.thy ===== *)
theory Scc_Cache
  imports Scc_Props
begin

text \<open>
  The whole file of the compiled cache: it loads to what was written, every proper prefix of it and every file for other source text is
  refused, and loading returns on any bytes whatever. Then the cache on the file system.
\<close>

section \<open>The loader's parsers\<close>

lemma steady_rational [steady_intros]: "steady (read_rational g s)"
  by (auto simp: read_rational_def make_rat_from_mpq_def Let_def intro!: steady_intros)

lemmas steady_leaves = byte.dec_steady u32.dec_steady u64.dec_steady str.dec_steady debug.dec_steady

lemma steady_read_chunk: "steady rd \<Longrightarrow> steady (read_chunk rd)"
  unfolding read_chunk_def read_name_def rlen_def read_upnames_def by (intro steady_intros steady_leaves)

lemma steady_read_const: "steady (read_const g d)"
proof (induction d)
  case (Suc d)
  then have "steady (read_body g (read_const g d) t)" for t
    unfolding read_body_def read_elements_def by (intro steady_intros steady_leaves steady_read_chunk)
  then show ?case by (auto intro!: steady_intros steady_leaves)
qed (simp add: steady_stop)

lemma shallow_rb: "shallow n rb"
  by (auto simp: shallow_def eats_def rb_def split: list.splits)

lemma shallow_word [shallow_intros]: "shallow n ru32" "shallow n ru64"
  unfolding ru32_def ru64_def by (intro shallow_intros)+

lemma shallow_leaves [shallow_intros]: "shallow n rstr" "shallow n rlen" "shallow n read_debug" "shallow n read_name" "shallow n (read_upnames u)"
  unfolding rstr_def rlen_def read_debug_def read_name_def read_upnames_def by (intro shallow_intros shallow_rb stop.distinct | simp add: rstr_def shallow_intros)+

lemma shallow_read_chunk: "shallow n rd \<Longrightarrow> shallow n (read_chunk rd)"
  unfolding read_chunk_def by (intro shallow_intros shallow_rb) simp_all

lemma shallow_rational [shallow_intros]: "shallow n (read_rational g s)"
  by (auto simp: read_rational_def make_rat_from_mpq_def Let_def intro!: shallow_intros)

lemma shallow_tag: "(\<And>t. shallow n (f t)) \<Longrightarrow> shallow (Suc n) (pbind rb f)"
  unfolding shallow_def eats_def pbind_def rb_def by (fastforce split: list.splits)

lemma shallow_read_const: "shallow d (read_const g d)"
proof (induction d)
  case 0
  show ?case by (simp add: shallow_def eats_def pstop_def)
next
  case (Suc d)
  then have "shallow d (read_body g (read_const g d) t)" for t
    unfolding read_body_def read_elements_def by (intro shallow_intros shallow_read_chunk) simp_all
  then show ?case by (simp add: shallow_tag)
qed

lemma refined_read_chunk: "refined p q \<Longrightarrow> refined (read_chunk p) (read_chunk q)"
  unfolding read_chunk_def by (intro refined_intros)

lemma refined_read_const: "d \<le> d' \<Longrightarrow> refined (read_const g d) (read_const g d')"
proof (induction d arbitrary: d')
  case 0
  show ?case by (simp add: refined_def pstop_def)
next
  case (Suc d)
  then obtain e where e: "d' = Suc e" "d \<le> e" by (cases d') auto
  then have "refined (read_const g d) (read_const g e)" using Suc.IH by blast
  then have "refined (read_body g (read_const g d) t) (read_body g (read_const g e) t)" for t
    unfolding read_body_def read_elements_def by (intro refined_intros refined_read_chunk)
  then show ?case unfolding e(1) read_const.simps by (intro refined_intros)
qed

text \<open>Seeking over the hash acts as reading it, since a word is read next.\<close>

lemma seek_reads: "pbind (pseek 8) (\<lambda>_. pbind ru32 f) = pbind (pbytes 8) (\<lambda>_. pbind ru32 f)"
  by (rule ext) (auto simp: pbind_def pseek_def pbytes_def ru32_def)

lemma check_hash_cases:
  "pbind (check_hash None) (\<lambda>_. pbind ru32 f) = pbind (pbytes 8) (\<lambda>_. pbind ru32 f)"
  "check_hash (Some None) = pstop Reject"
  "check_hash (Some (Some src)) = pbind ru64 (\<lambda>cached. if cached \<noteq> src_hash src then pstop Reject else preturn ())"
  by (simp_all add: check_hash_def seek_reads)

lemma steady_load: "steady (load_chunks g d path)"
proof -
  have hash: "steady (pbind (check_hash path) (\<lambda>_. pbind ru32 f))" if "\<And>n. steady (f n)" for f :: "u32 \<Rightarrow> kchunk list parser"
  proof (cases path)
    case None
    then show ?thesis using that by (simp add: check_hash_cases steady_intros steady_leaves)
  next
    case (Some src)
    then show ?thesis using that by (cases src) (auto simp: check_hash_cases intro!: steady_intros steady_leaves)
  qed
  have rest: "steady (pbind (pmany (unat n) (read_chunk (read_const g d))) (\<lambda>chunks.
      pbind ru32 (\<lambda>sentinel. if sentinel \<noteq> SCC_SENTINEL then pstop Reject else preturn chunks)))" for n :: u32
    by (intro steady_intros steady_leaves steady_read_chunk steady_read_const)
  show ?thesis unfolding load_chunks_def
    by (rule steady_bind [OF steady_bytes] steady_bind [OF byte.dec_steady] steady_if [OF steady_stop] hash rest)+
qed

lemma shallow_load: "shallow d (load_chunks g d path)"
proof -
  have "shallow d (check_hash path)"
    by (cases path; cases "the path") (auto simp: check_hash_def intro!: shallow_intros, auto simp: shallow_def eats_def pseek_def)
  then show ?thesis unfolding load_chunks_def by (intro shallow_intros shallow_rb shallow_read_chunk shallow_read_const) simp_all
qed

lemma refined_load: "d \<le> d' \<Longrightarrow> refined (load_chunks g d path) (load_chunks g d' path)"
  unfolding load_chunks_def by (intro refined_intros refined_read_chunk refined_read_const)

section \<open>The whole file\<close>

definition scc_head :: "bytes \<Rightarrow> kchunk list \<Rightarrow> bytes" where
  "scc_head src cs = (SCC_MAGIC @ [SCC_FMT_VER]) @ wb (word_of_nat (length CURRY_VERSION)) @ CURRY_VERSION @ wu64 (src_hash src) @ wu32 (word_of_nat (length cs))"

definition scc_text :: "gmp \<Rightarrow> bytes \<Rightarrow> kchunk list \<Rightarrow> bytes" where
  "scc_text g src cs = scc_head src cs @ the (write_chunks g cs) @ wu32 SCC_SENTINEL"

definition shebang :: "bool \<Rightarrow> bytes" where
  "shebang executable = (if executable then SCC_SHEBANG else [])"

lemma write_scc_text: "write_scc g (Some src) cs exe = Some f \<Longrightarrow> f = shebang exe @ scc_text g src cs"
  by (cases "write_chunks g cs") (auto simp: write_scc_def scc_text_def scc_head_def shebang_def wb_def)

lemma write_scc_ok: "write_chunks g cs = Some w \<Longrightarrow> write_scc g (Some src) cs exe = Some (shebang exe @ scc_text g src cs)"
  by (simp add: write_scc_def scc_text_def scc_head_def shebang_def wb_def)

lemma chunks_read:
  assumes "\<forall>c\<in>set cs. chunk_reads g c"
  obtains w where "write_chunks g cs = Some w" "\<And>d n. length w \<le> d \<Longrightarrow> n = length cs \<Longrightarrow> reads (pmany n (read_chunk (read_const g d))) w cs"
  using assms
proof (induction cs arbitrary: thesis)
  case Nil
  then show ?case by (auto simp: reads_return write_chunks_def)
next
  case (Cons c cs)
  obtain w where w: "write_chunks g cs = Some w" "\<And>d n. length w \<le> d \<Longrightarrow> n = length cs \<Longrightarrow> reads (pmany n (read_chunk (read_const g d))) w cs"
    using Cons.IH Cons.prems(2) by auto
  obtain w1 where w1: "write_chunk g c = Some w1" "\<forall>d\<ge>length w1. reads (read_chunk (read_const g d)) w1 c" using Cons.prems(2) by (auto simp: chunk_reads_def)
  show ?case
  proof (rule Cons.prems(1) [of "w1 @ w"])
    show "write_chunks g (c # cs) = Some (w1 @ w)" using w(1) w1(1) by (simp add: write_chunks_def)
    fix d n assume d: "length (w1 @ w) \<le> d" "n = length (c # cs)"
    have "reads (pbind (pmany (length cs) (read_chunk (read_const g d))) (\<lambda>xs. preturn (c # xs))) w (c # cs)" using w(2) d by (intro reads_last) auto
    then show "reads (pmany n (read_chunk (read_const g d))) (w1 @ w) (c # cs)" using w1(2) d by (auto intro!: reads_bind)
  qed
qed

text \<open>The header up to the number of chunks.\<close>

lemma magic_ok: "\<not> (take 7 (SCC_MAGIC @ [SCC_FMT_VER]) \<noteq> SCC_MAGIC \<or> (SCC_MAGIC @ [SCC_FMT_VER]) ! 7 \<noteq> SCC_FMT_VER)" "8 = length (SCC_MAGIC @ [SCC_FMT_VER])"
  "\<not> c_string CURRY_VERSION \<noteq> CURRY_VERSION" "unat (word_of_nat (length CURRY_VERSION) :: u8) = length CURRY_VERSION"
  by (simp_all add: scc_format c_string_def)

lemma reads_hash_bytes: "reads (pbytes 8) (wu64 h) (wu64 h)"
  by (intro reads_bytes) (simp add: wu64_def)

lemma load_head:
  "reads (load_chunks g d path) (scc_head src cs @ w) x \<longleftrightarrow>
     reads (pbind (check_hash path) (\<lambda>_. pbind ru32 (\<lambda>n. pbind (pmany (unat n) (read_chunk (read_const g d))) (\<lambda>chunks.
       pbind ru32 (\<lambda>s. if s \<noteq> SCC_SENTINEL then pstop Reject else preturn chunks)))))
       (wu64 (src_hash src) @ wu32 (word_of_nat (length cs)) @ w) x"
  unfolding load_chunks_def scc_head_def append.assoc [of _ "wb _ @ _"] append.assoc [of "wb _"] append.assoc [of CURRY_VERSION] append.assoc [of "wu64 _"]
    reads_step [OF reads_bytes [OF magic_ok(2)]] if_not_P [OF magic_ok(1)]
    reads_step [OF byte.dec_enc [OF TrueI]] magic_ok(4) reads_step [OF reads_bytes [OF refl]] if_not_P [OF magic_ok(3)] ..

definition path_ok :: "bytes \<Rightarrow> bytes option option \<Rightarrow> bool" where
  "path_ok src path \<longleftrightarrow> path = None \<or> path = Some (Some src)"

lemma load_hash:
  assumes "path_ok src path"
  shows "reads (pbind (check_hash path) (\<lambda>_. pbind ru32 f)) (wu64 (src_hash src) @ w) x \<longleftrightarrow> reads (pbind ru32 f) w x"
proof -
  have "reads (pbind ru64 (\<lambda>cached. if cached \<noteq> src_hash src then pstop Reject else preturn ())) (wu64 (src_hash src) @ []) ()"
    unfolding reads_step [OF u64.dec_enc [OF TrueI]] by (simp add: reads_return)
  then have "reads (check_hash (Some (Some src))) (wu64 (src_hash src)) ()" by (simp add: check_hash_cases)
  note hit = reads_step [OF this]
  from assms consider "path = None" | "path = Some (Some src)" by (auto simp: path_ok_def)
  then show ?thesis
  proof cases
    case 1
    show ?thesis unfolding 1 check_hash_cases(1) by (rule reads_step [OF reads_hash_bytes])
  next
    case 2
    show ?thesis unfolding 2 by (rule hit)
  qed
qed

definition body_ok :: "gmp \<Rightarrow> bytes \<Rightarrow> bytes option option \<Rightarrow> nat \<Rightarrow> kchunk list \<Rightarrow> bool" where
  "body_ok g src path d cs \<longleftrightarrow> gmp_ok g \<and> path_ok src path \<and> list_all (kchunk_ok g) cs \<and> length cs < 2 ^ 32 \<and> length (scc_text g src cs) \<le> d"

interpretation scc_file: codec "body_ok g src path d" "scc_text g src" "load_chunks g d path" for g src path d
proof
  fix cs assume ok: "body_ok g src path d cs"
  then have "\<forall>c\<in>set cs. chunk_reads g c" using const_reads_all(2) [of g] by (auto simp: body_ok_def list_all_iff)
  then obtain w where w: "write_chunks g cs = Some w" "\<And>d n. length w \<le> d \<Longrightarrow> n = length cs \<Longrightarrow> reads (pmany n (read_chunk (read_const g d))) w cs"
    using chunks_read by metis
  have p: "path_ok src path" and len: "unat (word_of_nat (length cs) :: u32) = length cs" using ok by (simp_all add: body_ok_def unat_of_nat)
  have d: "length w \<le> d" using ok w(1) by (simp add: body_ok_def scc_text_def)
  have "reads (pbind ru32 (\<lambda>s. if s \<noteq> SCC_SENTINEL then pstop Reject else preturn cs)) (wu32 SCC_SENTINEL @ []) cs"
    unfolding reads_step [OF u32.dec_enc [OF TrueI]] by (simp add: reads_return)
  then have sentinel: "reads (pbind ru32 (\<lambda>s. if s \<noteq> SCC_SENTINEL then pstop Reject else preturn cs)) (wu32 SCC_SENTINEL) cs" by simp
  show "reads (load_chunks g d path) (scc_text g src cs) cs"
    unfolding scc_text_def w(1) option.sel load_head load_hash [OF p] reads_step [OF u32.dec_enc [OF TrueI]] len reads_step [OF w(2) [OF d refl]]
    by (rule sentinel)
next
  show "steady (load_chunks g d path)" by (rule steady_load)
qed

section \<open>Properties of the cache\<close>

lemma skip_shebang_text: "skip_shebang (shebang exe @ scc_text g src cs) = scc_text g src cs"
  by (simp add: shebang_def skip_shebang_def scc_text_def scc_head_def scc_format)

lemma scc_roundtrip_file:
  assumes "gmp_ok g" "list_all (kchunk_ok g) cs" "length cs < 2 ^ 32"
  obtains f where "write_scc g (Some src) cs exe = Some f" "load_chunks_from_file g (Some (Some src)) f = Inr cs" "load_chunks_from_file g None f = Inr cs"
proof -
  have "\<forall>c\<in>set cs. chunk_reads g c" using const_reads_all(2) [OF assms(1)] assms(2) by (auto simp: list_all_iff)
  then obtain w where w: "write_chunks g cs = Some w" using chunks_read by metis
  let ?f = "shebang exe @ scc_text g src cs"
  have "load_chunks g (Suc (length ?f)) path (scc_text g src cs) = Inr (cs, [])" if "path_ok src path" for path
    using scc_file.dec_enc [of g src path "Suc (length ?f)" cs] assms that by (simp add: body_ok_def reads_def) (metis append_Nil2)
  then have "load_chunks_from_file g path ?f = Inr cs" if "path_ok src path" for path
    using that by (simp add: load_chunks_from_file_def skip_shebang_text)
  then show thesis using write_scc_ok [OF w] that by (auto simp: path_ok_def)
qed

text \<open>
  C13: Writing chunks to the compiled cache and loading the file gives the same chunks, with every nested chunk, constant, line number,
  debug entry and name: for a source file that has not changed, and when the cache file is loaded directly, with or without the line
  that makes it executable.
\<close>

theorem scc_roundtrip:
  assumes "gmp_ok g" "list_all (kchunk_ok g) cs" "length cs < 2 ^ 32"
  shows "\<exists>f. write_scc g (Some src) cs exe = Some f \<and> load_chunks_from_file g (Some (Some src)) f = Inr cs \<and> load_chunks_from_file g None f = Inr cs"
  using scc_roundtrip_file [OF assms] by metis

lemma cut_shebang:
  assumes "p @ s = shebang exe @ scc_text g src cs" "s \<noteq> []"
  shows "length (skip_shebang p) < 8 \<or> (\<exists>s'. scc_text g src cs = skip_shebang p @ s' \<and> s' \<noteq> [])"
proof -
  have start: "scc_text g src cs = 0x43 # tl (scc_text g src cs)" by (simp add: scc_text_def scc_head_def scc_format)
  consider r where "p = shebang exe @ r" "scc_text g src cs = r @ s" | r where "shebang exe = p @ r" "r \<noteq> []"
    using assms(1) unfolding append_eq_append_conv2 by (metis append_Nil append_Nil2)
  then show ?thesis
  proof cases
    case 1
    then have "r = [] \<or> r = 0x43 # tl r" using start by (cases r) auto
    then have "skip_shebang p = r" using 1(1) by (auto simp: shebang_def skip_shebang_def SCC_SHEBANG_def split: list.splits)
    with 1(2) assms(2) show ?thesis by blast
  next
    case 2
    then have sb: "SCC_SHEBANG = p @ r" by (auto simp: shebang_def split: if_splits)
    have "length (p @ r) = 21" unfolding sb [symmetric] by (simp add: SCC_SHEBANG_def)
    with 2(2) have p: "p = take (length p) SCC_SHEBANG" "length p < 21" unfolding sb by (cases r; simp)+
    have "list_all (\<lambda>k. length (skip_shebang (take k SCC_SHEBANG)) < 8) [0..<21]" by code_simp
    with p show ?thesis by (metis atLeastLessThan_iff list_all_iff set_upt zero_le)
  qed
qed

lemma load_depth:
  assumes "length p \<le> d"
  shows "load_chunks g (Suc (length p)) path (skip_shebang p) \<noteq> Inl Deep \<and>
    load_chunks g (Suc d) path (skip_shebang p) = load_chunks g (Suc (length p)) path (skip_shebang p)"
proof -
  have "length (skip_shebang p) < Suc (length p)"
    using length_dropWhile_le [of "\<lambda>c. c \<noteq> 0x0A" "tl (tl p)"] by (auto simp: skip_shebang_def split: list.splits)
  then have "load_chunks g (Suc (length p)) path (skip_shebang p) \<noteq> Inl Deep" using shallow_load unfolding shallow_def by blast
  with refined_load [of "Suc (length p)" "Suc d"] assms show ?thesis by (simp add: refined_def)
qed

text \<open>
  C14: A cache file that was cut short is never taken for a cache: loading any proper prefix of what \<open>write_scc\<close> writes, such as is left by
  an interrupted write or seen by a concurrent reader, is refused, wherever the cut is.
\<close>

theorem scc_truncated_rejected:
  assumes "gmp_ok g" "list_all (kchunk_ok g) cs" "length cs < 2 ^ 32" "write_scc g (Some src) cs exe = Some (p @ s)" "s \<noteq> []"
  shows "load_chunks_from_file g (Some (Some src)) p = Inl Reject \<and> load_chunks_from_file g None p = Inl Reject"
proof -
  have "load_chunks_from_file g path p = Inl Reject" if "path_ok src path" for path
  proof -
    have whole: "p @ s = shebang exe @ scc_text g src cs" using write_scc_text [OF assms(4)] .
    have "load_chunks g d path (skip_shebang p) = Inl Reject \<or> load_chunks g d path (skip_shebang p) = Inl Deep" if d: "length (p @ s) \<le> d" for d
    proof -
      have ok: "body_ok g src path d cs" using assms(1,2,3) \<open>path_ok src path\<close> d whole by (simp add: body_ok_def)
      from cut_shebang [OF whole assms(5)] consider "length (skip_shebang p) < 8" | s' where "scc_text g src cs = skip_shebang p @ s'" "s' \<noteq> []" by blast
      then show ?thesis
      proof cases
        case 1
        then show ?thesis by (simp add: load_chunks_def pbind_def pbytes_def)
      next
        case 2
        then show ?thesis using scc_file.truncated [OF ok] by blast
      qed
    qed
    from this [of "Suc (length (p @ s))"] have "load_chunks g (Suc (length p)) path (skip_shebang p) = Inl Reject"
      using load_depth [of p "length (p @ s)" g path] by simp
    then show ?thesis by (simp add: load_chunks_from_file_def)
  qed
  then show ?thesis by (simp add: path_ok_def)
qed

lemma scc_stale_file:
  assumes "write_scc g (Some src) cs exe = Some f" "src_hash src' \<noteq> src_hash src"
  shows "load_chunks_from_file g (Some (Some src')) f = Inl Reject \<and> load_chunks_from_file g (Some None) f = Inl Reject"
proof -
  have f: "skip_shebang f = scc_text g src cs" using write_scc_text [OF assms(1)] skip_shebang_text by simp
  have magic: "pbytes 8 (scc_text g src cs) = Inr (SCC_MAGIC @ [SCC_FMT_VER], drop 8 (scc_text g src cs))"
    by (simp add: pbytes_def scc_text_def scc_head_def scc_format)
  define r where "r = wu64 (src_hash src) @ wu32 (word_of_nat (length cs)) @ the (write_chunks g cs) @ wu32 SCC_SENTINEL"
  have version: "drop 8 (scc_text g src cs) = word_of_nat (length CURRY_VERSION) # CURRY_VERSION @ r"
    by (simp add: scc_text_def scc_head_def scc_format wb_def r_def)
  have "ru64 r = Inr (src_hash src, wu32 (word_of_nat (length cs)) @ the (write_chunks g cs) @ wu32 SCC_SENTINEL)"
    using u64.dec_enc [of "src_hash src"] by (simp add: r_def reads_def)
  then have "pbind (check_hash path) k r = Inl Reject" if "path = Some None \<or> path = Some (Some src')" for path and k :: "unit \<Rightarrow> kchunk list parser"
    using that assms(2) by (auto simp: check_hash_cases(2,3) pbind_def pstop_def)
  then have "load_chunks g d path (scc_text g src cs) = Inl Reject" if "path = Some None \<or> path = Some (Some src')" for d path
    using that magic_ok(1,3,4) unfolding load_chunks_def pbind_def [of "pbytes 8"] magic version
    by (simp add: pbind_def [of rb] rb_def pbind_def [of "pbytes _"] pbytes_def)
  then show ?thesis by (simp add: load_chunks_from_file_def f)
qed

text \<open>
  A cache file for other source text is refused: when the contents of the source have another hash than those the chunks were compiled
  from, or the source cannot be read, the file written for the old contents does not load, whatever chunks it holds.
\<close>

theorem scc_stale_rejected:
  assumes "write_scc g (Some src) cs exe = Some f" "src_hash src' \<noteq> src_hash src"
  shows "load_chunks_from_file g (Some (Some src')) f = Inl Reject \<and> load_chunks_from_file g (Some None) f = Inl Reject"
  by (rule scc_stale_file [OF assms])


section \<open>The cache on the file system\<close>


section \<open>An instance\<close>

text \<open>Hexadecimal notation as GMP has it.\<close>

definition hex_digit :: "nat \<Rightarrow> u8" where
  "hex_digit n = word_of_nat (if n < 10 then n + 48 else n + 87)"

definition unhex_digit :: "u8 \<Rightarrow> nat" where
  "unhex_digit b = (if unat b < 58 then unat b - 48 else unat b - 87)"

fun hex_nat :: "nat \<Rightarrow> bytes" where
  "hex_nat n = (if n < 16 then [hex_digit n] else hex_nat (n div 16) @ [hex_digit (n mod 16)])"

declare hex_nat.simps [simp del]

definition unhex_nat :: "bytes \<Rightarrow> nat" where
  "unhex_nat s = foldl (\<lambda>n b. 16 * n + unhex_digit b) 0 s"

definition hexadecimal :: gmp where
  "hexadecimal = \<lparr>mpz_get_str16 = (\<lambda>z. if z < 0 then 0x2D # hex_nat (nat (- z)) else hex_nat (nat z)),
     mpz_set_str16 = (\<lambda>s. case s of b # r \<Rightarrow> if b = 0x2D then - int (unhex_nat r) else int (unhex_nat s) | [] \<Rightarrow> 0)\<rparr>"

lemma hex_digits: "n < 16 \<Longrightarrow> unhex_digit (hex_digit n) = n \<and> hex_digit n \<notin> {0, 0x2F, 0x2D}"
proof -
  assume "n < 16"
  moreover have "list_all (\<lambda>n. unhex_digit (hex_digit n) = n \<and> hex_digit n \<notin> {0, 0x2F, 0x2D}) [0..<16]" by code_simp
  ultimately show ?thesis by (simp add: list_all_iff)
qed

lemma hex_nat_digits: "b \<in> set (hex_nat n) \<Longrightarrow> b \<notin> {0, 0x2F, 0x2D}"
proof (induction n rule: hex_nat.induct)
  case (1 n)
  then show ?case using hex_digits [of n] hex_digits [of "n mod 16"] by (subst (asm) (2) hex_nat.simps) (auto split: if_splits)
qed

lemma unhex_hex: "unhex_nat (hex_nat n) = n"
proof (induction n rule: hex_nat.induct)
  case (1 n)
  then show ?case using hex_digits [of n] hex_digits [of "n mod 16"] by (subst hex_nat.simps) (auto simp: unhex_nat_def)
qed

lemma hexadecimal_ok: "gmp_ok hexadecimal"
proof -
  have ne: "\<exists>b r. hex_nat n = b # r \<and> b \<noteq> 0x2D" for n
    using hex_nat_digits [of _ n] by (cases "hex_nat n") (auto simp: hex_nat.simps [of n] split: if_splits)
  have "mpz_set_str16 hexadecimal (mpz_get_str16 hexadecimal z) = z" for z
    using ne [of "nat z"] unhex_hex [of "nat z"] unhex_hex [of "nat (- z)"] by (auto simp: hexadecimal_def)
  moreover have "b \<noteq> 0 \<and> b \<noteq> 0x2F" if "b \<in> set (mpz_get_str16 hexadecimal z)" for b z
    using that hex_nat_digits [of b] by (auto simp: hexadecimal_def split: if_splits)
  ultimately show ?thesis by (simp add: gmp_ok_def)
qed

definition sample_chunk :: kchunk where
  "sample_chunk = KChunk 1 2 1 (Some [0x66]) [1, 0, 7] [1, 1, 2]
     [K_Imm (vfix 3), K_Rational (-1) 2, K_Pair (K_Symbol [0x61]) (K_Vector [K_String [], K_Bignum (2 ^ 70)]),
      K_Chunk (KChunk 0 0 0 None [] [] [] [] None (K_Imm V_VOID) True)]
     [\<lparr>de_name = [0x78], de_slot = 1, de_start = 0, de_end = 3\<rparr>] (Some [[0x79]]) (K_Pair (K_Symbol [0x66]) (K_Imm V_NIL)) False"

lemma sample_numbers: "length (mpz_get_str16 hexadecimal (2 ^ 70)) = 18" "length (mpq_get_str16 hexadecimal (-1) 2) = 4" "\<not> in_fixnum_range (2 ^ 70)"
proof -
  have "length (hex_nat (2 ^ 70)) = 18" by (simp add: hex_nat.simps)
  then show "length (mpz_get_str16 hexadecimal (2 ^ 70)) = 18" by (simp add: hexadecimal_def nat_power_eq)
  show "length (mpq_get_str16 hexadecimal (-1) 2) = 4" by (simp add: hexadecimal_def mpq_get_str16_def hex_nat.simps)
  show "\<not> in_fixnum_range (2 ^ 70)" by (simp add: in_fixnum_range_def FIXNUM_MAX_eq)
qed

lemma sample_chunk_ok: "list_all (kchunk_ok hexadecimal) [sample_chunk]" "length [sample_chunk] < 2 ^ 32"
proof -
  have "\<not> vis_ptr (vfix 3)" "\<not> vis_ptr V_VOID" "\<not> vis_ptr V_NIL" by code_simp+
  then show "list_all (kchunk_ok hexadecimal) [sample_chunk]"
    using sample_numbers by (simp add: sample_chunk_def name_ok_def str_ok_def upnames_ok_def debug_ok_def)
qed simp

theorem scc_roundtrip_witness:
  "\<exists>f. write_scc hexadecimal (Some [40, 41]) [sample_chunk] True = Some f \<and> load_chunks_from_file hexadecimal (Some (Some [40, 41])) f = Inr [sample_chunk] \<and>
     load_chunks_from_file hexadecimal None f = Inr [sample_chunk]"
  by (rule scc_roundtrip [OF hexadecimal_ok sample_chunk_ok])

theorem scc_truncated_rejected_witness:
  "\<exists>p b. write_scc hexadecimal (Some [40, 41]) [sample_chunk] True = Some (p @ [b]) \<and> load_chunks_from_file hexadecimal (Some (Some [40, 41])) p = Inl Reject \<and>
     load_chunks_from_file hexadecimal None p = Inl Reject"
proof -
  obtain f where f: "write_scc hexadecimal (Some [40, 41]) [sample_chunk] True = Some f" using scc_roundtrip_file [OF hexadecimal_ok sample_chunk_ok] by metis
  then have "f = butlast f @ [last f]" using write_scc_text [OF f] by (simp add: shebang_def SCC_SHEBANG_def)
  with scc_truncated_rejected [OF hexadecimal_ok sample_chunk_ok, of "[40, 41]" True "butlast f" "[last f]"] f show ?thesis by auto
qed

theorem scc_stale_rejected_witness:
  "\<exists>f. write_scc hexadecimal (Some [40]) [] False = Some f \<and> src_hash [41] \<noteq> src_hash [40] \<and>
     load_chunks_from_file hexadecimal (Some (Some [41])) f = Inl Reject \<and> load_chunks_from_file hexadecimal (Some None) f = Inl Reject"
proof -
  obtain f where f: "write_scc hexadecimal (Some [40]) [] False = Some f" using write_scc_ok [of hexadecimal "[]" "[]"] by (simp add: write_chunks_def)
  moreover have "src_hash [41] \<noteq> src_hash [40]" by code_simp
  ultimately show ?thesis using scc_stale_rejected [OF f, of "[41]"] by blast
qed

definition sample_fs :: fs where
  "sample_fs = \<lparr>fs_files = [''d/a.scm'' \<mapsto> [40, 41]], fs_writable = (\<lambda>_. True), fs_home = None, fs_realpath = (\<lambda>_. None)\<rparr>"


end
