(* ===== verification/Spec2Isabelle.thy ===== *)
theory Spec2Isabelle
  imports Hash_Table Symbol_Table Environment Global_Cache Vm_Upvalues Vm_Calls Compile_Top Channel_Props Stm_Props Round_Trip Scc_Cache
begin

text \<open>
  A verification development of the core of the Curry Scheme system (\<open>src/src\<close>).

  A program is read (\<open>reader.c\<close>, \<open>port.c\<close>), compiled to chunks of bytecode (\<open>ir_lower.c\<close>, \<open>ir_emit.c\<close>, \<open>compiler.c\<close>, \<open>chunk.c\<close>) and
  run by a stack machine (\<open>vm.c\<close>) over tagged values (\<open>value.h\<close>, \<open>object.h\<close>); the chunks of a file are kept in a cache on disk (\<open>scc.c\<close>).
  The machine resolves global variables through environments (\<open>env.c\<close>) with an inline cache, symbols are interned (\<open>symbol.c\<close>), sets and
  hash tables (\<open>set.c\<close>) compare keys with \<open>eq?\<close>, \<open>eqv?\<close> or \<open>equal?\<close>, and threads talk through channels (\<open>channel.c\<close>) and transactional
  memory (\<open>stm.c\<close>). Each theory translates one of these parts; its definitions keep the names of the C functions.

  \<^bold>\<open>Values and tables.\<close>

  \<^item> \<open>Curry_Prelude\<close>: machine types, the outcome \<open>res\<close> of a function that may raise an error, not return or be undefined, and shared lemmas.
  \<^item> \<open>Curry_Value\<close> (\<open>value.h\<close>): tagged 64-bit words; fixnums and characters survive encoding (\<open>fixnum_roundtrip\<close>, \<open>value_classes\<close>).
  \<^item> \<open>Heap\<close> (\<open>object.h\<close>): heap objects and the runtime state that equality and hashing read.
  \<^item> \<open>Open_Addressing\<close>: the probe loop that the symbol table, sets and hash tables share; the locale \<open>key_hashing\<close> says what such a table
    needs of its hash function and comparison, and the lemmas on chains of slots are proved once there.
  \<^item> \<open>Equality\<close> (\<open>set.c\<close>): the three equalities and \<open>val_hash\<close>, characterised by the contents a predicate compares. They are equivalence
    relations, equal values hash alike (the interpretation \<open>val_hashing\<close>), and \<open>equal?\<close> on circular data raises.
  \<^item> \<open>Containers\<close>: the contracts \<open>bounded_set\<close> and \<open>bounded_map\<close>, interpreted by \<open>Hash_Set\<close> and \<open>Hash_Table\<close> (\<open>set.c\<close>): any history of
    operations behaves as a mathematical set or finite map.
  \<^item> \<open>Symbol_Table\<close> (\<open>symbol.c\<close>): interning gives the same pointer exactly for equal names.

  \<^bold>\<open>Environments.\<close> \<open>Env_Frame\<close> and \<open>Environment\<close> (\<open>env.c\<close>): frames with their hash index, chains of frames, lookup, assignment and
  argument binding. \<open>Global_Cache\<close> (\<open>vm.c\<close>, \<open>chunk.h\<close>): the inline cache of global variables is transparent to one thread; a store that
  races a growing frame is lost.

  \<^bold>\<open>Bytecode.\<close>

  \<^item> \<open>Opcode\<close> and \<open>Chunk\<close> (\<open>opcode.h\<close>, \<open>chunk.c\<close>): instruction encoding, emission, patching, constant pool, disassembler.
  \<^item> \<open>Vm_State\<close> and \<open>Vm\<close> (\<open>vm.c\<close>): the state of the machine and one step per instruction; primitives and allocation are arguments.
    \<open>Vm_Upvalues\<close> and \<open>Vm_Calls\<close> show how captured variables, calls, tail calls and handlers behave.
  \<^item> \<open>Compiler\<close> and \<open>Ir_Emit\<close> (\<open>compiler.c\<close>, \<open>ir_emit.c\<close>, the optimiser of \<open>ir_lower.c\<close>): from the expression tree to chunks.
    \<open>Ir_Semantics\<close> is a reference evaluation of the tree; the optimiser preserves it.
  \<^item> \<open>Emit_Layout\<close>, \<open>Emit_Levels\<close>, \<open>Vm_Exec\<close>, \<open>Compile_Correct\<close>, \<open>Compile_Logic\<close>, \<open>Compile_Calls\<close> and \<open>Compile_Top\<close>: running the emitted
    code of a top-level form that creates no procedure has the outcome of the reference evaluation (\<open>compile_correct\<close>).

  \<^bold>\<open>Text and files.\<close>

  \<^item> \<open>Port\<close> (\<open>port.c\<close>): UTF-8 and string ports. The locale \<open>char_source\<close> is what a reader sees of a port; \<open>string_port\<close> interprets it.
  \<^item> \<open>Reader\<close> (\<open>reader.c\<close>): the whole reader on a stream of characters, with a proof that it makes progress. \<open>Writer\<close> (\<open>port.c\<close>): the
    plain writer.
  \<^item> \<open>Read_Write\<close> and \<open>Round_Trip\<close>: every datum that can be written plainly reads back, alone and in whole files.
  \<^item> \<open>Byte_Codec\<close>: parsers over bytes and the locale \<open>codec\<close> of an encoding with its decoder. \<open>Scc\<close> (\<open>scc.c\<close>): the file format of the
    compiled cache. \<open>Scc_Props\<close> and \<open>Scc_Cache\<close> interpret \<open>codec\<close> for each part of the format and for the whole file: what is written is
    loaded, prefixes and stale files are refused, and loading always returns.

  \<^bold>\<open>Concurrency.\<close>

  \<^item> \<open>Channel\<close> and \<open>Channel_Props\<close> (\<open>channel.c\<close>): critical sections under the channel's mutex, sleeping and waking threads; first in, first
    out, no lost wakeup, and closing releases every thread. Two senders on an unbuffered channel can lose a value.
  \<^item> \<open>Stm\<close> and \<open>Stm_Props\<close> (\<open>stm.c\<close>): each access to shared memory is a step; updates of one variable are not lost and commits do not
    deadlock, while snapshots of several variables, \<open>or-else\<close> and \<open>retry\<close> have the failures shown there.

  \<^bold>\<open>Bounds.\<close> Recursion that the source guards with \<open>check_c_stack_depth\<close> takes the number of C frames that are left, and raises at zero as
  the source does; theorems ask for as much as the nesting of the data needs. Unguarded recursion (\<open>scm_eqv\<close>, \<open>read_const\<close>) takes a depth
  that is shown to be enough or whose end is the outcome \<open>Diverges\<close> or \<open>Deep\<close>. Loops over tables are bounded by the capacity, which is
  shown to suffice; the machine runs for a number of steps that the correctness theorem provides.

  \<^bold>\<open>Not modelled.\<close> The garbage collector: an address is never used twice. Memory exhaustion and errors of the disk within a file. Weak
  memory: \<open>Stm\<close> and \<open>Global_Cache\<close> take accesses in one order. The numeric tower, whose functions are arguments of the machine and of the
  reader, and the algebra systems above it (floating point and GMP). Macro expansion, the lowering of source forms and the classic
  compiler, which need a model of the whole expander. Continuations, conditions, actors and the work pool, which rest on \<open>longjmp\<close> and
  operating system threads. Native code, foreign functions, modules and the extension modules, which are bindings of other libraries. Datum
  labels and the sexagesimal notations of the writer. The line numbers that the reader stamps on pairs.
\<close>

end
